(* ===== verification/Prelude.thy ===== *)
theory Prelude
  imports Main "HOL-Library.Word"
begin

section \<open>Prelude: outcomes, the program monad, memory blocks, machine sizes and mutexes\<close>

text \<open>
  What every component of the model shares.

  \<^item> \<^emph>\<open>Outcomes.\<close> A C++ function returns, throws, aborts on a failed
    \<^verbatim>\<open>assert\<close>, runs into undefined behaviour, blocks on a mutex its own thread
    already holds, or is still waiting for the kernel. Each is a value of \<open>outcome\<close>.
  \<^item> \<^emph>\<open>Programs.\<close> A member function is a function from the object's state to an
    outcome and the state it leaves behind; a state is left behind also when the function
    throws, because C++ keeps the writes made before the exception.
  \<^item> \<^emph>\<open>Memory.\<close> An array is the list of its cells, a cell that was never written is
    \<open>None\<close>. \<^verbatim>\<open>memcpy\<close> and \<^verbatim>\<open>memmove\<close> are total only inside
    the array, an access outside is undefined behaviour.
  \<^item> \<^emph>\<open>Sizes.\<close> \<^verbatim>\<open>std::size_t\<close> is a natural number with the
    wrap-around at \<open>2 ^ 64\<close> written out.
  \<^item> \<^emph>\<open>Mutexes.\<close> \<^verbatim>\<open>std::mutex\<close> and
    \<^verbatim>\<open>std::recursive_mutex\<close> as seen by the thread that calls them.
\<close>

named_theorems prog_simps \<open>unfolding of the program combinators\<close>
named_theorems mem_simps \<open>reading and writing of memory blocks\<close>
named_theorems size_simps \<open>arithmetic of machine sizes\<close>
named_theorems wp_rules \<open>computation of weakest preconditions\<close>
named_theorems keeps_rules \<open>structure rules for the properties a program keeps\<close>

subsection \<open>Outcomes\<close>

datatype ub =
    Null_deref        \<comment> \<open>a null pointer is dereferenced\<close>
  | Out_of_bounds     \<comment> \<open>an access outside of an array\<close>
  | Use_after_free    \<comment> \<open>an access to an object that has been deleted\<close>
  | Uninit_read       \<comment> \<open>a decision on memory that was never written\<close>
  | Const_write       \<comment> \<open>a constant object is overwritten\<close>
  | Int_overflow      \<comment> \<open>a signed result outside of its type\<close>

datatype exn =
    Runtime_error string   \<comment> \<open>\<^verbatim>\<open>std::runtime_error(what)\<close>\<close>
  | Bad_array_length       \<comment> \<open>\<^verbatim>\<open>std::bad_array_new_length\<close>\<close>

datatype failure =
    Thrown exn     \<comment> \<open>an exception leaves the function\<close>
  | Deadlock       \<comment> \<open>a non-recursive mutex is locked again by the thread that owns it\<close>
  | Abort          \<comment> \<open>a failed \<^verbatim>\<open>assert\<close>; the build files never define NDEBUG\<close>
  | Undef ub       \<comment> \<open>undefined behaviour\<close>
  | Pending        \<comment> \<open>the kernel has not answered the last system call yet\<close>
  | Exited int     \<comment> \<open>the process has called \<^verbatim>\<open>exit\<close>\<close>

datatype 'a outcome = Ret 'a | Fail failure

fun is_undef :: "'a outcome \<Rightarrow> bool" where
  "is_undef (Fail (Undef u)) = True"
| "is_undef _ = False"

type_synonym ('s, 'a) prog = "'s \<Rightarrow> 'a outcome \<times> 's"

definition ret :: "'a \<Rightarrow> ('s, 'a) prog" where
  "ret x = (\<lambda>s. (Ret x, s))"

definition fail :: "failure \<Rightarrow> ('s, 'a) prog" where
  "fail e = (\<lambda>s. (Fail e, s))"

definition throw_runtime :: "string \<Rightarrow> ('s, 'a) prog" where
  "throw_runtime msg = fail (Thrown (Runtime_error msg))"

definition bnd :: "('s, 'a) prog \<Rightarrow> ('a \<Rightarrow> ('s, 'b) prog) \<Rightarrow> ('s, 'b) prog" where
  "bnd m f = (\<lambda>s. case m s of (Ret x, t) \<Rightarrow> f x t | (Fail e, t) \<Rightarrow> (Fail e, t))"

definition thn :: "('s, 'a) prog \<Rightarrow> ('s, 'b) prog \<Rightarrow> ('s, 'b) prog" where
  "thn m n = bnd m (\<lambda>_. n)"

definition gets :: "('s \<Rightarrow> 'a) \<Rightarrow> ('s, 'a) prog" where
  "gets f = (\<lambda>s. (Ret (f s), s))"

definition modify :: "('s \<Rightarrow> 's) \<Rightarrow> ('s, unit) prog" where
  "modify f = (\<lambda>s. (Ret (), f s))"

definition assertion :: "('s \<Rightarrow> bool) \<Rightarrow> ('s, unit) prog" where
  "assertion P = (\<lambda>s. if P s then (Ret (), s) else (Fail Abort, s))"

definition cond :: "('s \<Rightarrow> bool) \<Rightarrow> ('s, 'a) prog \<Rightarrow> ('s, 'a) prog \<Rightarrow> ('s, 'a) prog" where
  "cond P m n = (\<lambda>s. if P s then m s else n s)"

definition defined :: "ub \<Rightarrow> 'a option \<Rightarrow> ('s, 'a) prog" where
  "defined u v = (case v of None \<Rightarrow> fail (Undef u) | Some x \<Rightarrow> ret x)"

text \<open>
  \<open>on_exit m f\<close> runs the destructor \<open>f\<close> of a local object at the end of its block:
  on a normal return and while an exception unwinds the stack, but not when the program has
  stopped for another reason. \<open>catch_all m h\<close> is \<^verbatim>\<open>try { m } catch (...) { h }\<close>.
\<close>

definition on_exit :: "('s, 'a) prog \<Rightarrow> ('s \<Rightarrow> 's) \<Rightarrow> ('s, 'a) prog" where
  "on_exit m f = (\<lambda>s. case m s of
      (Ret x, t) \<Rightarrow> (Ret x, f t)
    | (Fail (Thrown e), t) \<Rightarrow> (Fail (Thrown e), f t)
    | (Fail e, t) \<Rightarrow> (Fail e, t))"

definition catch_all :: "('s, 'a) prog \<Rightarrow> ('s, 'a) prog \<Rightarrow> ('s, 'a) prog" where
  "catch_all m h = (\<lambda>s. case m s of
      (Fail (Thrown e), t) \<Rightarrow> h t
    | r \<Rightarrow> r)"

text \<open>A destructor that is itself a program: it runs on a normal return and during unwinding.\<close>

definition finally_run :: "('s, 'a) prog \<Rightarrow> ('s, unit) prog \<Rightarrow> ('s, 'a) prog" where
  "finally_run m f = (\<lambda>s. case m s of
      (Ret x, t) \<Rightarrow> thn f (ret x) t
    | (Fail (Thrown e), t) \<Rightarrow> thn f (fail (Thrown e)) t
    | (Fail e, t) \<Rightarrow> (Fail e, t))"

text \<open>\<open>zoom g p m\<close> runs a program of a component inside the state that contains it.\<close>

definition zoom :: "('s \<Rightarrow> 't) \<Rightarrow> ('t \<Rightarrow> 's \<Rightarrow> 's) \<Rightarrow> ('t, 'a) prog \<Rightarrow> ('s, 'a) prog" where
  "zoom g p m = (\<lambda>s. case m (g s) of (r, t) \<Rightarrow> (r, p t s))"

lemma ret_apply [simp, prog_simps]: "ret x s = (Ret x, s)"
  by (simp add: ret_def)

lemma fail_apply [simp, prog_simps]: "fail e s = (Fail e, s)"
  by (simp add: fail_def)

lemma throw_runtime_apply [simp, prog_simps]:
  "throw_runtime msg s = (Fail (Thrown (Runtime_error msg)), s)"
  by (simp add: throw_runtime_def)

lemma gets_apply [simp, prog_simps]: "gets f s = (Ret (f s), s)"
  by (simp add: gets_def)

lemma modify_apply [simp, prog_simps]: "modify f s = (Ret (), f s)"
  by (simp add: modify_def)

lemma assertion_apply [simp, prog_simps]:
  "assertion P s = (if P s then (Ret (), s) else (Fail Abort, s))"
  by (simp add: assertion_def)

lemma cond_apply [simp, prog_simps]: "cond P m n s = (if P s then m s else n s)"
  by (simp add: cond_def)

lemma defined_apply [simp, prog_simps]:
  "defined u None s = (Fail (Undef u), s)"
  "defined u (Some x) s = (Ret x, s)"
  by (simp_all add: defined_def)

lemma bnd_apply [prog_simps]:
  "bnd m f s = (case m s of (Ret x, t) \<Rightarrow> f x t | (Fail e, t) \<Rightarrow> (Fail e, t))"
  by (simp add: bnd_def)

lemma bnd_Ret [simp]: "m s = (Ret x, t) \<Longrightarrow> bnd m f s = f x t"
  by (simp add: bnd_def)

lemma bnd_Fail [simp]: "m s = (Fail e, t) \<Longrightarrow> bnd m f s = (Fail e, t)"
  by (simp add: bnd_def)

lemma thn_apply [prog_simps]:
  "thn m n s = (case m s of (Ret x, t) \<Rightarrow> n t | (Fail e, t) \<Rightarrow> (Fail e, t))"
  by (simp add: thn_def bnd_def)

lemma thn_Ret [simp]: "m s = (Ret x, t) \<Longrightarrow> thn m n s = n t"
  by (simp add: thn_def)

lemma thn_Fail [simp]: "m s = (Fail e, t) \<Longrightarrow> thn m n s = (Fail e, t)"
  by (simp add: thn_def)

lemma zoom_apply [prog_simps]: "zoom g p m s = (case m (g s) of (r, t) \<Rightarrow> (r, p t s))"
  by (simp add: zoom_def)

lemma on_exit_apply [prog_simps]:
  "on_exit m f s = (case m s of
      (Ret x, t) \<Rightarrow> (Ret x, f t)
    | (Fail (Thrown e), t) \<Rightarrow> (Fail (Thrown e), f t)
    | (Fail e, t) \<Rightarrow> (Fail e, t))"
  by (simp add: on_exit_def)

lemma catch_all_apply [prog_simps]:
  "catch_all m h s = (case m s of (Fail (Thrown e), t) \<Rightarrow> h t | r \<Rightarrow> r)"
  by (simp add: catch_all_def)

lemma bnd_ret_left: "bnd (ret x) f = f x"
  by (simp add: fun_eq_iff)

lemma thn_ret: "thn (ret x) m = m"
  by (simp add: thn_def bnd_ret_left)

lemma bnd_ret_right: "bnd m ret = m"
  by (auto simp: fun_eq_iff bnd_def split: prod.splits outcome.splits)

lemma bnd_assoc: "bnd (bnd m f) g = bnd m (\<lambda>x. bnd (f x) g)"
  by (auto simp: fun_eq_iff bnd_def split: prod.splits outcome.splits)

text \<open>
  Inversion of a sequence and of a protected block, for proofs that follow an operation to
  the state it leaves behind.
\<close>

lemma bnd_cases:
  assumes "bnd m f s = (r, t)"
  obtains (Ret) x u where "m s = (Ret x, u)" "f x u = (r, t)"
    | (Fail) e where "m s = (Fail e, t)" "r = Fail e"
  using assms by (auto simp: bnd_def split: prod.splits outcome.splits)

lemma thn_cases:
  assumes "thn m n s = (r, t)"
  obtains (Ret) x u where "m s = (Ret x, u)" "n u = (r, t)"
    | (Fail) e where "m s = (Fail e, t)" "r = Fail e"
  using assms by (auto simp: thn_def elim: bnd_cases)

subsection \<open>Machine sizes\<close>

definition size_max :: nat where
  "size_max = 2 ^ 64"

definition sz_add :: "nat \<Rightarrow> nat \<Rightarrow> nat" where
  "sz_add a b = (a + b) mod size_max"

definition sz_sub :: "nat \<Rightarrow> nat \<Rightarrow> nat" where
  "sz_sub a b = (a + (size_max - b mod size_max)) mod size_max"

text \<open>\<^verbatim>\<open>(int)n\<close> for a size: the low 32 bits, read in two's complement.\<close>

definition int_of_size :: "nat \<Rightarrow> int" where
  "int_of_size n = (int n + 2 ^ 31) mod 2 ^ 32 - 2 ^ 31"

text \<open>
  \<^verbatim>\<open>new T[n]\<close> for a one-byte \<^verbatim>\<open>T\<close> throws when the array would be
  larger than the largest object, \<open>2 ^ 63 - 1\<close> bytes.
\<close>

definition array_max :: nat where
  "array_max = 2 ^ 63"

lemma array_max_less_size_max: "array_max < size_max"
  by (simp add: array_max_def size_max_def)

lemma sz_add_small [simp, size_simps]: "a + b < size_max \<Longrightarrow> sz_add a b = a + b"
  by (simp add: sz_add_def)

lemma sz_sub_small [simp, size_simps]:
  assumes "b \<le> a" "a < size_max"
  shows "sz_sub a b = a - b"
proof -
  from assms have b: "b mod size_max = b" by simp
  from assms have "a + (size_max - b) = (a - b) + size_max" by linarith
  then have "sz_sub a b = (a - b) mod size_max"
    by (simp only: sz_sub_def b mod_add_self2)
  then show ?thesis using assms by simp
qed

lemma sz_add_arrays [size_simps]: "a < array_max \<Longrightarrow> b < array_max \<Longrightarrow> sz_add a b = a + b"
  by (simp add: array_max_def size_max_def sz_add_def)

lemma int_of_size_small [simp, size_simps]: "n < 2 ^ 31 \<Longrightarrow> int_of_size n = int n"
  by (simp add: int_of_size_def)

subsection \<open>Memory blocks\<close>

type_synonym 'a cell = "'a option"

definition new_array :: "nat \<Rightarrow> ('s, 'a cell list) prog" where
  "new_array n = (if n < array_max then ret (replicate n None) else fail (Thrown Bad_array_length))"

lemma new_array_apply [simp, prog_simps]:
  "new_array n s = (if n < array_max then (Ret (replicate n None), s)
     else (Fail (Thrown Bad_array_length), s))"
  by (simp add: new_array_def)

definition mem_write :: "nat \<Rightarrow> 'a list \<Rightarrow> 'a list \<Rightarrow> 'a list option" where
  "mem_write i ys m =
     (if i + length ys \<le> length m then Some (take i m @ ys @ drop (i + length ys) m) else None)"

definition mem_read :: "nat \<Rightarrow> nat \<Rightarrow> 'a list \<Rightarrow> 'a list option" where
  "mem_read i n m = (if i + n \<le> length m then Some (take n (drop i m)) else None)"

text \<open>\<^verbatim>\<open>memmove(m + i, m + j, n)\<close> inside one array.\<close>

definition mem_move :: "nat \<Rightarrow> nat \<Rightarrow> nat \<Rightarrow> 'a list \<Rightarrow> 'a list option" where
  "mem_move i j n m = (case mem_read j n m of None \<Rightarrow> None | Some ys \<Rightarrow> mem_write i ys m)"

lemma mem_read_Some [simp, mem_simps]:
  "i + n \<le> length m \<Longrightarrow> mem_read i n m = Some (take n (drop i m))"
  by (simp add: mem_read_def)

lemma mem_read_length: "mem_read i n m = Some ys \<Longrightarrow> length ys = n"
  by (auto simp: mem_read_def split: if_splits)

lemma mem_write_Some [simp, mem_simps]:
  "i + length ys \<le> length m \<Longrightarrow>
     mem_write i ys m = Some (take i m @ ys @ drop (i + length ys) m)"
  by (simp add: mem_write_def)

lemma mem_write_length: "mem_write i ys m = Some m' \<Longrightarrow> length m' = length m"
  by (auto simp: mem_write_def split: if_splits)

lemma mem_move_Some [simp, mem_simps]:
  assumes "i + n \<le> length m" "j + n \<le> length m"
  shows "mem_move i j n m = Some (take i m @ take n (drop j m) @ drop (i + n) m)"
proof -
  from assms(2) have "length (take n (drop j m)) = n" by simp
  then show ?thesis using assms by (simp add: mem_move_def)
qed

lemma mem_move_length: "mem_move i j n m = Some m' \<Longrightarrow> length m' = length m"
  by (auto simp: mem_move_def dest: mem_write_length split: option.splits)

lemma mem_move_self: "i + n \<le> length m \<Longrightarrow> mem_move i i n m = Some m"
proof -
  assume i: "i + n \<le> length m"
  have "take n (drop i m) @ drop (i + n) m = drop i m"
    by (metis add.commute append_take_drop_id drop_drop)
  then show ?thesis using i by simp
qed

lemma mem_write_frame:
  assumes "mem_write i ys m = Some m'" "j + n \<le> i"
  shows "take n (drop j m') = take n (drop j m)"
  using assms
  by (auto simp: mem_write_def drop_take min_def split: if_splits)

lemma take_min_length [simp]: "take (min (length xs) k) xs = take k xs"
  by (simp add: min_def)

lemma take_drop_within: "i + n \<le> u \<Longrightarrow> take n (drop i (take u m)) = take n (drop i m)"
  by (simp add: drop_take min_def)

lemma take_drop_spliced: "i \<le> length m \<Longrightarrow> take (length ys) (drop i (take i m @ ys @ zs)) = ys"
  by simp

text \<open>\<^verbatim>\<open>memcmp(a, b, n) == 0\<close>; on cells that were never written it is no decision.\<close>

definition mem_equal :: "'a cell list \<Rightarrow> 'a cell list \<Rightarrow> bool option" where
  "mem_equal xs ys =
     (if None \<in> set xs \<or> None \<in> set ys then None else Some (xs = ys))"

subsection \<open>Mutexes\<close>

text \<open>
  The model follows one thread. \<open>m_depth\<close> counts how often the thread holds the mutex. To
  lock a \<^verbatim>\<open>std::mutex\<close> that the thread already holds is undefined behaviour in C++
  and blocks for ever in the implementation the build links to (a glibc mutex of the default
  kind); the model reports it as \<open>Deadlock\<close>. The kind is a field, because the same member
  functions are meaningful with a \<^verbatim>\<open>std::recursive_mutex\<close>.
\<close>

datatype mutex_kind = Std_mutex | Recursive_mutex

record mutex =
  m_kind :: mutex_kind
  m_depth :: nat

definition new_mutex :: "mutex_kind \<Rightarrow> mutex" where
  "new_mutex k = \<lparr>m_kind = k, m_depth = 0\<rparr>"

definition can_lock :: "mutex \<Rightarrow> bool" where
  "can_lock m \<longleftrightarrow> m_depth m = 0 \<or> m_kind m = Recursive_mutex"

definition lock_mutex :: "(mutex, unit) prog" where
  "lock_mutex = cond can_lock (modify (\<lambda>m. m\<lparr>m_depth := Suc (m_depth m)\<rparr>)) (fail Deadlock)"

definition unlocked :: "mutex \<Rightarrow> mutex" where
  "unlocked m = m\<lparr>m_depth := m_depth m - 1\<rparr>"

lemma can_lock_new [simp]: "can_lock (new_mutex k)"
  by (simp add: can_lock_def new_mutex_def)

lemma can_lock_recursive [simp]: "m_kind m = Recursive_mutex \<Longrightarrow> can_lock m"
  by (simp add: can_lock_def)

lemma can_lock_std [simp]: "m_kind m = Std_mutex \<Longrightarrow> can_lock m \<longleftrightarrow> m_depth m = 0"
  by (simp add: can_lock_def)

text \<open>
  \<open>with_lock g p body\<close> is a block that starts with
  \<^verbatim>\<open>std::unique_lock<std::mutex> lock(_mutex)\<close> on the mutex at \<open>g\<close>: lock, run
  the block, unlock when the block is left normally or by an exception.
\<close>

definition with_lock ::
  "('s \<Rightarrow> mutex) \<Rightarrow> (mutex \<Rightarrow> 's \<Rightarrow> 's) \<Rightarrow> ('s, 'a) prog \<Rightarrow> ('s, 'a) prog" where
  "with_lock g p body =
     thn (zoom g p lock_mutex) (on_exit body (\<lambda>s. p (unlocked (g s)) s))"

definition locked :: "mutex \<Rightarrow> mutex" where
  "locked m = m\<lparr>m_depth := Suc (m_depth m)\<rparr>"

lemma unlocked_locked [simp]: "unlocked (locked m) = m"
  by (simp add: unlocked_def locked_def)

lemma locked_kind [simp]: "m_kind (locked m) = m_kind m"
  by (simp add: locked_def)

lemma locked_depth [simp]: "m_depth (locked m) = Suc (m_depth m)"
  by (simp add: locked_def)

lemma with_lock_free:
  "can_lock (g s) \<Longrightarrow>
     with_lock g p body s = on_exit body (\<lambda>s. p (unlocked (g s)) s) (p (locked (g s)) s)"
  by (simp add: with_lock_def thn_def bnd_def zoom_def lock_mutex_def locked_def)

lemma with_lock_held:
  "\<not> can_lock (g s) \<Longrightarrow> with_lock g p body s = (Fail Deadlock, p (g s) s)"
  by (simp add: with_lock_def thn_def bnd_def zoom_def lock_mutex_def)

lemma on_exit_Ret [simp]: "m s = (Ret x, t) \<Longrightarrow> on_exit m f s = (Ret x, f t)"
  by (simp add: on_exit_def)

lemma on_exit_Thrown [simp]: "m s = (Fail (Thrown e), t) \<Longrightarrow> on_exit m f s = (Fail (Thrown e), f t)"
  by (simp add: on_exit_def)

lemma on_exit_stop [simp]:
  "m s = (Fail e, t) \<Longrightarrow> (\<And>x. e \<noteq> Thrown x) \<Longrightarrow> on_exit m f s = (Fail e, t)"
  by (cases e) (auto simp: on_exit_def)

subsection \<open>Properties that a program keeps\<close>

text \<open>
  \<open>keeps P m\<close>: started in a state with \<open>P\<close>, the program \<open>m\<close> leaves one with \<open>P\<close>,
  however it ends. The rules follow the structure of a program.
\<close>

definition keeps :: "('s \<Rightarrow> bool) \<Rightarrow> ('s, 'a) prog \<Rightarrow> bool" where
  "keeps P m \<longleftrightarrow> (\<forall>s. P s \<longrightarrow> P (snd (m s)))"

lemma keepsD: "keeps P m \<Longrightarrow> P s \<Longrightarrow> P (snd (m s))"
  by (simp add: keeps_def)

lemma keepsI: "(\<And>s. P s \<Longrightarrow> P (snd (m s))) \<Longrightarrow> keeps P m"
  by (simp add: keeps_def)

lemma keeps_ret [keeps_rules]: "keeps P (ret x)"
  by (simp add: keeps_def)

lemma keeps_fail [keeps_rules]: "keeps P (fail e)"
  by (simp add: keeps_def)

lemma keeps_throw [keeps_rules]: "keeps P (throw_runtime e)"
  by (simp add: keeps_def)

lemma keeps_gets [keeps_rules]: "keeps P (gets f)"
  by (simp add: keeps_def)

lemma keeps_assertion [keeps_rules]: "keeps P (assertion Q)"
  by (simp add: keeps_def)

lemma keeps_defined [keeps_rules]: "keeps P (defined u x)"
  by (cases x) (simp_all add: keeps_def)

lemma keeps_bnd [keeps_rules]: "keeps P m \<Longrightarrow> (\<And>x. keeps P (f x)) \<Longrightarrow> keeps P (bnd m f)"
  unfolding keeps_def by (simp add: bnd_apply split: prod.split outcome.split) (metis snd_conv)

lemma keeps_thn [keeps_rules]: "keeps P m \<Longrightarrow> keeps P n \<Longrightarrow> keeps P (thn m n)"
  unfolding keeps_def by (simp add: thn_apply split: prod.split outcome.split) (metis snd_conv)

lemma keeps_cond [keeps_rules]: "keeps P m \<Longrightarrow> keeps P n \<Longrightarrow> keeps P (cond Q m n)"
  by (simp add: keeps_def)

lemma keeps_if [keeps_rules]: "keeps P m \<Longrightarrow> keeps P n \<Longrightarrow> keeps P (if b then m else n)"
  by simp

lemma keeps_modify [keeps_rules]: "(\<And>s. P s \<Longrightarrow> P (f s)) \<Longrightarrow> keeps P (modify f)"
  by (simp add: keeps_def)

lemma keeps_catch [keeps_rules]:
  assumes "keeps P m" "keeps P h"
  shows "keeps P (catch_all m h)"
proof (rule keepsI)
  fix s
  assume s: "P s"
  obtain r t where m: "m s = (r, t)" by fastforce
  have t: "P t" using keepsD [OF assms(1) s] m by simp
  show "P (snd (catch_all m h s))"
    using m t keepsD [OF assms(2) t]
    by (auto simp: catch_all_apply split: outcome.split failure.split)
qed

lemma keeps_prod [keeps_rules]: "(\<And>x y. keeps P (f x y)) \<Longrightarrow> keeps P (case p of (x, y) \<Rightarrow> f x y)"
  by (cases p) simp

lemma keeps_option [keeps_rules]:
  "keeps P m \<Longrightarrow> (\<And>x. keeps P (f x)) \<Longrightarrow> keeps P (case p of None \<Rightarrow> m | Some x \<Rightarrow> f x)"
  by (cases p) simp_all

lemma keeps_zoom: "(\<And>s x. P s \<Longrightarrow> P (put x s)) \<Longrightarrow> keeps P (zoom get put m)"
  by (auto simp: keeps_def zoom_def split: prod.splits)

lemma keeps_on_exit: "keeps P m \<Longrightarrow> (\<And>s. P s \<Longrightarrow> P (f s)) \<Longrightarrow> keeps P (on_exit m f)"
proof (rule keepsI)
  fix s assume a: "keeps P m" "\<And>s. P s \<Longrightarrow> P (f s)" "P s"
  obtain out t where m: "m s = (out, t)" by (rule prod.exhaust)
  have "P t" using keepsD [OF a(1,3)] m by simp
  then show "P (snd (on_exit m f s))"
    using m a(2) by (auto simp: on_exit_def split: outcome.split failure.split)
qed

lemma keeps_with_lock: "keeps P m \<Longrightarrow> (\<And>s x. P s \<Longrightarrow> P (put x s)) \<Longrightarrow> keeps P (with_lock get put m)"
  unfolding with_lock_def by (intro keeps_thn keeps_zoom keeps_on_exit) auto

lemma keeps_finally: "keeps P m \<Longrightarrow> keeps P f \<Longrightarrow> keeps P (finally_run m f)"
proof (rule keepsI)
  fix s assume a: "keeps P m" "keeps P f" "P s"
  obtain out t where m: "m s = (out, t)" by (rule prod.exhaust)
  have t: "P t" using keepsD [OF a(1,3)] m by simp
  have "P (snd (thn f x t))" if "keeps P x" for x :: "('a, 'b) prog"
    using keepsD [OF keeps_thn [OF a(2) that] t] .
  then show "P (snd (finally_run m f s))"
    using m t by (auto simp: finally_run_def intro: keeps_ret keeps_fail split: outcome.split failure.split)
qed

subsection \<open>Weakest preconditions\<close>

text \<open>\<open>wp m Q s\<close>: the run of \<open>m\<close> from \<open>s\<close> ends in an outcome and a state with \<open>Q\<close>. The rules
  compute it along the structure of a program.\<close>

definition wp :: "('s, 'a) prog \<Rightarrow> ('a outcome \<Rightarrow> 's \<Rightarrow> bool) \<Rightarrow> 's \<Rightarrow> bool" where
  "wp m Q s \<longleftrightarrow> (case m s of (out, t) \<Rightarrow> Q out t)"

lemma wpD: "wp m Q s \<Longrightarrow> m s = (out, t) \<Longrightarrow> Q out t"
  by (simp add: wp_def)

lemma wp_ret [wp_rules]: "wp (ret x) Q s \<longleftrightarrow> Q (Ret x) s"
  by (simp add: wp_def)

lemma wp_fail [wp_rules]: "wp (fail e) Q s \<longleftrightarrow> Q (Fail e) s"
  by (simp add: wp_def)

lemma wp_gets [wp_rules]: "wp (gets f) Q s \<longleftrightarrow> Q (Ret (f s)) s"
  by (simp add: wp_def)

lemma wp_modify [wp_rules]: "wp (modify f) Q s \<longleftrightarrow> Q (Ret ()) (f s)"
  by (simp add: wp_def)

lemma wp_defined [wp_rules]:
  "wp (defined u x) Q s \<longleftrightarrow> (case x of Some y \<Rightarrow> Q (Ret y) s | None \<Rightarrow> Q (Fail (Undef u)) s)"
  by (cases x) (simp_all add: wp_def)

lemma wp_bnd [wp_rules]:
  "wp (bnd m f) Q s \<longleftrightarrow> wp m (\<lambda>out t. case out of Ret x \<Rightarrow> wp (f x) Q t | Fail e \<Rightarrow> Q (Fail e) t) s"
  by (simp add: wp_def bnd_apply split: prod.split outcome.split)

lemma wp_thn [wp_rules]:
  "wp (thn m n) Q s \<longleftrightarrow> wp m (\<lambda>out t. case out of Ret x \<Rightarrow> wp n Q t | Fail e \<Rightarrow> Q (Fail e) t) s"
  by (simp add: wp_def thn_apply split: prod.split outcome.split)

lemma wp_catch_all [wp_rules]:
  "wp (catch_all m h) Q s \<longleftrightarrow> wp m (\<lambda>out t. case out of
       Ret x \<Rightarrow> Q (Ret x) t
     | Fail (Thrown e) \<Rightarrow> wp h Q t
     | Fail e \<Rightarrow> Q (Fail e) t) s"
  by (simp add: wp_def catch_all_apply split: prod.split outcome.split failure.split)

lemma wp_cond [wp_rules]: "wp (cond b m n) Q s \<longleftrightarrow> (if b s then wp m Q s else wp n Q s)"
  by (simp add: wp_def)

lemma wp_if [wp_rules]: "wp (if b then m else n) Q s \<longleftrightarrow> (if b then wp m Q s else wp n Q s)"
  by simp

lemma wp_mono: "wp m Q s \<Longrightarrow> (\<And>out t. Q out t \<Longrightarrow> R out t) \<Longrightarrow> wp m R s"
  by (simp add: wp_def split: prod.splits)

end
