(* ===== verification/Buffer.thy ===== *)
theory Buffer
  imports Prelude
begin

section \<open>Buffer: the resizable array of buffer.h\<close>

text \<open>
  Models \<^verbatim>\<open>class Buffer<T>\<close> of \<^verbatim>\<open>src/epoll_server/buffer.h\<close> for a
  one-byte \<^verbatim>\<open>T\<close>, as the program instantiates it. The record holds the four members
  of the class; the pointer is \<open>None\<close> for \<^verbatim>\<open>nullptr\<close> and otherwise the cells of
  the array it points to. Member functions are programs over that record.
\<close>

record 'a buffer =
  b_capacity :: nat
  b_used :: nat
  b_ptr :: "'a cell list option"
  b_ownMem :: bool

subsection \<open>Constructors, copying, moving\<close>

definition buffer_new :: "nat \<Rightarrow> ('s, 'a buffer) prog" where
  "buffer_new len =
     (if len > 0
      then bnd (new_array len) (\<lambda>m.
             ret \<lparr>b_capacity = len, b_used = len, b_ptr = Some m, b_ownMem = True\<rparr>)
      else ret \<lparr>b_capacity = len, b_used = len, b_ptr = None, b_ownMem = True\<rparr>)"

text \<open>\<^verbatim>\<open>Buffer(T* pMem, length)\<close>: the caller's array, not owned.\<close>

definition buffer_wrap :: "'a cell list \<Rightarrow> 'a buffer" where
  "buffer_wrap m = \<lparr>b_capacity = length m, b_used = length m, b_ptr = Some m, b_ownMem = False\<rparr>"

text \<open>\<^verbatim>\<open>Buffer(const T* pMem, length)\<close>: a copy of the caller's array.\<close>

definition buffer_copy_mem :: "'a cell list \<Rightarrow> ('s, 'a buffer) prog" where
  "buffer_copy_mem xs =
     (if length xs > 0
      then bnd (new_array (length xs)) (\<lambda>m.
           bnd (defined Out_of_bounds (mem_write 0 xs m)) (\<lambda>m'.
             ret \<lparr>b_capacity = length xs, b_used = length xs, b_ptr = Some m', b_ownMem = True\<rparr>))
      else ret \<lparr>b_capacity = 0, b_used = 0, b_ptr = None, b_ownMem = True\<rparr>)"

definition buffer_copy :: "'a buffer \<Rightarrow> ('s, 'a buffer) prog" where
  "buffer_copy other =
     (if b_used other \<noteq> 0
      then bnd (new_array (b_used other)) (\<lambda>m.
           bnd (defined Null_deref (b_ptr other)) (\<lambda>src.
           bnd (defined Out_of_bounds (mem_read 0 (b_used other) src)) (\<lambda>xs.
           bnd (defined Out_of_bounds (mem_write 0 xs m)) (\<lambda>m'.
             ret \<lparr>b_capacity = b_used other, b_used = b_used other, b_ptr = Some m',
                  b_ownMem = True\<rparr>))))
      else ret \<lparr>b_capacity = b_used other, b_used = b_used other, b_ptr = None, b_ownMem = True\<rparr>)"

definition moved_from :: "'a buffer" where
  "moved_from = \<lparr>b_capacity = 0, b_used = 0, b_ptr = None, b_ownMem = False\<rparr>"

text \<open>The move constructor: the new object and what is left of the other one.\<close>

definition buffer_move :: "'a buffer \<Rightarrow> 'a buffer \<times> 'a buffer" where
  "buffer_move other =
     (\<lparr>b_capacity = b_capacity other, b_used = b_used other, b_ptr = b_ptr other,
       b_ownMem = b_ownMem other\<rparr>,
      other\<lparr>b_capacity := 0, b_used := 0, b_ownMem := False, b_ptr := None\<rparr>)"

text \<open>
  \<^verbatim>\<open>swap\<close> exchanges the four members; copy assignment is copy and swap, guarded by
  \<^verbatim>\<open>this != &other\<close> (the argument \<open>same\<close> says that the two addresses agree).
\<close>

definition buffer_swap :: "'a buffer \<Rightarrow> 'a buffer \<Rightarrow> 'a buffer \<times> 'a buffer" where
  "buffer_swap this other =
     (this\<lparr>b_ptr := b_ptr other, b_capacity := b_capacity other, b_used := b_used other,
           b_ownMem := b_ownMem other\<rparr>,
      other\<lparr>b_ptr := b_ptr this, b_capacity := b_capacity this, b_used := b_used this,
           b_ownMem := b_ownMem this\<rparr>)"

definition buffer_copy_assign :: "bool \<Rightarrow> 'a buffer \<Rightarrow> ('a buffer, unit) prog" where
  "buffer_copy_assign same other =
     (if \<not> same
      then bnd (buffer_copy other) (\<lambda>tmp. modify (\<lambda>this. fst (buffer_swap this tmp)))
      else ret ())"

text \<open>Move assignment takes the members in the order of the source; in a self-assignment the
  members read from \<^verbatim>\<open>other\<close> are the ones just written, and are then cleared.\<close>

definition buffer_move_assign :: "bool \<Rightarrow> 'a buffer \<Rightarrow> 'a buffer \<Rightarrow> 'a buffer \<times> 'a buffer" where
  "buffer_move_assign same this other =
     (let taken = this\<lparr>b_capacity := b_capacity other, b_used := b_used other,
                       b_ptr := b_ptr other, b_ownMem := b_ownMem other\<rparr>;
          left = other\<lparr>b_capacity := 0, b_used := 0, b_ownMem := False, b_ptr := None\<rparr>
      in if same then (left, left) else (taken, left))"

subsection \<open>Changing the size\<close>

definition not_owner_msg :: string where
  "not_owner_msg = ''Cannot resize buffer which does not own its storage.''"

text \<open>Copies the first \<open>n\<close> cells of the old array, if there is one, to the new array.\<close>

definition preserve :: "bool \<Rightarrow> nat \<Rightarrow> 'a cell list \<Rightarrow> ('a buffer, 'a cell list) prog" where
  "preserve preserveContent n new =
     bnd (gets b_ptr) (\<lambda>old. case old of
         Some m \<Rightarrow>
           if preserveContent
           then bnd (defined Out_of_bounds (mem_read 0 n m)) (\<lambda>xs.
                  defined Out_of_bounds (mem_write 0 xs new))
           else ret new
       | None \<Rightarrow> ret new)"

definition buffer_resize :: "nat \<Rightarrow> bool \<Rightarrow> ('a buffer, unit) prog" where
  "buffer_resize newCapacity preserveContent =
     cond (\<lambda>b. \<not> b_ownMem b) (throw_runtime not_owner_msg)
     (thn (assertion (\<lambda>_. newCapacity > 0))
     (if newCapacity \<le> 0 then ret () else
      thn (cond (\<lambda>b. newCapacity > b_capacity b)
            (bnd (new_array newCapacity) (\<lambda>new.
             bnd (gets b_used) (\<lambda>used.
             bnd (preserve preserveContent used new) (\<lambda>p.
               modify (\<lambda>b. b\<lparr>b_ptr := Some p, b_capacity := newCapacity\<rparr>)))))
            (ret ()))
          (modify (\<lambda>b. b\<lparr>b_used := newCapacity\<rparr>))))"

definition buffer_set_capacity :: "nat \<Rightarrow> bool \<Rightarrow> ('a buffer, unit) prog" where
  "buffer_set_capacity newCapacity preserveContent =
     cond (\<lambda>b. \<not> b_ownMem b) (throw_runtime not_owner_msg)
     (cond (\<lambda>b. newCapacity \<noteq> b_capacity b)
       (bnd (if newCapacity > 0
             then bnd (new_array newCapacity) (\<lambda>new.
                  bnd (gets (\<lambda>b. if b_used b < newCapacity then b_used b else newCapacity)) (\<lambda>newSz.
                  bnd (preserve preserveContent newSz new) (\<lambda>p. ret (Some p))))
             else ret None) (\<lambda>p.
        modify (\<lambda>b. b\<lparr>b_ptr := p, b_capacity := newCapacity,
                       b_used := (if newCapacity < b_used b then newCapacity else b_used b)\<rparr>)))
       (ret ()))"

text \<open>Stores \<open>xs\<close> at offset \<open>i\<close> of the buffer's array.\<close>

definition buffer_store :: "nat \<Rightarrow> 'a cell list \<Rightarrow> ('a buffer, unit) prog" where
  "buffer_store i xs =
     bnd (gets b_ptr) (\<lambda>p.
     bnd (defined Null_deref p) (\<lambda>m.
     bnd (defined Out_of_bounds (mem_write i xs m)) (\<lambda>m'.
       modify (\<lambda>b. b\<lparr>b_ptr := Some m'\<rparr>))))"

text \<open>Reads \<open>n\<close> cells at offset \<open>i\<close>, and moves \<open>n\<close> cells inside the array.\<close>

definition buffer_load :: "nat \<Rightarrow> nat \<Rightarrow> ('a buffer, 'a cell list) prog" where
  "buffer_load i n =
     bnd (gets b_ptr) (\<lambda>p.
     bnd (defined Null_deref p) (\<lambda>m.
       defined Out_of_bounds (mem_read i n m)))"

definition buffer_memmove :: "nat \<Rightarrow> nat \<Rightarrow> nat \<Rightarrow> ('a buffer, unit) prog" where
  "buffer_memmove i j n =
     bnd (gets b_ptr) (\<lambda>p.
     bnd (defined Null_deref p) (\<lambda>m.
     bnd (defined Out_of_bounds (mem_move i j n m)) (\<lambda>m'.
       modify (\<lambda>b. b\<lparr>b_ptr := Some m'\<rparr>))))"

definition buffer_assign :: "'a cell list \<Rightarrow> ('a buffer, unit) prog" where
  "buffer_assign xs =
     (if length xs = 0 then ret ()
      else thn (cond (\<lambda>b. length xs > b_capacity b) (buffer_resize (length xs) False) (ret ()))
          (thn (buffer_store 0 xs)
               (modify (\<lambda>b. b\<lparr>b_used := length xs\<rparr>))))"

definition buffer_append :: "'a cell list \<Rightarrow> ('a buffer, unit) prog" where
  "buffer_append xs =
     (if length xs = 0 then ret ()
      else bnd (gets b_used) (\<lambda>used.
          thn (buffer_resize (sz_add used (length xs)) True)
          (bnd (gets b_used) (\<lambda>used'. buffer_store (sz_sub used' (length xs)) xs))))"

definition buffer_append_val :: "'a \<Rightarrow> ('a buffer, unit) prog" where
  "buffer_append_val x =
     bnd (gets b_used) (\<lambda>used.
     thn (buffer_resize (sz_add used 1) True)
         (bnd (gets b_used) (\<lambda>used'. buffer_store (sz_sub used' 1) [Some x])))"

text \<open>
  \<^verbatim>\<open>append(const Buffer&)\<close>: the argument's pointer is taken before the resize. When the
  argument is the buffer itself and the resize reallocates, that pointer is dangling.
\<close>

definition buffer_append_buffer :: "bool \<Rightarrow> 'a buffer \<Rightarrow> ('a buffer, unit) prog" where
  "buffer_append_buffer same buf =
     (if b_used buf = 0 then ret ()
      else if same
      then bnd (gets b_used) (\<lambda>used.
           bnd (gets b_capacity) (\<lambda>cap.
           thn (buffer_resize (sz_add used used) True)
               (if sz_add used used > cap then fail (Undef Use_after_free)
                else bnd (gets b_ptr) (\<lambda>p.
                     bnd (defined Null_deref p) (\<lambda>m.
                     bnd (defined Out_of_bounds (mem_read 0 used m)) (\<lambda>xs.
                       buffer_store (sz_sub (sz_add used used) used) xs))))))
      else bnd (defined Null_deref (b_ptr buf)) (\<lambda>m.
           bnd (defined Out_of_bounds (mem_read 0 (b_used buf) m)) (\<lambda>xs.
             buffer_append xs)))"

subsection \<open>Observers\<close>

definition buffer_capacity :: "'a buffer \<Rightarrow> nat" where
  "buffer_capacity b = b_capacity b"

definition buffer_size :: "'a buffer \<Rightarrow> nat" where
  "buffer_size b = b_used b"

definition buffer_empty :: "'a buffer \<Rightarrow> bool" where
  "buffer_empty b \<longleftrightarrow> 0 = b_used b"

text \<open>\<^verbatim>\<open>memset(_ptr, 0, _used)\<close>; on a null pointer it has nothing to set.\<close>

definition buffer_clear :: "'a \<Rightarrow> ('a buffer, unit) prog" where
  "buffer_clear zero =
     bnd (gets b_used) (\<lambda>used.
       if used = 0 then ret () else buffer_store 0 (replicate used (Some zero)))"

definition buffer_at :: "nat \<Rightarrow> ('a buffer, 'a cell) prog" where
  "buffer_at index =
     thn (assertion (\<lambda>b. index < b_used b))
     (bnd (gets b_ptr) (\<lambda>p.
      bnd (defined Null_deref p) (\<lambda>m.
        defined Out_of_bounds (if index < length m then Some (m ! index) else None))))"

text \<open>Positions are offsets into the array; \<open>width\<close> is \<^verbatim>\<open>sizeof(T)\<close>. The destructor.\<close>

definition buffer_begin :: "'a buffer \<Rightarrow> nat" where
  "buffer_begin b = 0"

definition buffer_end :: "'a buffer \<Rightarrow> nat" where
  "buffer_end b = b_used b"

definition capacity_bytes :: "nat \<Rightarrow> 'a buffer \<Rightarrow> nat" where
  "capacity_bytes width b = (b_capacity b * width) mod size_max"

definition size_bytes :: "nat \<Rightarrow> 'a buffer \<Rightarrow> nat" where
  "size_bytes width b = (b_used b * width) mod size_max"

definition buffer_destroy :: "('a buffer, unit) prog" where
  "buffer_destroy = cond (\<lambda>b. b_ownMem b \<and> b_ptr b \<noteq> None) (modify (\<lambda>b. b\<lparr>b_ptr := None\<rparr>)) (ret ())"

definition buffer_eq :: "bool \<Rightarrow> 'a buffer \<Rightarrow> 'a buffer \<Rightarrow> ('s, bool) prog" where
  "buffer_eq same this other =
     (if \<not> same
      then if b_used this = b_used other
           then (case (b_ptr this, b_ptr other) of
               (Some m, Some n) \<Rightarrow>
                 bnd (defined Out_of_bounds (mem_read 0 (b_used this) m)) (\<lambda>xs.
                 bnd (defined Out_of_bounds (mem_read 0 (b_used this) n)) (\<lambda>ys.
                 bnd (defined Uninit_read (mem_equal xs ys)) (\<lambda>e.
                   if e then ret True else ret (b_used this = 0))))
             | _ \<Rightarrow> ret (b_used this = 0))
           else ret False
      else ret True)"

text \<open>\<^verbatim>\<open>operator!=\<close> is \<open>return *this != other\<close>: it calls itself.\<close>

partial_function (option) buffer_ne :: "bool \<Rightarrow> 'a buffer \<Rightarrow> 'a buffer \<Rightarrow> bool option" where
  "buffer_ne same this other = buffer_ne same this other"

subsection \<open>Well-formed buffers\<close>

definition buffer_inv :: "'a buffer \<Rightarrow> bool" where
  "buffer_inv b \<longleftrightarrow> b_used b \<le> b_capacity b \<and> b_capacity b < array_max \<and>
     (case b_ptr b of None \<Rightarrow> b_capacity b = 0 | Some m \<Rightarrow> length m = b_capacity b)"

text \<open>The cells a reader of the buffer may look at: the array up to \<open>b_used\<close>.\<close>

definition contents :: "'a buffer \<Rightarrow> 'a cell list" where
  "contents b = (case b_ptr b of None \<Rightarrow> [] | Some m \<Rightarrow> take (b_used b) m)"

lemma contents_length [simp]: "buffer_inv b \<Longrightarrow> length (contents b) = b_used b"
  by (auto simp: buffer_inv_def contents_def split: option.splits)

lemma buffer_inv_nonempty:
  assumes "buffer_inv b" "b_capacity b \<noteq> 0"
  obtains m where "b_ptr b = Some m" "length m = b_capacity b"
  using assms by (auto simp: buffer_inv_def split: option.splits)

lemma buffer_inv_moved_from [simp]: "buffer_inv moved_from"
  by (simp add: buffer_inv_def moved_from_def array_max_def)

lemma buffer_inv_wrap [simp]: "length m < array_max \<Longrightarrow> buffer_inv (buffer_wrap m)"
  by (simp add: buffer_inv_def buffer_wrap_def)

lemma contents_wrap [simp]: "contents (buffer_wrap m) = m"
  by (simp add: contents_def buffer_wrap_def)

lemma buffer_new_inv: "buffer_new n s = (Ret b, t) \<Longrightarrow> buffer_inv b \<and> b_used b = n \<and> b_ownMem b"
  by (auto simp: buffer_new_def buffer_inv_def array_max_def prog_simps split: if_splits)

lemma buffer_copy_mem_spec:
  "length xs < array_max \<Longrightarrow> \<exists>b. buffer_copy_mem xs s = (Ret b, s) \<and> buffer_inv b \<and>
     contents b = xs \<and> b_used b = length xs \<and> b_ownMem b"
  by (auto simp: buffer_copy_mem_def buffer_inv_def contents_def array_max_def)

lemma buffer_copy_spec:
  assumes "buffer_inv b"
  shows "\<exists>c. buffer_copy b s = (Ret c, s) \<and> buffer_inv c \<and> contents c = contents b \<and>
     b_used c = b_used b \<and> b_capacity c = b_used b \<and> b_ownMem c"
proof (cases "b_used b = 0")
  case True
  with assms show ?thesis
    by (auto simp: buffer_copy_def buffer_inv_def contents_def split: option.splits)
next
  case False
  with assms obtain m where "b_ptr b = Some m" "length m = b_capacity b"
    by (auto simp: buffer_inv_def split: option.splits)
  with assms False show ?thesis
    by (auto simp: buffer_copy_def buffer_inv_def contents_def)
qed

subsection \<open>Resizing\<close>

text \<open>
  What \<open>buffer_resize\<close> does, branch by branch: the owner check, the assertion, the
  allocation, and the new contents. The cells that survive are those below the old
  \<open>b_used\<close>; growing beyond the capacity makes the rest fresh, staying within it uncovers
  the cells that were there.
\<close>

lemma buffer_resize_not_owner:
  "\<not> b_ownMem b \<Longrightarrow>
     buffer_resize n p b = (Fail (Thrown (Runtime_error not_owner_msg)), b)"
  by (simp add: buffer_resize_def)

lemma buffer_resize_zero: "b_ownMem b \<Longrightarrow> buffer_resize 0 p b = (Fail Abort, b)"
  by (simp add: buffer_resize_def thn_def bnd_def)

lemma buffer_resize_too_large:
  assumes "b_ownMem b" "buffer_inv b" "array_max \<le> n"
  shows "buffer_resize n p b = (Fail (Thrown Bad_array_length), b)"
proof -
  from assms have "b_capacity b < n" "0 < n" by (auto simp: buffer_inv_def)
  with assms(1,3) show ?thesis by (simp add: buffer_resize_def thn_def bnd_def)
qed

lemma buffer_resize_within:
  assumes "b_ownMem b" "0 < n" "n \<le> b_capacity b"
  shows "buffer_resize n p b = (Ret (), b\<lparr>b_used := n\<rparr>)"
  using assms by (simp add: buffer_resize_def thn_def bnd_def)

lemma buffer_resize_grow:
  assumes "b_ownMem b" "buffer_inv b" "b_capacity b < n" "n < array_max"
  shows "buffer_resize n p b = (Ret (), b\<lparr>b_capacity := n, b_used := n,
     b_ptr := Some ((if p then contents b else []) @
       replicate (n - (if p then length (contents b) else 0)) None)\<rparr>)"
proof (cases "b_ptr b")
  case None
  with assms show ?thesis
    by (simp add: buffer_resize_def thn_def bnd_def preserve_def contents_def)
next
  case (Some m)
  with assms have "length m = b_capacity b" "b_used b \<le> length m" "b_used b \<le> n"
    by (auto simp: buffer_inv_def)
  with assms Some show ?thesis
    by (simp add: buffer_resize_def thn_def bnd_def preserve_def contents_def)
qed

lemmas buffer_resize_cases =
  buffer_resize_not_owner buffer_resize_zero buffer_resize_too_large
  buffer_resize_within buffer_resize_grow

lemma buffer_resize_total:
  assumes "buffer_inv b"
  obtains (Fails) e where "buffer_resize n p b = (Fail e, b)" "\<not> is_undef (Fail e :: unit outcome)"
    | (Within) "b_ownMem b" "0 < n" "n \<le> b_capacity b" "buffer_resize n p b = (Ret (), b\<lparr>b_used := n\<rparr>)"
    | (Grown) m where "b_ownMem b" "b_capacity b < n" "n < array_max" "length m = n"
        "p \<Longrightarrow> take (b_used b) m = contents b"
        "buffer_resize n p b = (Ret (), b\<lparr>b_capacity := n, b_used := n, b_ptr := Some m\<rparr>)"
proof -
  consider "\<not> b_ownMem b" | "b_ownMem b" "n = 0" | "b_ownMem b" "array_max \<le> n"
    | "b_ownMem b" "0 < n" "n \<le> b_capacity b" | "b_ownMem b" "b_capacity b < n" "n < array_max"
    by linarith
  then show thesis
  proof cases
    case 1
    then show thesis using Fails buffer_resize_not_owner by fastforce
  next
    case 2
    then show thesis using Fails buffer_resize_zero by fastforce
  next
    case 3
    then show thesis using Fails buffer_resize_too_large [OF _ assms] by fastforce
  next
    case 4
    then show thesis using Within buffer_resize_within by blast
  next
    case 5
    let ?m = "(if p then contents b else []) @ replicate (n - (if p then length (contents b) else 0)) None"
    have "length (contents b) \<le> n" using assms 5 by (simp add: buffer_inv_def)
    then have "length ?m = n" by simp
    moreover have "p \<Longrightarrow> take (b_used b) ?m = contents b" using assms by simp
    ultimately show thesis using Grown [OF 5, of ?m] buffer_resize_grow [OF 5(1) assms 5(2,3)] by auto
  qed
qed

subsection \<open>The other operations\<close>

lemma buffer_store_spec:
  assumes "buffer_inv b" "i + length xs \<le> b_capacity b" "xs \<noteq> []"
  obtains m where "b_ptr b = Some m" "length m = b_capacity b"
    "buffer_store i xs b = (Ret (), b\<lparr>b_ptr := Some (take i m @ xs @ drop (i + length xs) m)\<rparr>)"
proof -
  from assms have "b_capacity b \<noteq> 0" by (cases xs) auto
  with assms(1) obtain m where "b_ptr b = Some m" "length m = b_capacity b"
    by (rule buffer_inv_nonempty)
  with assms that show thesis by (simp add: buffer_store_def)
qed

lemma buffer_inv_set_used: "buffer_inv b \<Longrightarrow> n \<le> b_capacity b \<Longrightarrow> buffer_inv (b\<lparr>b_used := n\<rparr>)"
  by (auto simp: buffer_inv_def split: option.splits)

lemma buffer_inv_set_ptr:
  "buffer_inv b \<Longrightarrow> length m = b_capacity b \<Longrightarrow> buffer_inv (b\<lparr>b_ptr := Some m\<rparr>)"
  by (simp add: buffer_inv_def)

lemma buffer_inv_set_all:
  "length m = n \<Longrightarrow> k \<le> n \<Longrightarrow> n < array_max \<Longrightarrow>
     buffer_inv (b\<lparr>b_capacity := n, b_used := k, b_ptr := Some m\<rparr>)"
  by (simp add: buffer_inv_def)

lemma buffer_resize_inv:
  assumes "buffer_inv b" "buffer_resize n p b = (r, b')"
  shows "buffer_inv b' \<and> \<not> is_undef r"
  using assms
  by (cases rule: buffer_resize_total [OF assms(1), of n p])
     (auto simp: buffer_inv_set_used buffer_inv_set_all)

text \<open>\<open>append\<close>: the data go behind the old contents, or nothing changes.\<close>

lemma buffer_append_spec:
  assumes inv: "buffer_inv b" and xs: "length xs < array_max" "xs \<noteq> []" and own: "b_ownMem b"
    and room: "b_used b + length xs < array_max"
  shows "\<exists>b'. buffer_append xs b = (Ret (), b') \<and> buffer_inv b' \<and> contents b' = contents b @ xs \<and>
     b_capacity b' = max (b_capacity b) (b_used b + length xs) \<and> b_ownMem b'"
proof -
  let ?n = "b_used b + length xs"
  have add: "sz_add (b_used b) (length xs) = ?n" "0 < ?n"
    using room xs(2) array_max_less_size_max by auto
  have sub: "sz_sub ?n (length xs) = b_used b"
    using room array_max_less_size_max by simp
  have u: "b_used b \<le> b_capacity b" using inv by (simp add: buffer_inv_def)
  show ?thesis
  proof (cases "?n \<le> b_capacity b")
    case True
    let ?b = "b\<lparr>b_used := ?n\<rparr>"
    from inv True have inv': "buffer_inv ?b" by (rule buffer_inv_set_used)
    from True xs(2) have "b_capacity b \<noteq> 0" by (cases xs) auto
    with inv obtain m where m: "b_ptr b = Some m" "length m = b_capacity b"
      by (rule buffer_inv_nonempty)
    have "buffer_append xs b =
        (Ret (), ?b\<lparr>b_ptr := Some (take (b_used b) m @ xs @ drop ?n m)\<rparr>)"
      using m True xs(2) add sub own
      by (simp add: buffer_append_def bnd_def thn_def buffer_resize_within buffer_store_def)
    moreover have "buffer_inv (?b\<lparr>b_ptr := Some (take (b_used b) m @ xs @ drop ?n m)\<rparr>)"
      using inv' m True u by (intro buffer_inv_set_ptr) auto
    ultimately show ?thesis using m u True own by (simp add: contents_def)
  next
    case False
    let ?m = "contents b @ replicate (?n - length (contents b)) None"
    let ?b = "b\<lparr>b_capacity := ?n, b_used := ?n, b_ptr := Some ?m\<rparr>"
    have len: "length (contents b) = b_used b" using inv by simp
    have "buffer_append xs b =
        (Ret (), ?b\<lparr>b_ptr := Some (contents b @ xs)\<rparr>)"
      using False xs(2) add sub own room inv len
      by (simp add: buffer_append_def bnd_def thn_def buffer_resize_grow buffer_store_def)
    moreover have "buffer_inv (?b\<lparr>b_ptr := Some (contents b @ xs)\<rparr>)"
      using len room by (simp add: buffer_inv_def)
    ultimately show ?thesis using False len own by (simp add: contents_def)
  qed
qed

lemma buffer_append_inv:
  assumes inv: "buffer_inv b" and xs: "length xs < array_max" and run: "buffer_append xs b = (r, b')"
  shows "buffer_inv b' \<and> \<not> is_undef r"
proof (cases "xs = [] \<or> \<not> b_ownMem b")
  case True
  with inv run show ?thesis
    by (auto simp: buffer_append_def bnd_def thn_def buffer_resize_not_owner split: if_splits)
next
  case False
  show ?thesis
  proof (cases "b_used b + length xs < array_max")
    case True
    with False inv xs run show ?thesis using buffer_append_spec [of b xs] by auto
  next
    case Big: False
    have "b_used b < array_max" using inv by (simp add: buffer_inv_def)
    then have "sz_add (b_used b) (length xs) = b_used b + length xs"
      using xs by (rule sz_add_arrays)
    with False Big inv run show ?thesis
      by (auto simp: buffer_append_def bnd_def thn_def buffer_resize_too_large)
  qed
qed

lemma buffer_append_val_eq:
  assumes "buffer_inv b"
  shows "buffer_append_val x b = buffer_append [Some x] b"
  by (simp add: buffer_append_val_def buffer_append_def bnd_def thn_def)

lemma buffer_assign_inv:
  assumes inv: "buffer_inv b" and run: "buffer_assign xs b = (r, b')"
  shows "buffer_inv b' \<and> \<not> is_undef r"
proof (cases "length xs = 0")
  case True
  with inv run show ?thesis by (auto simp: buffer_assign_def)
next
  case False
  let ?grow = "cond (\<lambda>b. length xs > b_capacity b) (buffer_resize (length xs) False) (ret ())"
  obtain r1 b1 where g: "?grow b = (r1, b1)" by (cases "?grow b")
  have b1: "buffer_inv b1 \<and> \<not> is_undef r1"
    using g inv buffer_resize_inv [of b "length xs" False r1 b1] by (auto split: if_splits)
  show ?thesis
  proof (cases r1)
    case (Fail e)
    with g run False b1 show ?thesis by (auto simp: buffer_assign_def)
  next
    case (Ret x)
    have cap: "length xs \<le> b_capacity b1"
      by (rule buffer_resize_total [OF inv, of "length xs" False])
        (use g Ret in \<open>auto split: if_splits\<close>)
    with b1 False obtain m where m: "length m = b_capacity b1"
      "buffer_store 0 xs b1 = (Ret (), b1\<lparr>b_ptr := Some (xs @ drop (length xs) m)\<rparr>)"
      by (auto elim!: buffer_store_spec [of b1 0 xs])
    have "b' = b1\<lparr>b_ptr := Some (xs @ drop (length xs) m), b_used := length xs\<rparr> \<and> r = Ret ()"
      using run False g Ret m(2) by (simp add: buffer_assign_def thn_def bnd_def)
    moreover have "buffer_inv (b1\<lparr>b_ptr := Some (xs @ drop (length xs) m), b_used := length xs\<rparr>)"
      using b1 cap m(1) by (intro buffer_inv_set_used buffer_inv_set_ptr) auto
    ultimately show ?thesis by simp
  qed
qed

text \<open>\<open>setCapacity\<close>: the contents are cut at the new capacity, or lost when not preserved.\<close>

lemma buffer_set_capacity_spec:
  assumes inv: "buffer_inv b" and own: "b_ownMem b" and n: "n < array_max" "n \<noteq> b_capacity b"
  shows "\<exists>b'. buffer_set_capacity n p b = (Ret (), b') \<and> buffer_inv b' \<and> b_capacity b' = n \<and>
     b_used b' = min n (b_used b) \<and> b_ownMem b' \<and> (p \<longrightarrow> contents b' = take n (contents b))"
proof (cases "n = 0")
  case True
  with assms show ?thesis
    by (auto simp: buffer_set_capacity_def bnd_def buffer_inv_def contents_def)
next
  case False
  let ?k = "min n (b_used b)"
  have k: "?k \<le> n" "?k \<le> b_used b" by auto
  have eq: "(if b_used b < n then b_used b else n) = ?k"
    "(if n < b_used b then n else b_used b) = ?k" by auto
  show ?thesis
  proof (cases "b_ptr b")
    case None
    with inv have "b_used b = 0" by (simp add: buffer_inv_def)
    with None False assms show ?thesis
      by (auto simp: buffer_set_capacity_def bnd_def preserve_def buffer_inv_def contents_def)
  next
    case (Some m)
    with inv have m: "length m = b_capacity b" "b_used b \<le> length m"
      by (auto simp: buffer_inv_def)
    let ?m = "(if p then take ?k m else []) @ replicate (n - (if p then ?k else 0)) None"
    have "buffer_set_capacity n p b =
        (Ret (), b\<lparr>b_ptr := Some ?m, b_capacity := n, b_used := ?k\<rparr>)"
      using False own n Some m k
      by (simp add: buffer_set_capacity_def bnd_def preserve_def eq)
    moreover have "length ?m = n" using m k by simp
    ultimately show ?thesis using Some m k n(1) own
      by (auto simp: buffer_inv_def contents_def min_def)
  qed
qed

lemma buffer_set_capacity_inv:
  assumes inv: "buffer_inv b" and run: "buffer_set_capacity n p b = (r, b')"
  shows "buffer_inv b' \<and> \<not> is_undef r"
proof (cases "b_ownMem b \<and> n < array_max \<and> n \<noteq> b_capacity b")
  case True
  with assms buffer_set_capacity_spec [of b n p] show ?thesis by auto
next
  case False
  have "b_capacity b < array_max" using inv by (simp add: buffer_inv_def)
  with assms False show ?thesis
    by (auto simp: buffer_set_capacity_def bnd_def array_max_def split: if_splits)
qed

lemma buffer_clear_inv:
  assumes inv: "buffer_inv b" and run: "buffer_clear z b = (r, b')"
  shows "buffer_inv b' \<and> \<not> is_undef r"
proof (cases "b_used b = 0")
  case True
  with assms show ?thesis by (auto simp: buffer_clear_def bnd_def)
next
  case False
  let ?xs = "replicate (b_used b) (Some z)"
  have "b_used b \<le> b_capacity b" using inv by (simp add: buffer_inv_def)
  with False inv obtain m where m: "length m = b_capacity b"
    "buffer_store 0 ?xs b = (Ret (), b\<lparr>b_ptr := Some (?xs @ drop (b_used b) m)\<rparr>)"
    by (auto elim!: buffer_store_spec [of b 0 ?xs])
  with False inv run \<open>b_used b \<le> b_capacity b\<close> show ?thesis
    by (auto simp: buffer_clear_def bnd_def intro!: buffer_inv_set_ptr)
qed

lemma buffer_at_spec:
  assumes "buffer_inv b"
  shows "buffer_at i b = (if i < b_used b then (Ret (contents b ! i), b) else (Fail Abort, b))"
  using assms
  by (auto simp: buffer_at_def thn_def bnd_def buffer_inv_def contents_def split: option.splits)

lemma buffer_copy_assign_spec:
  assumes "buffer_inv src"
  shows "\<exists>b'. buffer_copy_assign False src b = (Ret (), b') \<and> buffer_inv b' \<and>
     contents b' = contents src \<and> b_capacity b' = b_used src \<and> b_ownMem b'"
proof -
  obtain c where c: "buffer_copy src b = (Ret c, b)" "buffer_inv c" "contents c = contents src"
    "b_capacity c = b_used src" "b_ownMem c"
    using buffer_copy_spec [OF assms, of b] by auto
  have "fst (buffer_swap b c) = c" by (simp add: buffer_swap_def)
  with c show ?thesis by (simp add: buffer_copy_assign_def)
qed

lemma buffer_read_prefix:
  assumes "buffer_inv b" "b_used b \<noteq> 0"
  obtains m where "b_ptr b = Some m" "mem_read 0 (b_used b) m = Some (contents b)"
proof -
  from assms have "b_capacity b \<noteq> 0" "b_used b \<le> b_capacity b" by (auto simp: buffer_inv_def)
  with assms(1) obtain m where "b_ptr b = Some m" "length m = b_capacity b"
    by (auto elim: buffer_inv_nonempty)
  with that \<open>b_used b \<le> b_capacity b\<close> show thesis by (simp add: contents_def)
qed

lemma buffer_append_other:
  assumes "buffer_inv src"
  shows "buffer_append_buffer False src b = buffer_append (contents src) b"
proof (cases "b_used src = 0")
  case True
  with contents_length [OF assms] have "contents src = []" by simp
  with True show ?thesis by (simp add: buffer_append_buffer_def buffer_append_def)
next
  case False
  with assms obtain m where "b_ptr src = Some m" "mem_read 0 (b_used src) m = Some (contents src)"
    by (rule buffer_read_prefix)
  with False show ?thesis by (simp add: buffer_append_buffer_def bnd_def)
qed

text \<open>Appending a buffer to itself works exactly as long as nothing has to be reallocated.\<close>

lemma append_self_doubles:
  assumes "buffer_inv b"
  shows "sz_add (b_used b) (b_used b) = 2 * b_used b"
proof -
  have "b_used b < array_max" using assms by (auto simp: buffer_inv_def)
  then show ?thesis using sz_add_arrays [of "b_used b" "b_used b"] by simp
qed

text \<open>\<open>append(*this)\<close> on every branch.\<close>

definition append_self_dangles :: "'a buffer \<Rightarrow> bool" where
  "append_self_dangles b \<longleftrightarrow> b_used b \<noteq> 0 \<and> b_ownMem b \<and> b_capacity b < 2 * b_used b \<and> 2 * b_used b < array_max"

lemma append_self_cases:
  assumes inv: "buffer_inv b"
  obtains (Nothing) "b_used b = 0" "buffer_append_buffer True b b = (Ret (), b)"
    | (Borrowed) "b_used b \<noteq> 0" "\<not> b_ownMem b"
        "buffer_append_buffer True b b = (Fail (Thrown (Runtime_error not_owner_msg)), b)"
    | (Too_large) "b_used b \<noteq> 0" "b_ownMem b" "array_max \<le> 2 * b_used b"
        "buffer_append_buffer True b b = (Fail (Thrown Bad_array_length), b)"
    | (Doubled) t where "b_used b \<noteq> 0" "b_ownMem b" "2 * b_used b \<le> b_capacity b" "2 * b_used b < array_max"
        "buffer_append_buffer True b b = (Ret (), t)" "contents t = contents b @ contents b" "b_capacity t = b_capacity b"
        "b_ownMem t" "buffer_inv t"
    | (Dangling) t where "append_self_dangles b" "buffer_resize (2 * b_used b) True b = (Ret (), t)"
        "buffer_append_buffer True b b = (Fail (Undef Use_after_free), t)" "buffer_inv t"
proof -
  note add = append_self_doubles [OF inv]
  have cap: "b_capacity b < array_max" using inv by (simp add: buffer_inv_def)
  consider "b_used b = 0" | "b_used b \<noteq> 0" "\<not> b_ownMem b" | "b_used b \<noteq> 0" "b_ownMem b" "array_max \<le> 2 * b_used b"
    | "b_used b \<noteq> 0" "b_ownMem b" "2 * b_used b \<le> b_capacity b" | "append_self_dangles b"
    by (auto simp: append_self_dangles_def) linarith
  then show thesis
  proof cases
    case 1
    then show thesis by (intro Nothing) (simp_all add: buffer_append_buffer_def)
  next
    case 2
    then show thesis by (intro Borrowed) (simp_all add: buffer_append_buffer_def bnd_def thn_def buffer_resize_not_owner)
  next
    case 3
    then show thesis
      using add by (intro Too_large) (simp_all add: buffer_append_buffer_def bnd_def thn_def buffer_resize_too_large [OF 3(2) inv])
  next
    case 4
    from inv 4(1) obtain m where m: "b_ptr b = Some m" "mem_read 0 (b_used b) m = Some (contents b)"
      by (rule buffer_read_prefix)
    have lm: "length m = b_capacity b" using inv m by (simp add: buffer_inv_def)
    have sub: "sz_sub (2 * b_used b) (b_used b) = b_used b" using 4 cap array_max_less_size_max by simp
    let ?b = "b\<lparr>b_used := 2 * b_used b\<rparr>"
    let ?m = "take (b_used b) m @ contents b @ drop (2 * b_used b) m"
    let ?t = "?b\<lparr>b_ptr := Some ?m\<rparr>"
    have "buffer_append_buffer True b b = (Ret (), ?t)"
      using 4 m lm add sub inv
      by (simp add: buffer_append_buffer_def bnd_def thn_def buffer_resize_within buffer_store_def mult_2)
    moreover have "buffer_inv ?t" using inv 4 lm by (intro buffer_inv_set_ptr buffer_inv_set_used) auto
    moreover have "contents ?t = contents b @ contents b" using 4 m lm inv by (simp add: contents_def mult_2)
    ultimately show thesis using 4 cap by (intro Doubled [of ?t]) simp_all
  next
    case 5
    obtain t where t: "buffer_resize (2 * b_used b) True b = (Ret (), t)"
      using buffer_resize_grow [of b "2 * b_used b" True] 5 inv by (auto simp: append_self_dangles_def)
    have "buffer_inv t" using buffer_resize_inv [OF inv t] by simp
    moreover have "buffer_append_buffer True b b = (Fail (Undef Use_after_free), t)"
      using t 5 add by (simp add: buffer_append_buffer_def bnd_def thn_def append_self_dangles_def)
    ultimately show thesis using t 5 by (intro Dangling) simp_all
  qed
qed

lemma buffer_swap_fst: "fst (buffer_swap this other) = other"
  by (simp add: buffer_swap_def)

lemma buffer_move_assign_fst: "fst (buffer_move_assign same this other) =
    (if same then other\<lparr>b_capacity := 0, b_used := 0, b_ownMem := False, b_ptr := None\<rparr> else other)"
  by (simp add: buffer_move_assign_def Let_def)

subsection \<open>The operations as a datatype, and the properties\<close>

datatype 'a buffer_op =
    Buf_resize nat bool
  | Buf_set_capacity nat bool
  | Buf_assign "'a cell list"
  | Buf_append "'a cell list"
  | Buf_append_val 'a
  | Buf_append_buffer "'a buffer"
  | Buf_clear 'a
  | Buf_copy_assign bool "'a buffer"
  | Buf_at nat
  | Buf_append_self
  | Buf_swap "'a buffer"
  | Buf_move_assign bool "'a buffer"

fun buffer_exec :: "'a buffer_op \<Rightarrow> ('a buffer, unit) prog" where
  "buffer_exec (Buf_resize n p) = buffer_resize n p"
| "buffer_exec (Buf_set_capacity n p) = buffer_set_capacity n p"
| "buffer_exec (Buf_assign xs) = buffer_assign xs"
| "buffer_exec (Buf_append xs) = buffer_append xs"
| "buffer_exec (Buf_append_val x) = buffer_append_val x"
| "buffer_exec (Buf_append_buffer src) = buffer_append_buffer False src"
| "buffer_exec (Buf_clear z) = buffer_clear z"
| "buffer_exec (Buf_copy_assign same src) = buffer_copy_assign same src"
| "buffer_exec (Buf_at i) = bnd (buffer_at i) (\<lambda>_. ret ())"
| "buffer_exec Buf_append_self = (\<lambda>b. buffer_append_buffer True b b)"
| "buffer_exec (Buf_swap other) = modify (\<lambda>this. fst (buffer_swap this other))"
| "buffer_exec (Buf_move_assign same other) = modify (\<lambda>this. fst (buffer_move_assign same this other))"

text \<open>The arguments a caller can really pass: arrays no longer than an object may be, and
  well-formed other buffers. An array passed to \<open>assign\<close> or \<open>append\<close> is not part of the buffer itself; \<open>append(*this)\<close> is
  the operation \<open>Buf_append_self\<close>.\<close>

fun buffer_op_ok :: "'a buffer_op \<Rightarrow> bool" where
  "buffer_op_ok (Buf_assign xs) = (length xs < array_max)"
| "buffer_op_ok (Buf_append xs) = (length xs < array_max)"
| "buffer_op_ok (Buf_append_buffer src) = buffer_inv src"
| "buffer_op_ok (Buf_copy_assign same src) = buffer_inv src"
| "buffer_op_ok (Buf_swap other) = buffer_inv other"
| "buffer_op_ok (Buf_move_assign same other) = buffer_inv other"
| "buffer_op_ok _ = True"

lemma buffer_exec_inv:
  assumes inv: "buffer_inv b" and ok: "buffer_op_ok op" and run: "buffer_exec op b = (r, b')"
  shows "buffer_inv b' \<and> (is_undef r \<longleftrightarrow> op = Buf_append_self \<and> append_self_dangles b)"
proof (cases op)
  case (Buf_resize n p)
  with run show ?thesis using buffer_resize_inv [OF inv] by simp
next
  case (Buf_set_capacity n p)
  with run show ?thesis using buffer_set_capacity_inv [OF inv] by simp
next
  case (Buf_assign xs)
  with run show ?thesis using buffer_assign_inv [OF inv] by simp
next
  case (Buf_append xs)
  with run ok show ?thesis using buffer_append_inv [OF inv] by simp
next
  case (Buf_append_val x)
  with run show ?thesis using buffer_append_inv [OF inv, of "[Some x]"]
    by (simp add: buffer_append_val_eq [OF inv] array_max_def)
next
  case (Buf_append_buffer src)
  with ok have src: "buffer_inv src" "length (contents src) < array_max"
    by (auto simp: buffer_inv_def contents_def split: option.splits)
  with Buf_append_buffer run show ?thesis using buffer_append_inv [OF inv src(2)]
    by (simp add: buffer_append_other)
next
  case (Buf_clear z)
  with run show ?thesis using buffer_clear_inv [OF inv] by simp
next
  case (Buf_copy_assign same src)
  with run ok inv show ?thesis using buffer_copy_assign_spec [of src b]
    by (cases same) (auto simp: buffer_copy_assign_def)
next
  case (Buf_at i)
  with run inv show ?thesis by (auto simp: bnd_def buffer_at_spec split: if_splits)
next
  case Buf_append_self
  with run inv show ?thesis
    by (cases rule: append_self_cases [OF inv]) (auto simp: append_self_dangles_def)
next
  case (Buf_swap other)
  with run ok show ?thesis by (auto simp: buffer_swap_fst)
next
  case (Buf_move_assign same other)
  with run ok show ?thesis by (auto simp: buffer_move_assign_fst buffer_inv_def array_max_def)
qed

fun buffer_run :: "'a buffer_op list \<Rightarrow> 'a buffer \<Rightarrow> 'a buffer" where
  "buffer_run [] b = b"
| "buffer_run (op # ops) b = buffer_run ops (snd (buffer_exec op b))"

lemma buffer_run_inv:
  "buffer_inv b \<Longrightarrow> list_all buffer_op_ok ops \<Longrightarrow> buffer_inv (buffer_run ops b)"
proof (induction ops arbitrary: b)
  case Nil
  then show ?case by simp
next
  case (Cons op ops)
  then show ?case using buffer_exec_inv [of b op] by (cases "buffer_exec op b") auto
qed

text \<open>C15. Whatever sequence of resizes, capacity changes, assignments, appends, clears, copy and move
  assignments, swaps and element reads is applied to a well-formed buffer, succeeding or throwing, the
  buffer stays well formed (size within capacity, capacity equal to the length of the array,
  no array for capacity 0), and the next operation performs no access outside of the array and no null
  dereference, with one exception: \<open>append(*this)\<close> on a buffer that has to grow for it
  reads the array it has just freed. The arrays passed are not the buffer's own.\<close>

theorem buffer_ops_safe:
  assumes "buffer_inv b" and "list_all buffer_op_ok ops" and "buffer_op_ok op"
  shows "buffer_inv (buffer_run ops b) \<and>
    (is_undef (fst (buffer_exec op (buffer_run ops b))) \<longleftrightarrow>
       op = Buf_append_self \<and> append_self_dangles (buffer_run ops b))"
proof -
  have "buffer_inv (buffer_run ops b)" using assms(1,2) by (rule buffer_run_inv)
  then show ?thesis using buffer_exec_inv [OF _ assms(3)]
    by (cases "buffer_exec op (buffer_run ops b)") auto
qed

definition sample_buffer :: "nat buffer" where
  "sample_buffer = \<lparr>b_capacity = 3, b_used = 2, b_ptr = Some [Some 7, Some 8, None], b_ownMem = True\<rparr>"

lemma sample_buffer_inv: "buffer_inv sample_buffer"
  by (simp add: sample_buffer_def buffer_inv_def array_max_def)

theorem buffer_ops_safe_witness:
  "\<not> is_undef (fst (buffer_exec (Buf_at 0) (buffer_run [Buf_append [Some 9, None], Buf_set_capacity 1 True] sample_buffer))) \<and>
   is_undef (fst (buffer_exec Buf_append_self (buffer_run [Buf_swap sample_buffer, Buf_append_val 4] sample_buffer)))"
proof -
  have "append_self_dangles (buffer_run [Buf_swap sample_buffer, Buf_append_val 4] sample_buffer)"
    by (simp add: append_self_dangles_def sample_buffer_def buffer_swap_def buffer_append_val_def buffer_resize_def
        buffer_store_def prog_simps sz_add_def sz_sub_def size_max_def array_max_def)
  then show ?thesis
    using buffer_ops_safe [OF sample_buffer_inv, of "[Buf_append [Some 9, None], Buf_set_capacity 1 True]" "Buf_at 0"]
      buffer_ops_safe [OF sample_buffer_inv, of "[Buf_swap sample_buffer, Buf_append_val 4]" Buf_append_self]
    by (simp add: array_max_def sample_buffer_inv)
qed

text \<open>\<open>append(buf, sz)\<close>, on every branch: no data is a no-op; a buffer that does not own
  its storage throws and keeps its state; more than the largest array throws and keeps its
  state; otherwise the contents become the old contents followed by the new data, and the
  capacity grows exactly as far as needed.\<close>

theorem buffer_append_correct:
  assumes inv: "buffer_inv b" and xs: "length xs < array_max"
  shows "if xs = [] then buffer_append xs b = (Ret (), b)
    else if \<not> b_ownMem b then buffer_append xs b = (Fail (Thrown (Runtime_error not_owner_msg)), b)
    else if array_max \<le> b_used b + length xs then buffer_append xs b = (Fail (Thrown Bad_array_length), b)
    else \<exists>b'. buffer_append xs b = (Ret (), b') \<and> contents b' = contents b @ xs \<and>
      b_capacity b' = max (b_capacity b) (b_used b + length xs)"
proof -
  have "b_used b < array_max" using inv by (simp add: buffer_inv_def)
  then have add: "sz_add (b_used b) (length xs) = b_used b + length xs"
    using xs by (rule sz_add_arrays)
  show ?thesis
  proof (cases "xs \<noteq> [] \<and> b_ownMem b \<and> b_used b + length xs < array_max")
    case True
    then show ?thesis using buffer_append_spec [OF inv xs] by auto
  next
    case False
    then show ?thesis using inv add
      by (auto simp: buffer_append_def bnd_def thn_def buffer_resize_not_owner buffer_resize_too_large)
  qed
qed

theorem buffer_append_correct_witness:
  "\<exists>b'. buffer_append [Some 9, Some 1] sample_buffer = (Ret (), b') \<and>
     contents b' = [Some 7, Some 8, Some 9, Some 1] \<and> b_capacity b' = 4"
  using buffer_append_correct [OF sample_buffer_inv, of "[Some 9, Some 1]"]
  by (simp add: sample_buffer_def array_max_def contents_def)

text \<open>C16. Comparing two well-formed buffers whose data have been written decides equality of
  their contents: same size and same bytes, whatever the capacities and owners.\<close>

theorem buffer_eq_correct:
  assumes "buffer_inv a" "buffer_inv b" "None \<notin> set (contents a)" "None \<notin> set (contents b)"
  shows "buffer_eq False a b s = (Ret (contents a = contents b), s)"
proof (cases "b_used a = b_used b")
  case False
  then have "contents a \<noteq> contents b"
    using contents_length [OF assms(1)] contents_length [OF assms(2)] by auto
  with False show ?thesis by (simp add: buffer_eq_def)
next
  case True
  show ?thesis
  proof (cases "b_used a = 0")
    case zero: True
    with True assms have "contents a = []" "contents b = []"
      by (simp_all flip: length_0_conv)
    with zero True show ?thesis
      by (auto simp: buffer_eq_def bnd_def mem_equal_def split: option.splits)
  next
    case False
    with True assms obtain m n where
      "b_ptr a = Some m" "mem_read 0 (b_used a) m = Some (contents a)"
      "b_ptr b = Some n" "mem_read 0 (b_used b) n = Some (contents b)"
      by (metis buffer_read_prefix)
    with True False assms(3,4) show ?thesis by (simp add: buffer_eq_def bnd_def mem_equal_def)
  qed
qed

theorem buffer_eq_correct_witness:
  "buffer_eq False (sample_buffer\<lparr>b_capacity := 2, b_ptr := Some [Some 7, Some 8]\<rparr>) sample_buffer ()
     = (Ret True, ())"
  using buffer_eq_correct [of "sample_buffer\<lparr>b_capacity := 2, b_ptr := Some [Some 7, Some 8]\<rparr>" sample_buffer "()"]
  by (simp add: sample_buffer_def buffer_inv_def contents_def array_max_def)

text \<open>\<open>operator!=\<close> returns \<open>*this != other\<close>, a call of itself: it returns for no
  pair of buffers.\<close>

theorem buffer_ne_never_returns: "buffer_ne same this other = None"
proof (cases "buffer_ne same this other")
  case None
  then show ?thesis .
next
  case (Some r)
  have False
    by (rule buffer_ne.raw_induct [where P = "\<lambda>_ _ _ _. False", OF _ Some]) blast
  then show ?thesis ..
qed

end
