(* ===== verification/Data_Refinement.thy ===== *)
theory Data_Refinement
  imports Prelude
begin

section \<open>Refinement of a reference by an implementation\<close>

text \<open>
  An object is used through a sequence of calls. A reference for it has simpler states and one step
  for each call. Where the implementation leaves something open (the cells of a fresh array), a step has a further
  argument, the choice that the implementation makes.
\<close>

fun run_calls :: "('op \<Rightarrow> ('s, 'r) prog) \<Rightarrow> 'op list \<Rightarrow> 's \<Rightarrow> 'r outcome list \<times> 's" where
  "run_calls call [] s = ([], s)"
| "run_calls call (op # ops) s = (case call op s of (r, t) \<Rightarrow>
     (case run_calls call ops t of (rs, u) \<Rightarrow> (r # rs, u)))"

fun run_steps :: "('c \<Rightarrow> 'op \<Rightarrow> 'a \<Rightarrow> 'r outcome \<times> 'a) \<Rightarrow> ('c \<times> 'op) list \<Rightarrow> 'a \<Rightarrow> 'r outcome list \<times> 'a" where
  "run_steps step [] a = ([], a)"
| "run_steps step ((c, op) # ops) a = (case step c op a of (r, b) \<Rightarrow>
     (case run_steps step ops b of (rs, d) \<Rightarrow> (r # rs, d)))"

text \<open>Every call of the sequence is allowed in the state in which it is made.\<close>

fun calls_allowed :: "('op \<Rightarrow> ('s, 'r) prog) \<Rightarrow> ('op \<Rightarrow> 's \<Rightarrow> bool) \<Rightarrow> 'op list \<Rightarrow> 's \<Rightarrow> bool" where
  "calls_allowed call ok [] s \<longleftrightarrow> True"
| "calls_allowed call ok (op # ops) s \<longleftrightarrow> ok op s \<and> calls_allowed call ok ops (snd (call op s))"

locale data_refinement =
  fixes call :: "'op \<Rightarrow> ('s, 'r) prog"
    and step :: "'c \<Rightarrow> 'op \<Rightarrow> 'a \<Rightarrow> 'r outcome \<times> 'a"
    and view :: "'s \<Rightarrow> 'a"
    and invar :: "'s \<Rightarrow> bool"
    and ok :: "'op \<Rightarrow> 's \<Rightarrow> bool"
  assumes simulates: "invar s \<Longrightarrow> ok op s \<Longrightarrow> call op s = (r, t) \<Longrightarrow> invar t \<and> (\<exists>c. step c op (view s) = (r, view t))"
begin

lemma run_refines:
  assumes "invar s" "calls_allowed call ok ops s" "run_calls call ops s = (rs, t)"
  shows "invar t \<and> (\<exists>steps. map snd steps = ops \<and> run_steps step steps (view s) = (rs, view t))"
  using assms
proof (induction ops arbitrary: s rs)
  case Nil
  then show ?case by simp
next
  case (Cons op ops)
  obtain r u where r: "call op s = (r, u)" by (rule prod.exhaust)
  obtain rs' where rs': "run_calls call ops u = (rs', t)" "rs = r # rs'"
    using Cons.prems(3) r by (auto split: prod.splits)
  obtain c where c: "invar u" "step c op (view s) = (r, view u)"
    using simulates [OF Cons.prems(1) _ r] Cons.prems(2) by auto
  obtain steps where "invar t" "map snd steps = ops" "run_steps step steps (view u) = (rs', view t)"
    using Cons.IH [OF c(1) _ rs'(1)] Cons.prems(2) r by auto
  then show ?case using c(2) rs'(2) by (auto intro!: exI [of _ "(c, op) # steps"])
qed

end

end
