(* ===== verification/Buffer_List.thy ===== *)
theory Buffer_List
  imports Buffer Data_Refinement
begin

section \<open>Buffer as a list\<close>

text \<open>
  The reference for \<^verbatim>\<open>class Buffer<T>\<close> (theory \<open>Buffer\<close>): a list of cells, a
  capacity, and whether the storage is owned. Array, copying and reallocation are gone. What a reader sees when a buffer
  becomes longer, or when the contents are not preserved, is not specified: it is the choice \<open>new\<close> of a step.
\<close>

record 'a blist =
  bl_items :: "'a cell list"
  bl_room :: nat
  bl_owner :: bool

definition buffer_view :: "'a buffer \<Rightarrow> 'a blist" where
  "buffer_view b = \<lparr>bl_items = contents b, bl_room = b_capacity b, bl_owner = b_ownMem b\<rparr>"

definition refill :: "(nat \<Rightarrow> 'a) \<Rightarrow> nat \<Rightarrow> 'a list \<Rightarrow> 'a list" where
  "refill new n xs = take n xs @ map new [length xs..<n]"

definition blist_not_owner :: "'a blist \<Rightarrow> 'a cell list outcome \<times> 'a blist" where
  "blist_not_owner l = (Fail (Thrown (Runtime_error not_owner_msg)), l)"

definition blist_resize :: "(nat \<Rightarrow> 'a cell) \<Rightarrow> nat \<Rightarrow> bool \<Rightarrow> 'a blist \<Rightarrow> 'a cell list outcome \<times> 'a blist" where
  "blist_resize new n p l =
     (if \<not> bl_owner l then blist_not_owner l
      else if n = 0 then (Fail Abort, l)
      else if array_max \<le> n then (Fail (Thrown Bad_array_length), l)
      else (Ret [], l\<lparr>bl_items := refill new n (if p then bl_items l else []), bl_room := max n (bl_room l)\<rparr>))"

definition blist_set_capacity :: "(nat \<Rightarrow> 'a cell) \<Rightarrow> nat \<Rightarrow> bool \<Rightarrow> 'a blist \<Rightarrow> 'a cell list outcome \<times> 'a blist" where
  "blist_set_capacity new n p l =
     (if \<not> bl_owner l then blist_not_owner l
      else if array_max \<le> n then (Fail (Thrown Bad_array_length), l)
      else (Ret [], l\<lparr>bl_items := (if p then take n (bl_items l) else refill new (min n (length (bl_items l))) []),
        bl_room := n\<rparr>))"

definition blist_assign :: "'a cell list \<Rightarrow> 'a blist \<Rightarrow> 'a cell list outcome \<times> 'a blist" where
  "blist_assign xs l =
     (if xs = [] then (Ret [], l)
      else if bl_room l < length xs \<and> \<not> bl_owner l then blist_not_owner l
      else (Ret [], l\<lparr>bl_items := xs, bl_room := max (length xs) (bl_room l)\<rparr>))"

definition blist_append :: "'a cell list \<Rightarrow> 'a blist \<Rightarrow> 'a cell list outcome \<times> 'a blist" where
  "blist_append xs l =
     (if xs = [] then (Ret [], l)
      else if \<not> bl_owner l then blist_not_owner l
      else if array_max \<le> length (bl_items l) + length xs then (Fail (Thrown Bad_array_length), l)
      else (Ret [], l\<lparr>bl_items := bl_items l @ xs, bl_room := max (bl_room l) (length (bl_items l) + length xs)\<rparr>))"

text \<open>\<open>append(*this)\<close>: without room the list grows, and then the freed array is read.\<close>

definition blist_append_self :: "(nat \<Rightarrow> 'a cell) \<Rightarrow> 'a blist \<Rightarrow> 'a cell list outcome \<times> 'a blist" where
  "blist_append_self new l =
     (let n = 2 * length (bl_items l) in
      if n = 0 then (Ret [], l)
      else if \<not> bl_owner l then blist_not_owner l
      else if array_max \<le> n then (Fail (Thrown Bad_array_length), l)
      else if n \<le> bl_room l then (Ret [], l\<lparr>bl_items := bl_items l @ bl_items l\<rparr>)
      else (Fail (Undef Use_after_free), l\<lparr>bl_items := refill new n (bl_items l), bl_room := n\<rparr>))"

fun blist_step :: "(nat \<Rightarrow> 'a cell) \<Rightarrow> 'a buffer_op \<Rightarrow> 'a blist \<Rightarrow> 'a cell list outcome \<times> 'a blist" where
  "blist_step new (Buf_resize n p) l = blist_resize new n p l"
| "blist_step new (Buf_set_capacity n p) l = blist_set_capacity new n p l"
| "blist_step new (Buf_assign xs) l = blist_assign xs l"
| "blist_step new (Buf_append xs) l = blist_append xs l"
| "blist_step new (Buf_append_val x) l = blist_append [Some x] l"
| "blist_step new (Buf_append_buffer src) l = blist_append (contents src) l"
| "blist_step new (Buf_clear z) l = (Ret [], l\<lparr>bl_items := replicate (length (bl_items l)) (Some z)\<rparr>)"
| "blist_step new (Buf_copy_assign same src) l =
     (Ret [], if same then l else \<lparr>bl_items = contents src, bl_room = b_used src, bl_owner = True\<rparr>)"
| "blist_step new (Buf_at i) l =
     (if i < length (bl_items l) then Ret [bl_items l ! i] else Fail Abort, l)"
| "blist_step new Buf_append_self l = blist_append_self new l"
| "blist_step new (Buf_swap other) l = (Ret [], buffer_view other)"
| "blist_step new (Buf_move_assign same other) l =
     (Ret [], if same then \<lparr>bl_items = [], bl_room = 0, bl_owner = False\<rparr> else buffer_view other)"

text \<open>The member functions with their results; \<open>operator[]\<close> is the only one that returns cells.\<close>

fun buffer_call :: "'a buffer_op \<Rightarrow> ('a buffer, 'a cell list) prog" where
  "buffer_call (Buf_at i) = bnd (buffer_at i) (\<lambda>x. ret [x])"
| "buffer_call op = thn (buffer_exec op) (ret [])"

subsection \<open>Each member function\<close>

lemma refill_length [simp]: "length (refill new n xs) = n"
  by (simp add: refill_def)

lemma refill_exists:
  assumes "length ys = n" "take n xs = take (length xs) ys"
  shows "\<exists>new. ys = refill new n xs"
proof
  show "ys = refill (\<lambda>i. ys ! i) n xs"
  proof (rule nth_equalityI)
    fix i assume i: "i < length ys"
    show "ys ! i = refill (\<lambda>i. ys ! i) n xs ! i"
    proof (cases "i < length xs")
      case True
      then have "take n xs ! i = take (length xs) ys ! i" using assms(2) by simp
      then show ?thesis using True i assms(1) by (simp add: refill_def nth_append)
    next
      case False
      then show ?thesis using i assms(1) by (simp add: refill_def nth_append min_def)
    qed
  qed (use assms in simp)
qed

lemma buffer_view_simps [simp]:
  "bl_items (buffer_view b) = contents b" "bl_room (buffer_view b) = b_capacity b" "bl_owner (buffer_view b) = b_ownMem b"
  by (simp_all add: buffer_view_def)

lemma buffer_view_eqI:
  "contents b = bl_items l \<Longrightarrow> b_capacity b = bl_room l \<Longrightarrow> b_ownMem b = bl_owner l \<Longrightarrow> buffer_view b = l"
  by (simp add: buffer_view_def)

lemma buffer_resize_view:
  assumes inv: "buffer_inv b" and run: "buffer_resize n p b = (r, t)"
  shows "\<exists>new. blist_resize new n p (buffer_view b) = (case r of Ret _ \<Rightarrow> Ret [] | Fail e \<Rightarrow> Fail e, buffer_view t)"
proof -
  have cap: "b_capacity b < array_max" "b_used b \<le> b_capacity b" using inv by (simp_all add: buffer_inv_def)
  have fill: "\<exists>new. contents t = refill new n (if p then contents b else [])"
    if "buffer_inv t" "b_used t = n" "p \<Longrightarrow> take (b_used b) (contents t) = take n (contents b)" for t
    using that inv by (intro refill_exists) auto
  consider "\<not> b_ownMem b" | "b_ownMem b" "n = 0" | "b_ownMem b" "array_max \<le> n"
    | "b_ownMem b" "0 < n" "n \<le> b_capacity b" | "b_ownMem b" "b_capacity b < n" "n < array_max" by linarith
  then show ?thesis
  proof cases
    case 4
    have t: "r = Ret ()" "t = b\<lparr>b_used := n\<rparr>" using run buffer_resize_within [OF 4] by simp_all
    have "take (b_used b) (contents t) = take n (contents b)"
      by (auto simp: t(2) contents_def min_def split: option.split)
    then obtain new where "contents t = refill new n (if p then contents b else [])"
      using fill [of t] buffer_inv_set_used [OF inv 4(3)] t(2) by auto
    then show ?thesis using 4 t cap by (intro exI [of _ new]) (simp add: blist_resize_def buffer_view_def max_def)
  next
    case 5
    let ?m = "(if p then contents b else []) @ replicate (n - (if p then length (contents b) else 0)) None"
    have t: "r = Ret ()" "t = b\<lparr>b_capacity := n, b_used := n, b_ptr := Some ?m\<rparr>"
      using run buffer_resize_grow [OF 5(1) inv 5(2,3)] by simp_all
    have "length (contents b) \<le> n" using inv cap 5 by simp
    moreover have "contents t = ?m" using t(2) calculation by (simp only: t(2)) (simp add: contents_def)
    ultimately have "contents t = refill (\<lambda>_. None) n (if p then contents b else [])"
      by (simp add: refill_def map_replicate_const)
    then show ?thesis using 5 t cap by (intro exI [of _ "\<lambda>_. None"]) (simp add: blist_resize_def buffer_view_def max_def)
  qed (use run inv in \<open>auto simp: blist_resize_def blist_not_owner_def buffer_resize_not_owner buffer_resize_zero buffer_resize_too_large array_max_def\<close>)
qed

lemma buffer_set_capacity_view:
  assumes inv: "buffer_inv b" and run: "buffer_set_capacity n p b = (r, t)"
  shows "\<exists>new. blist_set_capacity new n p (buffer_view b) = (case r of Ret _ \<Rightarrow> Ret [] | Fail e \<Rightarrow> Fail e, buffer_view t)"
proof -
  have cap: "b_capacity b < array_max" "b_used b \<le> b_capacity b" using inv by (simp_all add: buffer_inv_def)
  consider "\<not> b_ownMem b" | "b_ownMem b" "array_max \<le> n" | "b_ownMem b" "n = b_capacity b"
    | "b_ownMem b" "n < array_max" "n \<noteq> b_capacity b" by linarith
  then show ?thesis
  proof cases
    case 3
    have "r = Ret ()" "t = b" using run 3 by (simp_all add: buffer_set_capacity_def)
    moreover have "\<exists>new. contents b = refill new (b_used b) []" using inv by (intro refill_exists) simp_all
    ultimately show ?thesis using 3 cap inv by (auto simp: blist_set_capacity_def buffer_view_def)
  next
    case 4
    obtain t' where t': "buffer_set_capacity n p b = (Ret (), t')" "buffer_inv t'" "b_capacity t' = n"
      "b_used t' = min n (b_used b)" "b_ownMem t'" "p \<longrightarrow> contents t' = take n (contents b)"
      using buffer_set_capacity_spec [OF inv 4, of p] by blast
    then have t: "r = Ret ()" "t = t'" using run by simp_all
    have "\<exists>new. contents t' = refill new (min n (b_used b)) []" using t' by (intro refill_exists) simp_all
    then show ?thesis using 4 t t' inv by (auto simp: blist_set_capacity_def buffer_view_def)
  next
    case 2
    then have "0 < n" "n \<noteq> b_capacity b" using cap by auto
    then show ?thesis using run 2 by (auto simp: blist_set_capacity_def buffer_set_capacity_def bnd_apply)
  qed (use run in \<open>auto simp: blist_set_capacity_def blist_not_owner_def buffer_set_capacity_def\<close>)
qed

lemma buffer_assign_view:
  assumes inv: "buffer_inv b" and xs: "length xs < array_max"
  shows "thn (buffer_assign xs) (ret []) b = (case blist_assign xs (buffer_view b) of (r, l) \<Rightarrow> (r, snd (buffer_assign xs b))) \<and>
    buffer_view (snd (buffer_assign xs b)) = snd (blist_assign xs (buffer_view b))"
proof -
  consider "xs = []" | "xs \<noteq> []" "b_capacity b < length xs" "\<not> b_ownMem b"
    | "xs \<noteq> []" "b_capacity b < length xs" "b_ownMem b" | "xs \<noteq> []" "length xs \<le> b_capacity b" by linarith
  then show ?thesis
  proof cases
    case 3
    obtain t where t: "buffer_resize (length xs) False b = (Ret (), t)" "buffer_inv t" "b_capacity t = length xs" "b_ownMem t"
      using buffer_resize_grow [OF 3(3) inv 3(2) xs, of False] buffer_resize_inv [OF inv] 3(3) by fastforce
    obtain m where "length m = b_capacity t" "buffer_store 0 xs t = (Ret (), t\<lparr>b_ptr := Some (take 0 m @ xs @ drop (0 + length xs) m)\<rparr>)"
      by (rule buffer_store_spec [OF t(2), of 0 xs]) (use t(3) 3(1) in auto)
    then have "buffer_assign xs b = (Ret (), t\<lparr>b_ptr := Some xs, b_used := length xs\<rparr>)"
      using 3 t by (simp add: buffer_assign_def thn_apply)
    then show ?thesis using 3 t by (auto simp: blist_assign_def thn_apply contents_def intro!: buffer_view_eqI)
  next
    case 4
    obtain m where "length m = b_capacity b" "buffer_store 0 xs b = (Ret (), b\<lparr>b_ptr := Some (take 0 m @ xs @ drop (0 + length xs) m)\<rparr>)"
      by (rule buffer_store_spec [OF inv, of 0 xs]) (use 4 in auto)
    then have "buffer_assign xs b = (Ret (), b\<lparr>b_ptr := Some (xs @ drop (length xs) m), b_used := length xs\<rparr>)"
      using 4 by (simp add: buffer_assign_def thn_apply)
    then show ?thesis using 4 by (auto simp: blist_assign_def thn_apply contents_def max_def intro!: buffer_view_eqI)
  qed (auto simp: blist_assign_def blist_not_owner_def buffer_assign_def thn_apply buffer_resize_not_owner)
qed

lemma buffer_append_view:
  assumes inv: "buffer_inv b" and xs: "length xs < array_max" and run: "buffer_append xs b = (r, t)"
  shows "blist_append xs (buffer_view b) = (case r of Ret _ \<Rightarrow> Ret [] | Fail e \<Rightarrow> Fail e, buffer_view t)"
proof -
  have u: "b_used b < array_max" "length (contents b) = b_used b" using inv by (simp_all add: buffer_inv_def)
  have add: "sz_add (b_used b) (length xs) = b_used b + length xs" using u(1) xs by (rule sz_add_arrays)
  show ?thesis
  proof (cases "xs \<noteq> [] \<and> b_ownMem b \<and> b_used b + length xs < array_max")
    case True
    then show ?thesis using run u buffer_append_spec [OF inv xs]
      by (fastforce simp: blist_append_def intro!: buffer_view_eqI)
  next
    case False
    then show ?thesis using run inv add u
      by (auto simp: blist_append_def blist_not_owner_def buffer_append_def bnd_def thn_def buffer_resize_not_owner
          buffer_resize_too_large split: if_splits)
  qed
qed

lemma buffer_clear_view:
  assumes "buffer_inv b" "buffer_clear z b = (r, t)"
  shows "r = Ret () \<and> buffer_view t = (buffer_view b)\<lparr>bl_items := replicate (b_used b) (Some z)\<rparr>"
proof (cases "b_used b = 0")
  case True
  then show ?thesis using assms by (auto simp: buffer_clear_def bnd_def buffer_view_def contents_def split: option.splits)
next
  case False
  let ?xs = "replicate (b_used b) (Some z)"
  have "b_used b \<le> b_capacity b" using assms(1) by (simp add: buffer_inv_def)
  with False assms(1) obtain m where "length m = b_capacity b"
    "buffer_store 0 ?xs b = (Ret (), b\<lparr>b_ptr := Some (?xs @ drop (b_used b) m)\<rparr>)"
    by (auto elim!: buffer_store_spec [of b 0 ?xs])
  then show ?thesis using assms(2) False by (auto simp: buffer_clear_def bnd_def buffer_view_def contents_def)
qed

lemma buffer_append_self_view:
  assumes inv: "buffer_inv b" and run: "buffer_append_buffer True b b = (r, t)"
  shows "\<exists>new. blist_append_self new (buffer_view b) = (case r of Ret _ \<Rightarrow> Ret [] | Fail e \<Rightarrow> Fail e, buffer_view t)"
proof -
  have len: "length (contents b) = b_used b" using inv by simp
  have cap: "b_used b \<le> b_capacity b" "b_capacity b < array_max" using inv by (simp_all add: buffer_inv_def)
  from inv show ?thesis
  proof (cases rule: append_self_cases)
    case (Doubled u)
    have "buffer_view u = (buffer_view b)\<lparr>bl_items := contents b @ contents b\<rparr>"
      using Doubled by (intro buffer_view_eqI) simp_all
    then show ?thesis using run Doubled len cap by (auto simp: blist_append_self_def Let_def)
  next
    case (Dangling u)
    obtain new where new: "blist_resize new (2 * b_used b) True (buffer_view b) = (Ret [], buffer_view u)"
      using buffer_resize_view [OF inv Dangling(2)] by auto
    then have "buffer_view u = (buffer_view b)\<lparr>bl_items := refill new (2 * b_used b) (contents b), bl_room := 2 * b_used b\<rparr>"
      using Dangling(1) len by (auto simp: blist_resize_def append_self_dangles_def max_def split: if_splits)
    then show ?thesis using run Dangling len
      by (intro exI [of _ new]) (auto simp: blist_append_self_def Let_def append_self_dangles_def)
  qed (use run len in \<open>auto simp: blist_append_self_def Let_def blist_not_owner_def\<close>)
qed

subsection \<open>The refinement\<close>

lemma thn_ret_case: "thn m (ret x) s = (case m s of (r, t) \<Rightarrow> (case r of Ret _ \<Rightarrow> Ret x | Fail e \<Rightarrow> Fail e, t))"
  by (auto simp: thn_apply split: prod.split outcome.split)

lemma buffer_simulates:
  assumes inv: "buffer_inv b" and ok: "buffer_op_ok op" and run: "buffer_call op b = (r, t)"
  shows "buffer_inv t \<and> (\<exists>new. blist_step new op (buffer_view b) = (r, buffer_view t))"
proof -
  obtain q u where x: "buffer_exec op b = (q, u)" by (rule prod.exhaust)
  have "snd (buffer_call op b) = u"
    using x by (cases op) (auto simp: thn_ret_case bnd_apply split: prod.splits outcome.splits)
  then have t: "u = t" using run by simp
  have "buffer_inv t" using buffer_exec_inv [OF inv ok x] t by simp
  moreover have "\<exists>new. blist_step new op (buffer_view b) = (r, buffer_view t)"
  proof (cases op)
    case (Buf_resize n p)
    then show ?thesis using run x t buffer_resize_view [OF inv, of n p] by (auto simp: thn_ret_case)
  next
    case (Buf_set_capacity n p)
    then show ?thesis using run x t buffer_set_capacity_view [OF inv, of n p] by (auto simp: thn_ret_case)
  next
    case (Buf_assign xs)
    then show ?thesis using run x t ok buffer_assign_view [OF inv, of xs] by (auto split: prod.splits)
  next
    case (Buf_append xs)
    then show ?thesis using run x t ok buffer_append_view [OF inv, of xs] by (auto simp: thn_ret_case)
  next
    case (Buf_append_val y)
    then show ?thesis using run x t buffer_append_view [OF inv, of "[Some y]"]
      by (auto simp: thn_ret_case buffer_append_val_eq [OF inv] array_max_def)
  next
    case (Buf_append_buffer src)
    then have "buffer_inv src" using ok by simp
    then have "length (contents src) < array_max" by (auto simp: buffer_inv_def)
    then show ?thesis using Buf_append_buffer run x t buffer_append_view [OF inv, of "contents src"] \<open>buffer_inv src\<close>
      by (auto simp: thn_ret_case buffer_append_other)
  next
    case (Buf_clear z)
    then show ?thesis using run x t inv buffer_clear_view [OF inv, of z] by (auto simp: thn_ret_case)
  next
    case (Buf_copy_assign same src)
    then show ?thesis using run x t ok buffer_copy_assign_spec [of src b]
      by (cases same) (auto simp: thn_ret_case buffer_copy_assign_def buffer_view_def)
  next
    case (Buf_at i)
    then show ?thesis using run x t inv by (auto simp: buffer_at_spec bnd_apply)
  next
    case Buf_append_self
    then show ?thesis using run x t buffer_append_self_view [OF inv] by (auto simp: thn_ret_case)
  next
    case (Buf_swap other)
    then show ?thesis using run x t by (auto simp: thn_ret_case buffer_swap_fst)
  next
    case (Buf_move_assign same other)
    then show ?thesis using run x t
      by (cases same) (auto simp: thn_ret_case buffer_move_assign_fst buffer_view_def contents_def)
  qed
  ultimately show ?thesis by blast
qed

interpretation bl: data_refinement buffer_call blist_step buffer_view buffer_inv "\<lambda>op b. buffer_op_ok op"
  by unfold_locales (rule buffer_simulates)

lemma allowed_always: "calls_allowed call (\<lambda>op s. P op) ops s = list_all P ops"
  by (induction ops arbitrary: s) simp_all

text \<open>C5. \<open>Buffer\<close> is a list with a capacity: every sequence of its member functions has the results and exceptions
  of the reference \<open>blist_step\<close>, call by call, and leaves behind a buffer that looks as the reference says: \<open>append\<close> adds
  at the end, \<open>resize\<close> and \<open>setCapacity\<close> keep the beginning, and a buffer grows exactly as far as needed. \<open>append(*this)\<close>
  is among the calls: the reference doubles the list when it has the room, and otherwise ends in a read of freed memory, as
  the code does. The arrays that are passed are not the buffer's own.\<close>

theorem buffer_refines_list:
  assumes "buffer_inv b" "list_all buffer_op_ok ops" "run_calls buffer_call ops b = (rs, t)"
  shows "buffer_inv t \<and> (\<exists>steps. map snd steps = ops \<and> run_steps blist_step steps (buffer_view b) = (rs, buffer_view t))"
  using bl.run_refines [OF assms(1) _ assms(3)] assms(2) by (simp add: allowed_always)

subsection \<open>Witness\<close>

lemma buffer_refines_list_witness:
  "\<exists>steps rs l. map snd steps = [Buf_append [Some 9], Buf_resize 2 True, Buf_at 1, Buf_append_self] \<and>
     run_steps blist_step steps (buffer_view sample_buffer) = (rs, l) \<and>
     rs = [Ret [], Ret [], Ret [Some 8], Fail (Undef Use_after_free)] \<and> bl_room l = 4"
proof -
  let ?ops = "[Buf_append [Some 9], Buf_resize 2 True, Buf_at 1, Buf_append_self] :: nat buffer_op list"
  obtain rs t where run: "run_calls buffer_call ?ops sample_buffer = (rs, t)" by (rule prod.exhaust)
  have "rs = [Ret [], Ret [], Ret [Some 8], Fail (Undef Use_after_free)] \<and> b_capacity t = 4"
    using run by (auto simp: sample_buffer_def buffer_append_def buffer_append_buffer_def buffer_resize_def buffer_store_def buffer_at_def
        preserve_def prog_simps array_max_def size_max_def sz_add_def sz_sub_def mem_write_def)
  moreover have ok: "list_all buffer_op_ok ?ops" by (simp add: array_max_def)
  obtain steps where "map snd steps = ?ops" "run_steps blist_step steps (buffer_view sample_buffer) = (rs, buffer_view t)"
    using conjunct2 [OF buffer_refines_list [OF sample_buffer_inv ok run]] by (elim exE conjE) (rule that)
  ultimately show ?thesis by (metis buffer_view_simps(2))
qed

end
