(* ===== verification/Fifo_Buffer.thy ===== *)
theory Fifo_Buffer
  imports Buffer
begin

section \<open>BasicFIFOBuffer: the byte queue of fifo\_buffer.h\<close>

text \<open>
  Models \<^verbatim>\<open>class BasicFIFOBuffer<T>\<close> of
  \<^verbatim>\<open>src/epoll_server/fifo_buffer.h\<close>. The record holds the members of the class;
  \<open>f_signals\<close> is the list of the values sent so far through the two
  \<^verbatim>\<open>boost::signals2\<close> members, in order (the slots connected to them are not part of the
  class). Pointers into the storage are offsets.

  The member \<^verbatim>\<open>_mutex\<close> is a \<^verbatim>\<open>std::mutex\<close>: \<open>fifo_new\<close>,
  \<open>fifo_wrap\<close> and \<open>fifo_copy_mem\<close> create it with kind \<open>Std_mutex\<close>. Several
  member functions call one another while they hold it. For the kind the class declares, the theorem
  \<open>fifo_deadlock_iff\<close> says exactly which calls do not come back. The lemmas about what an operation computes are stated for
  a mutex of kind \<open>Recursive_mutex\<close>, on which every call does; theory \<open>Fifo_Declared\<close> carries them over to the calls that come
  back with the declared kind.
\<close>

datatype signal = Readable bool | Writable bool

record 'a fifo =
  f_buffer :: "'a buffer"
  f_begin :: nat
  f_used :: nat
  f_mutex :: mutex
  f_notify :: bool
  f_eof :: bool
  f_error :: bool
  f_signals :: "signal list"

subsection \<open>Constructors\<close>

definition fifo_make :: "'a buffer \<Rightarrow> nat \<Rightarrow> bool \<Rightarrow> 'a fifo" where
  "fifo_make b used notify = \<lparr>f_buffer = b, f_begin = 0, f_used = used,
     f_mutex = new_mutex Std_mutex, f_notify = notify, f_eof = False, f_error = False,
     f_signals = []\<rparr>"

definition fifo_new :: "nat \<Rightarrow> bool \<Rightarrow> ('s, 'a fifo) prog" where
  "fifo_new n notify = bnd (buffer_new n) (\<lambda>b. ret (fifo_make b 0 notify))"

definition fifo_wrap :: "'a cell list \<Rightarrow> bool \<Rightarrow> 'a fifo" where
  "fifo_wrap m notify = fifo_make (buffer_wrap m) 0 notify"

definition fifo_copy_mem :: "'a cell list \<Rightarrow> bool \<Rightarrow> ('s, 'a fifo) prog" where
  "fifo_copy_mem xs notify = bnd (buffer_copy_mem xs) (\<lambda>b. ret (fifo_make b (length xs) notify))"

subsection \<open>Queries\<close>

definition fifo_size :: "'a fifo \<Rightarrow> nat" where
  "fifo_size f = buffer_size (f_buffer f)"

definition fifo_used :: "'a fifo \<Rightarrow> nat" where
  "fifo_used f = f_used f"

definition fifo_storage :: "'a fifo \<Rightarrow> 'a buffer" where
  "fifo_storage f = f_buffer f"

definition has_eof :: "'a fifo \<Rightarrow> bool" where
  "has_eof f = f_eof f"

definition get_notify :: "'a fifo \<Rightarrow> bool" where
  "get_notify f = f_notify f"

definition fifo_destroy :: "('a fifo, unit) prog" where
  "fifo_destroy = zoom f_buffer (\<lambda>b f. f\<lparr>f_buffer := b\<rparr>) buffer_destroy"

definition fifo_available :: "'a fifo \<Rightarrow> nat" where
  "fifo_available f = sz_sub (fifo_size f) (f_used f)"

definition is_valid :: "'a fifo \<Rightarrow> bool" where
  "is_valid f \<longleftrightarrow> \<not> f_error f"

definition is_empty :: "'a fifo \<Rightarrow> bool" where
  "is_empty f \<longleftrightarrow> 0 = f_used f"

definition is_full :: "'a fifo \<Rightarrow> bool" where
  "is_full f \<longleftrightarrow> fifo_size f = f_used f"

definition is_eof :: "'a fifo \<Rightarrow> bool" where
  "is_eof f \<longleftrightarrow> is_empty f \<and> f_eof f"

definition is_readable :: "'a fifo \<Rightarrow> bool" where
  "is_readable f \<longleftrightarrow> \<not> is_empty f \<and> is_valid f"

definition is_writable :: "'a fifo \<Rightarrow> bool" where
  "is_writable f \<longleftrightarrow> \<not> is_full f \<and> is_valid f \<and> \<not> f_eof f"

subsection \<open>Locking, signals, access to the storage\<close>

definition fifo_locked :: "('a fifo, 'r) prog \<Rightarrow> ('a fifo, 'r) prog" where
  "fifo_locked body = with_lock f_mutex (\<lambda>m f. f\<lparr>f_mutex := m\<rparr>) body"

definition emit :: "signal \<Rightarrow> ('a fifo, unit) prog" where
  "emit sg = modify (\<lambda>f. f\<lparr>f_signals := f_signals f @ [sg]\<rparr>)"

definition notify_signals :: "nat \<Rightarrow> 'a fifo \<Rightarrow> signal list" where
  "notify_signals usedBefore f =
     (if usedBefore = 0 \<and> f_used f > 0 then [Readable True]
      else if usedBefore > 0 \<and> 0 = f_used f then [Readable False] else []) @
     (if usedBefore = fifo_size f \<and> f_used f < fifo_size f then [Writable True]
      else if usedBefore < fifo_size f \<and> f_used f = fifo_size f then [Writable False] else [])"

definition notify_if :: "nat \<Rightarrow> ('a fifo, unit) prog" where
  "notify_if usedBefore =
     cond f_notify (modify (\<lambda>f. f\<lparr>f_signals := f_signals f @ notify_signals usedBefore f\<rparr>)) (ret ())"

definition on_buffer :: "('a buffer, 'r) prog \<Rightarrow> ('a fifo, 'r) prog" where
  "on_buffer m = zoom f_buffer (\<lambda>b f. f\<lparr>f_buffer := b\<rparr>) m"

subsection \<open>Member functions\<close>

definition resize_msg :: string where
  "resize_msg = ''Can not resize FIFO without data loss.''"

definition extend_msg :: string where
  "extend_msg = ''Cannot extend buffer.''"

definition not_writable_msg :: string where
  "not_writable_msg = ''Buffer not writable.''"

definition index_msg :: string where
  "index_msg = ''Index out of bounds''"

definition fifo_resize :: "nat \<Rightarrow> bool \<Rightarrow> ('a fifo, unit) prog" where
  "fifo_resize newSize preserveContent = fifo_locked
     (cond (\<lambda>f. preserveContent \<and> newSize < f_used f) (throw_runtime resize_msg)
     (bnd (gets f_used) (\<lambda>usedBefore.
      thn (on_buffer (buffer_resize newSize preserveContent))
     (thn (if \<not> preserveContent then modify (\<lambda>f. f\<lparr>f_used := 0\<rparr>) else ret ())
          (notify_if usedBefore)))))"

text \<open>\<open>peek(T*, length)\<close>: the cells copied to the caller's array; their number is the result.\<close>

definition fifo_peek :: "nat \<Rightarrow> ('a fifo, 'a cell list) prog" where
  "fifo_peek len =
     (if 0 = len then ret []
      else fifo_locked
       (cond (\<lambda>f. \<not> is_readable f) (ret [])
       (bnd (gets (\<lambda>f. if len > f_used f then f_used f else len)) (\<lambda>n.
        bnd (gets f_begin) (\<lambda>start. on_buffer (buffer_load start n))))))"

definition fifo_read :: "nat \<Rightarrow> ('a fifo, 'a cell list) prog" where
  "fifo_read len =
     (if 0 = len then ret []
      else fifo_locked
       (cond (\<lambda>f. \<not> is_readable f) (ret [])
       (bnd (gets f_used) (\<lambda>usedBefore.
        bnd (fifo_peek len) (\<lambda>out.
        thn (assertion (\<lambda>f. f_used f \<ge> length out))
       (thn (modify (\<lambda>f. f\<lparr>f_used := sz_sub (f_used f) (length out)\<rparr>))
       (thn (modify (\<lambda>f. if 0 = f_used f then f\<lparr>f_begin := 0\<rparr>
                         else f\<lparr>f_begin := sz_add (f_begin f) len\<rparr>))
       (thn (notify_if usedBefore)
            (ret out)))))))))"

text \<open>The variants that fill a \<open>Buffer\<close> work on the queue and on the destination.\<close>

definition on_fifo :: "('a fifo, 'r) prog \<Rightarrow> ('a fifo \<times> 'a buffer, 'r) prog" where
  "on_fifo m = zoom fst (\<lambda>f s. (f, snd s)) m"

definition on_dest :: "('a buffer, 'r) prog \<Rightarrow> ('a fifo \<times> 'a buffer, 'r) prog" where
  "on_dest m = zoom snd (\<lambda>b s. (fst s, b)) m"

definition pair_locked :: "('a fifo \<times> 'a buffer, 'r) prog \<Rightarrow> ('a fifo \<times> 'a buffer, 'r) prog" where
  "pair_locked body = with_lock (\<lambda>s. f_mutex (fst s)) (\<lambda>m s. ((fst s)\<lparr>f_mutex := m\<rparr>, snd s)) body"

definition fifo_peek_buf :: "nat \<Rightarrow> ('a fifo \<times> 'a buffer, nat) prog" where
  "fifo_peek_buf len = pair_locked
     (cond (\<lambda>s. \<not> is_readable (fst s)) (ret 0)
     (bnd (gets (\<lambda>s. if 0 = len \<or> len > f_used (fst s) then f_used (fst s) else len)) (\<lambda>n.
      thn (on_dest (buffer_resize n True))
     (bnd (on_fifo (fifo_peek n)) (\<lambda>out.
      thn (on_dest (buffer_store 0 out))
          (ret (length out)))))))"

definition fifo_read_buf :: "nat \<Rightarrow> ('a fifo \<times> 'a buffer, nat) prog" where
  "fifo_read_buf len = pair_locked
     (cond (\<lambda>s. \<not> is_readable (fst s)) (ret 0)
     (bnd (gets (\<lambda>s. f_used (fst s))) (\<lambda>usedBefore.
      bnd (fifo_peek_buf len) (\<lambda>readLen.
      thn (assertion (\<lambda>s. f_used (fst s) \<ge> readLen))
     (thn (on_fifo (modify (\<lambda>f. f\<lparr>f_used := sz_sub (f_used f) readLen\<rparr>)))
     (thn (on_fifo (modify (\<lambda>f. if 0 = f_used f then f\<lparr>f_begin := 0\<rparr>
                                 else f\<lparr>f_begin := sz_add (f_begin f) len\<rparr>)))
     (thn (on_fifo (notify_if usedBefore))
          (ret readLen))))))))"

text \<open>\<open>begin()\<close> moves the data to the front of the storage; the pointer it returns is offset 0.\<close>

definition fifo_begin :: "('a fifo, nat) prog" where
  "fifo_begin = fifo_locked
     (thn (cond (\<lambda>f. f_begin f \<noteq> 0)
             (bnd (gets (\<lambda>f. (f_begin f, f_used f))) (\<lambda>(b, u).
              thn (on_buffer (buffer_memmove 0 b u))
                  (modify (\<lambda>f. f\<lparr>f_begin := 0\<rparr>))))
             (ret ()))
          (ret 0))"

definition fifo_next :: "('a fifo, nat) prog" where
  "fifo_next = fifo_locked (bnd fifo_begin (\<lambda>p. bnd (gets f_used) (\<lambda>u. ret (p + u))))"

text \<open>The compaction shared by \<open>write\<close> and \<open>advance\<close>.\<close>

definition make_room :: "nat \<Rightarrow> ('a fifo, unit) prog" where
  "make_room len =
     cond (\<lambda>f. sz_sub (fifo_size f) (sz_add (f_begin f) (f_used f)) < len)
       (bnd fifo_begin (\<lambda>src.
        bnd (gets f_used) (\<lambda>u.
        thn (on_buffer (buffer_memmove 0 src u))
            (modify (\<lambda>f. f\<lparr>f_begin := 0\<rparr>)))))
       (ret ())"

text \<open>The second half of \<open>write\<close>: copy \<open>len\<close> cells behind the data, count them, notify.\<close>

definition put_data :: "'a cell list \<Rightarrow> nat \<Rightarrow> nat \<Rightarrow> ('a fifo, nat) prog" where
  "put_data data usedBefore len =
     bnd fifo_begin (\<lambda>dst.
     bnd (gets f_used) (\<lambda>u.
     thn (on_buffer (buffer_store (dst + u) (take len data)))
    (thn (modify (\<lambda>f. f\<lparr>f_used := sz_add (f_used f) len\<rparr>))
    (thn (assertion (\<lambda>f. f_used f \<le> fifo_size f))
    (thn (notify_if usedBefore)
         (ret len))))))"

definition fifo_write :: "'a cell list \<Rightarrow> ('a fifo, nat) prog" where
  "fifo_write data =
     (if 0 = length data then ret 0
      else fifo_locked
       (cond (\<lambda>f. \<not> is_writable f) (ret 0)
       (thn (make_room (length data))
       (bnd (gets f_used) (\<lambda>usedBefore.
        bnd (gets (\<lambda>f. sz_sub (sz_sub (fifo_size f) (f_used f)) (f_begin f))) (\<lambda>avail.
          put_data data usedBefore (if length data > avail then avail else length data)))))))"

definition fifo_write_buf :: "'a buffer \<Rightarrow> nat \<Rightarrow> ('a fifo, nat) prog" where
  "fifo_write_buf buf len =
     (let n = (if len = 0 \<or> len > buffer_size buf then buffer_size buf else len)
      in if n = 0 then fifo_write []
         else bnd (defined Null_deref (b_ptr buf)) (\<lambda>m.
              bnd (defined Out_of_bounds (mem_read 0 n m)) (\<lambda>data. fifo_write data)))"

definition fifo_drain :: "nat \<Rightarrow> ('a fifo, unit) prog" where
  "fifo_drain len = fifo_locked
     (bnd (gets f_used) (\<lambda>usedBefore.
      thn (modify (\<lambda>f. if 0 = len \<or> len \<ge> f_used f then f\<lparr>f_begin := 0, f_used := 0\<rparr>
                       else f\<lparr>f_begin := sz_add (f_begin f) len, f_used := sz_sub (f_used f) len\<rparr>))
          (notify_if usedBefore)))"

text \<open>\<open>copy\<close>. Its first statement calls \<^verbatim>\<open>poco_check_ptr\<close> on the pointer, which the repository does
  not declare: an instance of the class that uses \<open>copy\<close> does not compile as it stands. The macro of the library the
  class comes from rejects a null pointer; a list of cells is never one, so the definition is the rest of the body.\<close>

definition fifo_copy :: "'a cell list \<Rightarrow> ('a fifo, unit) prog" where
  "fifo_copy data =
     (if 0 = length data then ret ()
      else fifo_locked
       (cond (\<lambda>f. length data > fifo_available f) (throw_runtime extend_msg)
       (cond (\<lambda>f. \<not> is_writable f) (throw_runtime not_writable_msg)
       (bnd fifo_begin (\<lambda>dst.
        bnd (gets f_used) (\<lambda>u.
        thn (on_buffer (buffer_store (dst + u) data))
       (bnd (gets f_used) (\<lambda>usedBefore.
        thn (modify (\<lambda>f. f\<lparr>f_used := sz_add (f_used f) (length data)\<rparr>))
            (notify_if usedBefore)))))))))"

definition fifo_advance :: "nat \<Rightarrow> ('a fifo, unit) prog" where
  "fifo_advance len = fifo_locked
     (cond (\<lambda>f. len > fifo_available f) (throw_runtime extend_msg)
     (cond (\<lambda>f. \<not> is_writable f) (throw_runtime not_writable_msg)
     (thn (make_room len)
     (bnd (gets f_used) (\<lambda>usedBefore.
      thn (modify (\<lambda>f. f\<lparr>f_used := sz_add (f_used f) len\<rparr>))
          (notify_if usedBefore))))))"

text \<open>\<open>operator[]\<close>. The message of its exception is built with a comma operator between two sizes
  (\<^verbatim>\<open>(format % index, _used - 1)\<close>), so the argument of \<^verbatim>\<open>std::runtime_error\<close> is a number and an instance
  that uses the operator does not compile as it stands. The definition throws the text the format starts with.\<close>

definition fifo_at :: "nat \<Rightarrow> ('a fifo, 'a cell) prog" where
  "fifo_at index = fifo_locked
     (cond (\<lambda>f. index \<ge> f_used f) (throw_runtime index_msg)
     (bnd (gets f_begin) (\<lambda>b. on_buffer (buffer_at (sz_add b index)))))"

definition fifo_set_error :: "bool \<Rightarrow> ('a fifo, unit) prog" where
  "fifo_set_error err =
     (if err
      then fifo_locked
       (thn (cond (\<lambda>f. is_readable f \<and> f_notify f) (emit (Readable False)) (ret ()))
       (thn (cond (\<lambda>f. is_writable f \<and> f_notify f) (emit (Writable False)) (ret ()))
            (modify (\<lambda>f. f\<lparr>f_error := err, f_used := 0\<rparr>))))
      else fifo_locked
       (thn (modify (\<lambda>f. f\<lparr>f_error := False\<rparr>))
            (cond (\<lambda>f. f_notify f \<and> \<not> f_eof f) (emit (Writable True)) (ret ()))))"

definition fifo_set_eof :: "bool \<Rightarrow> ('a fifo, unit) prog" where
  "fifo_set_eof eof = fifo_locked
     (thn (cond f_notify (emit (Writable (\<not> eof))) (ret ()))
          (modify (\<lambda>f. f\<lparr>f_eof := eof\<rparr>)))"

definition fifo_set_notify :: "bool \<Rightarrow> ('a fifo, unit) prog" where
  "fifo_set_notify notify = modify (\<lambda>f. f\<lparr>f_notify := notify\<rparr>)"

subsection \<open>Well-formed queues and their contents\<close>

definition fifo_inv :: "'a fifo \<Rightarrow> bool" where
  "fifo_inv f \<longleftrightarrow> buffer_inv (f_buffer f) \<and> f_begin f + f_used f \<le> fifo_size f"

definition fifo_content :: "'a fifo \<Rightarrow> 'a cell list" where
  "fifo_content f = take (f_used f) (drop (f_begin f) (contents (f_buffer f)))"

definition reentrant :: "'a fifo \<Rightarrow> bool" where
  "reentrant f \<longleftrightarrow> m_kind (f_mutex f) = Recursive_mutex"

text \<open>What the operations on the contents leave alone.\<close>

definition same_frame :: "'a fifo \<Rightarrow> 'a fifo \<Rightarrow> bool" where
  "same_frame f g \<longleftrightarrow> f_mutex g = f_mutex f \<and> f_notify g = f_notify f \<and> f_eof g = f_eof f \<and>
     f_error g = f_error f \<and> fifo_size g = fifo_size f"

lemma fifo_size_less: "fifo_inv f \<Longrightarrow> fifo_size f < array_max"
  by (simp add: fifo_inv_def fifo_size_def buffer_size_def buffer_inv_def)

lemma fifo_used_le: "fifo_inv f \<Longrightarrow> f_used f \<le> fifo_size f"
  by (simp add: fifo_inv_def)

lemma fifo_content_length [simp]: "fifo_inv f \<Longrightarrow> length (fifo_content f) = f_used f"
  by (auto simp: fifo_inv_def fifo_content_def fifo_size_def buffer_size_def min_def)

lemma fifo_available_eq: "fifo_inv f \<Longrightarrow> fifo_available f = fifo_size f - f_used f"
  using fifo_size_less [of f] fifo_used_le [of f] array_max_less_size_max
  by (simp add: fifo_available_def)

lemma fifo_tail_room:
  "fifo_inv f \<Longrightarrow> sz_sub (fifo_size f) (sz_add (f_begin f) (f_used f)) = fifo_size f - (f_begin f + f_used f)"
  using fifo_size_less [of f] array_max_less_size_max by (simp add: fifo_inv_def)

lemma fifo_write_room:
  assumes "fifo_inv f"
  shows "sz_sub (sz_sub (fifo_size f) (f_used f)) (f_begin f) = fifo_size f - f_used f - f_begin f"
proof -
  have lt: "fifo_size f < size_max"
    using fifo_size_less [OF assms] array_max_less_size_max by simp
  have "f_used f \<le> fifo_size f" "f_begin f \<le> fifo_size f - f_used f"
    using assms by (auto simp: fifo_inv_def)
  with lt show ?thesis by simp
qed

lemma is_readable_iff: "is_readable f \<longleftrightarrow> 0 < f_used f \<and> \<not> f_error f"
  by (auto simp: is_readable_def is_empty_def is_valid_def)

lemma is_writable_iff:
  "fifo_inv f \<Longrightarrow> is_writable f \<longleftrightarrow> f_used f < fifo_size f \<and> \<not> f_error f \<and> \<not> f_eof f"
  using fifo_used_le [of f] by (auto simp: is_writable_def is_full_def is_valid_def)

text \<open>The constructed queues.\<close>

lemma fifo_new_spec:
  "n < array_max \<Longrightarrow> \<exists>f. fifo_new n b s = (Ret f, s) \<and> fifo_inv f \<and> fifo_size f = n \<and>
     fifo_content f = [] \<and> f_notify f = b \<and> f_mutex f = new_mutex Std_mutex"
  by (auto simp: fifo_new_def buffer_new_def bnd_def fifo_make_def fifo_inv_def fifo_size_def
      buffer_size_def buffer_inv_def fifo_content_def array_max_def)

lemma fifo_copy_mem_spec:
  assumes "length xs < array_max"
  shows "\<exists>f. fifo_copy_mem xs b s = (Ret f, s) \<and> fifo_inv f \<and> fifo_size f = length xs \<and>
     fifo_content f = xs \<and> f_notify f = b \<and> f_mutex f = new_mutex Std_mutex"
proof -
  obtain c where "buffer_copy_mem xs s = (Ret c, s)" "buffer_inv c" "contents c = xs" "b_used c = length xs"
    using buffer_copy_mem_spec [OF assms, of s] by auto
  then show ?thesis
    by (simp add: fifo_copy_mem_def fifo_make_def fifo_inv_def fifo_size_def
        buffer_size_def fifo_content_def)
qed

subsection \<open>Locked blocks\<close>

lemma fifo_locked_Ret:
  assumes "can_lock (f_mutex f)"
    and "m (f\<lparr>f_mutex := locked (f_mutex f)\<rparr>) = (Ret x, g)"
    and "f_mutex g = locked (f_mutex f)"
  shows "fifo_locked m f = (Ret x, g\<lparr>f_mutex := f_mutex f\<rparr>)"
  using assms by (simp add: fifo_locked_def with_lock_free)

lemma fifo_locked_pure:
  assumes "can_lock (f_mutex f)"
    and "m (f\<lparr>f_mutex := locked (f_mutex f)\<rparr>) = (Ret x, f\<lparr>f_mutex := locked (f_mutex f)\<rparr>)"
  shows "fifo_locked m f = (Ret x, f)"
  using assms by (simp add: fifo_locked_def with_lock_free)

lemma fifo_locked_throws:
  assumes "can_lock (f_mutex f)"
    and "m (f\<lparr>f_mutex := locked (f_mutex f)\<rparr>) = (Fail (Thrown e), f\<lparr>f_mutex := locked (f_mutex f)\<rparr>)"
  shows "fifo_locked m f = (Fail (Thrown e), f)"
  using assms by (simp add: fifo_locked_def with_lock_free)

lemma fifo_locked_Thrown:
  assumes "can_lock (f_mutex f)"
    and "m (f\<lparr>f_mutex := locked (f_mutex f)\<rparr>) = (Fail (Thrown e), g)"
    and "f_mutex g = locked (f_mutex f)"
  shows "fifo_locked m f = (Fail (Thrown e), g\<lparr>f_mutex := f_mutex f\<rparr>)"
  using assms by (simp add: fifo_locked_def with_lock_free)

lemma fifo_locked_held: "\<not> can_lock (f_mutex f) \<Longrightarrow> fst (fifo_locked m f) = Fail Deadlock"
  by (simp add: fifo_locked_def with_lock_held)

lemma fifo_inv_mutex [simp]: "fifo_inv (f\<lparr>f_mutex := m\<rparr>) = fifo_inv f"
  by (simp add: fifo_inv_def fifo_size_def)

lemma fifo_size_mutex [simp]: "fifo_size (f\<lparr>f_mutex := m\<rparr>) = fifo_size f"
  by (simp add: fifo_size_def)

lemma fifo_content_mutex [simp]: "fifo_content (f\<lparr>f_mutex := m\<rparr>) = fifo_content f"
  by (simp add: fifo_content_def)

lemma reentrant_can_lock [simp]: "reentrant f \<Longrightarrow> can_lock (f_mutex f)"
  by (simp add: reentrant_def)

lemma reentrant_locked [simp]: "reentrant (f\<lparr>f_mutex := locked (f_mutex f)\<rparr>) = reentrant f"
  by (simp add: reentrant_def)

subsection \<open>begin(): compaction\<close>

text \<open>
  Both compactions replace the storage by one in which the data start at \<open>k\<close>: \<open>moved f b k\<close>
  says that \<open>b\<close> at offset \<open>k\<close> holds the contents of \<open>f\<close>.
\<close>

definition moved :: "'a fifo \<Rightarrow> 'a buffer \<Rightarrow> nat \<Rightarrow> bool" where
  "moved f b k \<longleftrightarrow> buffer_inv b \<and> b_used b = b_used (f_buffer f) \<and>
     b_capacity b = b_capacity (f_buffer f) \<and> b_ownMem b = b_ownMem (f_buffer f) \<and>
     k + f_used f \<le> fifo_size f \<and> take (f_used f) (drop k (contents b)) = fifo_content f"

lemma moved_refl: "fifo_inv f \<Longrightarrow> moved f (f_buffer f) (f_begin f)"
  by (simp add: moved_def fifo_inv_def fifo_content_def)

lemma moved_inv:
  "moved f b k \<Longrightarrow> fifo_inv (f\<lparr>f_buffer := b, f_begin := k\<rparr>) \<and>
     fifo_content (f\<lparr>f_buffer := b, f_begin := k\<rparr>) = fifo_content f \<and>
     fifo_size (f\<lparr>f_buffer := b, f_begin := k\<rparr>) = fifo_size f"
  by (auto simp: moved_def fifo_inv_def fifo_size_def buffer_size_def fifo_content_def)

lemma buffer_memmove_spec:
  assumes b: "buffer_inv b" "0 < b_capacity b" and n: "i + n \<le> b_capacity b" "j + n \<le> b_used b" "i + n \<le> b_used b"
  shows "\<exists>b'. buffer_memmove i j n b = (Ret (), b') \<and> buffer_inv b' \<and> b_used b' = b_used b \<and>
     b_capacity b' = b_capacity b \<and> b_ownMem b' = b_ownMem b \<and>
     take n (drop i (contents b')) = take n (drop j (contents b))"
proof -
  obtain m where m: "b_ptr b = Some m" "length m = b_capacity b"
    using b by (auto elim: buffer_inv_nonempty)
  have j: "j + n \<le> length m" using b n m by (simp add: buffer_inv_def)
  let ?m = "take i m @ take n (drop j m) @ drop (i + n) m"
  have run: "buffer_memmove i j n b = (Ret (), b\<lparr>b_ptr := Some ?m\<rparr>)"
    using m n(1) j by (simp add: buffer_memmove_def)
  have len: "length ?m = b_capacity b" using m n(1) j by simp
  have i: "i \<le> length m" using m n(1) by simp
  have lj: "length (take n (drop j m)) = n" using j by simp
  have "take n (drop i (take (b_used b) ?m)) = take n (drop i ?m)"
    using n(3) by (rule take_drop_within)
  also have "\<dots> = take n (drop j m)"
    using take_drop_spliced [OF i, of "take n (drop j m)"] lj by (simp only:)
  also have "\<dots> = take n (drop j (take (b_used b) m))"
    using n(2) by (rule take_drop_within [symmetric])
  finally have tk: "take n (drop i (take (b_used b) ?m)) = take n (drop j (take (b_used b) m))" .
  obtain M where M: "M = ?m" by blast
  from tk have "take n (drop i (contents (b\<lparr>b_ptr := Some M\<rparr>))) = take n (drop j (contents b))"
    unfolding M [symmetric] using m(1) by (simp add: contents_def)
  then show ?thesis
    using run buffer_inv_set_ptr [OF b(1) len] unfolding M [symmetric]
    by (intro exI [of _ "b\<lparr>b_ptr := Some M\<rparr>"] conjI) simp_all
qed

lemma fifo_begin_spec:
  assumes inv: "fifo_inv f" and lk: "can_lock (f_mutex f)"
  shows "\<exists>b. fifo_begin f = (Ret 0, f\<lparr>f_buffer := b, f_begin := 0\<rparr>) \<and> moved f b 0"
proof (cases "f_begin f = 0")
  case True
  have "fifo_begin f = (Ret 0, f\<lparr>f_mutex := f_mutex f\<rparr>)"
    unfolding fifo_begin_def using True lk
    by (subst fifo_locked_Ret [where x = 0 and g = "f\<lparr>f_mutex := locked (f_mutex f)\<rparr>"])
      (simp_all add: thn_def bnd_def)
  moreover have "f = f\<lparr>f_buffer := f_buffer f, f_begin := 0\<rparr>" using True by simp
  ultimately show ?thesis using moved_refl [OF inv] True by (metis fifo.surjective fifo.update_convs(4))
next
  case False
  from inv have sz: "buffer_inv (f_buffer f)" "f_begin f + f_used f \<le> b_used (f_buffer f)"
    by (auto simp: fifo_inv_def fifo_size_def buffer_size_def)
  then have cap: "0 < b_capacity (f_buffer f)" "f_used f \<le> b_capacity (f_buffer f)" "f_used f \<le> b_used (f_buffer f)"
    using False by (auto simp: buffer_inv_def)
  obtain b where b: "buffer_memmove 0 (f_begin f) (f_used f) (f_buffer f) = (Ret (), b)"
    "buffer_inv b" "b_used b = b_used (f_buffer f)" "b_capacity b = b_capacity (f_buffer f)"
    "b_ownMem b = b_ownMem (f_buffer f)"
    "take (f_used f) (drop 0 (contents b)) = take (f_used f) (drop (f_begin f) (contents (f_buffer f)))"
    using buffer_memmove_spec [OF sz(1) cap(1), of 0 "f_used f" "f_begin f"] cap sz(2) by auto
  have "fifo_begin f = (Ret 0, f\<lparr>f_mutex := locked (f_mutex f), f_buffer := b, f_begin := 0, f_mutex := f_mutex f\<rparr>)"
    unfolding fifo_begin_def using False lk b(1)
    by (intro fifo_locked_Ret) (simp_all add: thn_def bnd_def on_buffer_def zoom_def)
  moreover have "moved f b 0"
    using b sz cap by (simp add: moved_def fifo_content_def fifo_size_def buffer_size_def)
  ultimately show ?thesis by auto
qed

text \<open>\<open>make_room\<close>: afterwards the data are at the front, or the room behind them suffices.\<close>

lemma make_room_spec:
  assumes inv: "fifo_inv f" and re: "reentrant f" and sz: "0 < fifo_size f"
  shows "\<exists>b k. make_room n f = (Ret (), f\<lparr>f_buffer := b, f_begin := k\<rparr>) \<and> moved f b k \<and>
     (k = 0 \<or> k + f_used f + n \<le> fifo_size f)"
proof (cases "fifo_size f - (f_begin f + f_used f) < n")
  case False
  have "make_room n f = (Ret (), f\<lparr>f_buffer := f_buffer f, f_begin := f_begin f\<rparr>)"
    using False by (simp add: make_room_def fifo_tail_room [OF inv])
  moreover have "f_begin f + f_used f + n \<le> fifo_size f"
    using False inv unfolding fifo_inv_def by linarith
  ultimately show ?thesis using moved_refl [OF inv] by blast
next
  case True
  obtain b where b: "fifo_begin f = (Ret 0, f\<lparr>f_buffer := b, f_begin := 0\<rparr>)" "moved f b 0"
    using fifo_begin_spec [OF inv] re by auto
  have "b_capacity b \<noteq> 0"
    using b(2) sz by (auto simp: moved_def buffer_inv_def fifo_size_def buffer_size_def)
  then obtain m where m: "b_ptr b = Some m" "length m = b_capacity b"
    using b(2) by (auto simp: moved_def elim: buffer_inv_nonempty)
  have "f_used f \<le> length m"
    using b(2) m by (auto simp: moved_def buffer_inv_def fifo_size_def buffer_size_def)
  then have "buffer_memmove 0 0 (f_used f) b = (Ret (), b)"
    using m mem_move_self [of 0 "f_used f" m] by (simp add: buffer_memmove_def)
  then have "make_room n f = (Ret (), f\<lparr>f_buffer := b, f_begin := 0\<rparr>)"
    using True b(1) by (simp add: make_room_def fifo_tail_room [OF inv] bnd_def thn_def on_buffer_def zoom_def)
  with b(2) show ?thesis by blast
qed

text \<open>
  Storing \<open>xs\<close> behind the data and counting them: the step \<open>write\<close> and \<open>copy\<close> share.
\<close>

lemma buffer_store_behind:
  assumes b: "buffer_inv b" and fit: "k + u + length xs \<le> b_used b" and xs: "xs \<noteq> []"
  shows "\<exists>b'. buffer_store (k + u) xs b = (Ret (), b') \<and> buffer_inv b' \<and> b_used b' = b_used b \<and>
     b_capacity b' = b_capacity b \<and> b_ownMem b' = b_ownMem b \<and>
     take (u + length xs) (drop k (contents b')) = take u (drop k (contents b)) @ xs"
proof -
  from b fit have cap: "k + u + length xs \<le> b_capacity b" by (simp add: buffer_inv_def)
  obtain m where m: "b_ptr b = Some m" "length m = b_capacity b"
    "buffer_store (k + u) xs b =
       (Ret (), b\<lparr>b_ptr := Some (take (k + u) m @ xs @ drop (k + u + length xs) m)\<rparr>)"
    using buffer_store_spec [OF b cap xs] .
  obtain M where M: "M = take (k + u) m @ xs @ drop (k + u + length xs) m" by blast
  have len: "length M = b_capacity b" using M m(2) cap by simp
  have "take (u + length xs) (drop k (take (b_used b) M)) = take (u + length xs) (drop k M)"
    using fit by (intro take_drop_within) simp
  also have "\<dots> = take u (drop k m) @ xs"
    using M m(2) cap by (simp add: drop_take)
  also have "take u (drop k m) = take u (drop k (take (b_used b) m))"
    using fit by (intro take_drop_within [symmetric]) simp
  finally have "take (u + length xs) (drop k (contents (b\<lparr>b_ptr := Some M\<rparr>))) = take u (drop k (contents b)) @ xs"
    using m(1) by (simp add: contents_def)
  then show ?thesis
    using m(3) buffer_inv_set_ptr [OF b len] unfolding M [symmetric]
    by (intro exI [of _ "b\<lparr>b_ptr := Some M\<rparr>"] conjI) simp_all
qed

subsection \<open>What the operations compute\<close>

definition edge_signals :: "nat \<Rightarrow> nat \<Rightarrow> nat \<Rightarrow> signal list" where
  "edge_signals before after cap =
     (if before = 0 \<and> 0 < after then [Readable True]
      else if 0 < before \<and> after = 0 then [Readable False] else []) @
     (if before = cap \<and> after < cap then [Writable True]
      else if before < cap \<and> after = cap then [Writable False] else [])"

lemma notify_signals_edge: "notify_signals u f = edge_signals u (f_used f) (fifo_size f)"
  by (auto simp: notify_signals_def edge_signals_def)

definition fifo_tells :: "'a fifo \<Rightarrow> nat \<Rightarrow> signal list" where
  "fifo_tells f after = (if f_notify f then edge_signals (f_used f) after (fifo_size f) else [])"

text \<open>The four kinds of change: compaction, data added, data removed, nothing.\<close>

definition compacted :: "'a fifo \<Rightarrow> 'a fifo \<Rightarrow> bool" where
  "compacted f g \<longleftrightarrow> fifo_inv g \<and> same_frame f g \<and> f_signals g = f_signals f \<and>
     f_used g = f_used f \<and> fifo_content g = fifo_content f"

definition appended :: "'a fifo \<Rightarrow> 'a cell list \<Rightarrow> 'a fifo \<Rightarrow> bool" where
  "appended f xs g \<longleftrightarrow> fifo_inv g \<and> same_frame f g \<and> fifo_content g = fifo_content f @ xs \<and>
     f_signals g = f_signals f @ fifo_tells f (f_used f + length xs)"

definition removed :: "'a fifo \<Rightarrow> nat \<Rightarrow> 'a fifo \<Rightarrow> bool" where
  "removed f n g \<longleftrightarrow> fifo_inv g \<and> same_frame f g \<and> fifo_content g = drop n (fifo_content f) \<and>
     f_signals g = f_signals f @ fifo_tells f (f_used f - n)"

lemma compacted_refl: "fifo_inv f \<Longrightarrow> compacted f f"
  by (simp add: compacted_def same_frame_def)

lemma moved_compacted: "moved f b k \<Longrightarrow> compacted f (f\<lparr>f_buffer := b, f_begin := k\<rparr>)"
  using moved_inv [of f b k] by (simp add: compacted_def same_frame_def)

lemma appended_inv: "appended f xs g \<Longrightarrow> fifo_inv g"
  by (simp add: appended_def)

lemma removed_inv: "removed f n g \<Longrightarrow> fifo_inv g"
  by (simp add: removed_def)

lemma compacted_begin:
  assumes "fifo_inv f" "can_lock (f_mutex f)"
  obtains g where "fifo_begin f = (Ret 0, g)" "compacted f g" "f_begin g = 0"
proof -
  obtain b where "fifo_begin f = (Ret 0, f\<lparr>f_buffer := b, f_begin := 0\<rparr>)" "moved f b 0"
    using fifo_begin_spec [OF assms] by blast
  then show thesis using that moved_compacted by fastforce
qed

lemma compacted_make_room:
  assumes "fifo_inv f" "reentrant f" "0 < fifo_size f"
  obtains g where "make_room n f = (Ret (), g)" "compacted f g"
    "f_begin g = 0 \<or> f_begin g + f_used f + n \<le> fifo_size f"
proof -
  obtain b k where "make_room n f = (Ret (), f\<lparr>f_buffer := b, f_begin := k\<rparr>)" "moved f b k"
    "k = 0 \<or> k + f_used f + n \<le> fifo_size f"
    using make_room_spec [OF assms] by blast
  then show thesis using that moved_compacted by fastforce
qed

text \<open>Leaving the locked block.\<close>

lemma same_frame_locked:
  "same_frame (f\<lparr>f_mutex := m\<rparr>) g \<Longrightarrow> same_frame f (g\<lparr>f_mutex := f_mutex f\<rparr>)"
  by (simp add: same_frame_def)

lemma appended_locked:
  "appended (f\<lparr>f_mutex := m\<rparr>) xs g \<Longrightarrow> appended f xs (g\<lparr>f_mutex := f_mutex f\<rparr>)"
  by (simp add: appended_def same_frame_def fifo_tells_def)

lemma removed_locked:
  "removed (f\<lparr>f_mutex := m\<rparr>) n g \<Longrightarrow> removed f n (g\<lparr>f_mutex := f_mutex f\<rparr>)"
  by (simp add: removed_def same_frame_def fifo_tells_def)

lemma compacted_locked:
  "compacted (f\<lparr>f_mutex := m\<rparr>) g \<Longrightarrow> compacted f (g\<lparr>f_mutex := f_mutex f\<rparr>)"
  by (simp add: compacted_def same_frame_def)

lemma fifo_inv_signals [simp]: "fifo_inv (f\<lparr>f_signals := x\<rparr>) = fifo_inv f"
  by (simp add: fifo_inv_def fifo_size_def)

lemma fifo_size_updates [simp]:
  "fifo_size (f\<lparr>f_signals := x\<rparr>) = fifo_size f" "fifo_size (f\<lparr>f_used := n\<rparr>) = fifo_size f"
  "fifo_size (f\<lparr>f_begin := n\<rparr>) = fifo_size f" "fifo_size (f\<lparr>f_error := e\<rparr>) = fifo_size f"
  "fifo_size (f\<lparr>f_eof := e\<rparr>) = fifo_size f" "fifo_size (f\<lparr>f_notify := e\<rparr>) = fifo_size f"
  by (simp_all add: fifo_size_def)

lemma notify_if_eq:
  "notify_if u f = (Ret (), f\<lparr>f_signals := f_signals f @
     (if f_notify f then edge_signals u (f_used f) (fifo_size f) else [])\<rparr>)"
  by (simp add: notify_if_def notify_signals_edge)

text \<open>The state after \<open>xs\<close> have been stored behind compacted data and counted.\<close>

lemma appended_store:
  assumes c: "compacted f g" and k: "f_begin g = k"
    and fit: "k + f_used f + length xs \<le> fifo_size f" and xs: "xs \<noteq> []"
  obtains b where "buffer_store (k + f_used f) xs (f_buffer g) = (Ret (), b)"
    "b_used b = fifo_size f"
    "appended f xs (g\<lparr>f_buffer := b, f_used := f_used f + length xs,
       f_signals := f_signals f @ fifo_tells f (f_used f + length xs)\<rparr>)"
proof -
  have g: "buffer_inv (f_buffer g)" "b_used (f_buffer g) = fifo_size f" "f_used g = f_used f"
    using c by (auto simp: compacted_def fifo_inv_def same_frame_def fifo_size_def buffer_size_def)
  obtain b where b: "buffer_store (k + f_used f) xs (f_buffer g) = (Ret (), b)" "buffer_inv b"
    "b_used b = fifo_size f"
    "take (f_used f + length xs) (drop k (contents b)) = take (f_used f) (drop k (contents (f_buffer g))) @ xs"
    using buffer_store_behind [OF g(1), of k "f_used f" xs] fit xs g(2) by auto
  have "fifo_content g = fifo_content f" using c by (simp add: compacted_def)
  then have "take (f_used f) (drop k (contents (f_buffer g))) = fifo_content f"
    using k g(3) by (simp add: fifo_content_def [of g])
  with b fit c k g show thesis
    by (intro that [of b])
      (auto simp: appended_def compacted_def same_frame_def fifo_inv_def fifo_size_def buffer_size_def
        fifo_content_def)
qed

lemma put_data_spec:
  assumes c: "compacted f f2" and re: "reentrant f2"
    and len: "0 < n" "n \<le> length data" "f_used f + n \<le> fifo_size f"
  shows "\<exists>g. put_data data (f_used f) n f2 = (Ret n, g) \<and> appended f (take n data) g"
proof -
  have i2: "fifo_inv f2" using c by (simp add: compacted_def)
  obtain f3 where f3: "fifo_begin f2 = (Ret 0, f3)" "compacted f2 f3" "f_begin f3 = 0"
    by (rule compacted_begin [OF i2 reentrant_can_lock [OF re]])
  have c3: "compacted f f3"
    using c f3(2) by (auto simp: compacted_def same_frame_def)
  then have i3: "f_used f3 = f_used f" "f_notify f3 = f_notify f" "f_signals f3 = f_signals f"
    "fifo_size f < array_max"
    using fifo_size_less [of f3] by (auto simp: compacted_def same_frame_def)
  let ?xs = "take n data"
  have lx: "length ?xs = n" "?xs \<noteq> []" using len by auto
  then have fit: "0 + f_used f + length ?xs \<le> fifo_size f" using len by simp
  obtain b where b: "buffer_store (0 + f_used f) ?xs (f_buffer f3) = (Ret (), b)" "b_used b = fifo_size f"
    "appended f ?xs (f3\<lparr>f_buffer := b, f_used := f_used f + length ?xs,
       f_signals := f_signals f @ fifo_tells f (f_used f + length ?xs)\<rparr>)"
    by (rule appended_store [OF c3 f3(3) fit lx(2)])
  have add: "sz_add (f_used f) n = f_used f + n"
    using i3(4) array_max_less_size_max len by simp
  have sz: "fifo_size (f3\<lparr>f_buffer := b\<rparr>) = fifo_size f"
    using b(2) by (simp add: fifo_size_def buffer_size_def)
  have "put_data data (f_used f) n f2 = (Ret n, f3\<lparr>f_buffer := b, f_used := f_used f + n,
       f_signals := f_signals f @ fifo_tells f (f_used f + n)\<rparr>)"
    using len(3) b(1) by (simp add: put_data_def f3(1) bnd_def thn_def on_buffer_def zoom_def i3 add sz
        notify_if_eq fifo_tells_def)
  with b(3) lx(1) show ?thesis by auto
qed

lemma fifo_write_spec:
  assumes inv: "fifo_inv f" and re: "reentrant f" and d: "data \<noteq> []" and w: "is_writable f"
  shows "\<exists>g. fifo_write data f = (Ret (min (length data) (fifo_size f - f_used f)), g) \<and>
     appended f (take (fifo_size f - f_used f) data) g"
proof -
  let ?f = "f\<lparr>f_mutex := locked (f_mutex f)\<rparr>"
  let ?len = "min (length data) (fifo_size f - f_used f)"
  have uw: "f_used f < fifo_size f" using w inv by (simp add: is_writable_iff)
  have f1: "fifo_inv ?f" "reentrant ?f" "0 < fifo_size ?f" using inv re uw by auto
  obtain f2 where f2: "make_room (length data) ?f = (Ret (), f2)" "compacted ?f f2"
    "f_begin f2 = 0 \<or> f_begin f2 + f_used f + length data \<le> fifo_size f"
    using compacted_make_room [OF f1, of "length data"] by auto
  have i2: "fifo_inv f2" "reentrant f2" "f_used f2 = f_used f" "fifo_size f2 = fifo_size f"
    using f2(2) re by (auto simp: compacted_def same_frame_def reentrant_def)
  define avail where "avail = fifo_size f - f_used f - f_begin f2"
  have room: "sz_sub (sz_sub (fifo_size f) (f_used f)) (f_begin f2) = avail"
    using fifo_write_room [OF i2(1)] i2 by (simp add: avail_def)
  have len: "(if length data > avail then avail else length data) = ?len"
    using f2(3) by (auto simp: avail_def)
  have "\<exists>g. put_data data (f_used ?f) ?len f2 = (Ret ?len, g) \<and> appended ?f (take ?len data) g"
    by (rule put_data_spec [OF f2(2) i2(2)]) (use uw d in auto)
  then obtain g where g: "put_data data (f_used f) ?len f2 = (Ret ?len, g)" "appended ?f (take ?len data) g"
    by auto
  have wr: "is_writable ?f" using w by (simp add: is_writable_def is_full_def is_valid_def)
  have d0: "\<not> 0 = length data" using d by simp
  have "fifo_write data f = (Ret ?len, g\<lparr>f_mutex := f_mutex f\<rparr>)"
    unfolding fifo_write_def if_not_P [OF d0]
  proof (rule fifo_locked_Ret, goal_cases)
    case 1
    show ?case using re by (rule reentrant_can_lock)
  next
    case 2
    show ?case
      using g(1) by (simp add: wr f2(1) thn_def bnd_def i2 room len cong: if_cong split del: if_split)
  next
    case 3
    show ?case using g(2) by (simp add: appended_def same_frame_def)
  qed
  moreover have "appended f (take ?len data) (g\<lparr>f_mutex := f_mutex f\<rparr>)"
    using g(2) by (rule appended_locked)
  moreover have "take ?len data = take (fifo_size f - f_used f) data" by (simp add: min_def)
  ultimately show ?thesis by auto
qed

lemma fifo_write_nothing:
  assumes "can_lock (f_mutex f)" "data = [] \<or> \<not> is_writable f"
  shows "fifo_write data f = (Ret 0, f)"
proof (cases "data = []")
  case True
  then show ?thesis by (simp add: fifo_write_def)
next
  case False
  with assms have "\<not> is_writable (f\<lparr>f_mutex := locked (f_mutex f)\<rparr>)"
    by (simp add: is_writable_def is_full_def is_valid_def)
  with False assms(1) show ?thesis
    by (auto simp: fifo_write_def intro!: fifo_locked_pure)
qed

lemma edge_signals_same [simp]: "edge_signals u u cap = []"
  by (auto simp: edge_signals_def)

lemma appended_refl: "fifo_inv f \<Longrightarrow> appended f [] f"
  by (simp add: appended_def same_frame_def fifo_tells_def)

lemma removed_refl: "fifo_inv f \<Longrightarrow> removed f 0 f"
  by (simp add: removed_def same_frame_def fifo_tells_def)

text \<open>The state in which \<open>n\<close> of the data have been taken off the front.\<close>

definition take_off :: "nat \<Rightarrow> 'a fifo \<Rightarrow> 'a fifo" where
  "take_off n f = (if n \<ge> f_used f then f\<lparr>f_begin := 0, f_used := 0\<rparr>
     else f\<lparr>f_begin := f_begin f + n, f_used := f_used f - n\<rparr>)"

lemma removed_take_off:
  assumes "fifo_inv f" "n \<le> f_used f"
  shows "removed f n ((take_off n f)\<lparr>f_signals := f_signals f @ fifo_tells f (f_used f - n)\<rparr>)"
proof -
  have "fifo_inv (take_off n f)"
    using assms by (auto simp: take_off_def fifo_inv_def fifo_size_def)
  moreover have "fifo_content (take_off n f) = drop n (fifo_content f)"
    using assms
    by (auto simp: take_off_def fifo_content_def drop_take add.commute)
  ultimately show ?thesis
    by (auto simp: removed_def same_frame_def fifo_content_def take_off_def)
qed

lemma fifo_drain_spec:
  assumes inv: "fifo_inv f" and lk: "can_lock (f_mutex f)"
  shows "\<exists>g. fifo_drain n f = (Ret (), g) \<and>
     removed f (if n = 0 then f_used f else min n (f_used f)) g"
proof -
  let ?n = "if n = 0 then f_used f else min n (f_used f)"
  let ?f = "f\<lparr>f_mutex := locked (f_mutex f)\<rparr>"
  let ?g = "(take_off ?n ?f)\<lparr>f_signals := f_signals ?f @ fifo_tells ?f (f_used ?f - ?n)\<rparr>"
  have lt: "f_begin f + f_used f < size_max"
    using fifo_size_less [OF inv] array_max_less_size_max inv by (simp add: fifo_inv_def)
  have small: "n < f_used f \<Longrightarrow> sz_add (f_begin f) n = f_begin f + n"
    "n < f_used f \<Longrightarrow> sz_sub (f_used f) n = f_used f - n"
    using lt by auto
  have "fifo_drain n f = (Ret (), ?g\<lparr>f_mutex := f_mutex f\<rparr>)"
    unfolding fifo_drain_def
  proof (rule fifo_locked_Ret [OF lk], goal_cases)
    case 1
    show ?case
    proof (cases "n = 0 \<or> f_used f \<le> n")
      case True
      then show ?thesis
        by (auto simp: bnd_def thn_def take_off_def notify_if_eq fifo_tells_def)
    next
      case False
      then show ?thesis
        by (simp add: bnd_def thn_def take_off_def notify_if_eq fifo_tells_def small)
    qed
  next
    case 2
    show ?case by (simp add: take_off_def)
  qed
  moreover have "removed ?f ?n ?g" using inv by (intro removed_take_off) auto
  then have "removed f ?n (?g\<lparr>f_mutex := f_mutex f\<rparr>)" by (rule removed_locked)
  ultimately show ?thesis by blast
qed

lemma fifo_peek_spec:
  assumes inv: "fifo_inv f" and lk: "can_lock (f_mutex f)"
  shows "fifo_peek n f = (Ret (if is_readable f then take n (fifo_content f) else []), f)"
proof (cases "n = 0 \<or> \<not> is_readable f")
  case True
  let ?f = "f\<lparr>f_mutex := locked (f_mutex f)\<rparr>"
  have "is_readable ?f = is_readable f" by (simp add: is_readable_iff)
  with True lk show ?thesis by (auto simp: fifo_peek_def intro!: fifo_locked_pure)
next
  case False
  let ?f = "f\<lparr>f_mutex := locked (f_mutex f)\<rparr>"
  let ?k = "if n > f_used f then f_used f else n"
  have u: "0 < f_used f" "\<not> f_error f" using False by (auto simp: is_readable_iff)
  have b: "buffer_inv (f_buffer f)" "f_begin f + f_used f \<le> b_used (f_buffer f)"
    using inv by (auto simp: fifo_inv_def fifo_size_def buffer_size_def)
  then have "b_capacity (f_buffer f) \<noteq> 0" using u by (auto simp: buffer_inv_def)
  then obtain m where m: "b_ptr (f_buffer f) = Some m" "length m = b_capacity (f_buffer f)"
    using b(1) by (auto elim: buffer_inv_nonempty)
  have k: "?k \<le> f_used f" by simp
  have len: "f_begin f + ?k \<le> length m" using b m by (auto simp: buffer_inv_def)
  have "take ?k (drop (f_begin f) (take (b_used (f_buffer f)) m)) = take ?k (drop (f_begin f) m)"
    using b(2) k by (intro take_drop_within) linarith
  then have out: "take ?k (drop (f_begin f) m) = take n (fifo_content f)"
    using m(1) by (auto simp: fifo_content_def contents_def min_def)
  have "buffer_load (f_begin f) ?k (f_buffer f) = (Ret (take n (fifo_content f)), f_buffer f)"
    using m(1) len out by (simp add: buffer_load_def)
  then have "fifo_peek n f = (Ret (take n (fifo_content f)), f)"
    using False u lk
    by (auto simp: fifo_peek_def is_readable_iff bnd_def on_buffer_def zoom_def intro!: fifo_locked_pure
        cong: if_cong split del: if_split)
  with False show ?thesis by simp
qed

lemma fifo_read_spec:
  assumes inv: "fifo_inv f" and re: "reentrant f"
  shows "\<exists>g. fifo_read n f = (Ret (if is_readable f then take n (fifo_content f) else []), g) \<and>
     removed f (if is_readable f then min n (f_used f) else 0) g"
proof (cases "n = 0 \<or> \<not> is_readable f")
  case True
  let ?f = "f\<lparr>f_mutex := locked (f_mutex f)\<rparr>"
  have "is_readable ?f = is_readable f" by (simp add: is_readable_iff)
  with True re have "fifo_read n f = (Ret [], f)"
    by (auto simp: fifo_read_def intro!: fifo_locked_pure)
  with True removed_refl [OF inv] show ?thesis by auto
next
  case False
  let ?f = "f\<lparr>f_mutex := locked (f_mutex f)\<rparr>"
  let ?k = "min n (f_used f)"
  let ?out = "take n (fifo_content f)"
  have u: "0 < f_used f" "\<not> f_error f" using False by (auto simp: is_readable_iff)
  have f1: "fifo_inv ?f" "can_lock (f_mutex ?f)" using inv re by (auto simp: reentrant_def)
  have peek: "fifo_peek n ?f = (Ret ?out, ?f)"
    using fifo_peek_spec [OF f1, of n] u by (simp add: is_readable_iff)
  have lo: "length ?out = ?k" using inv by (simp add: min.commute)
  have n0: "\<not> 0 = n" using False by simp
  have lt: "f_begin f + f_used f < size_max" "f_used f < size_max"
    using fifo_size_less [OF inv] array_max_less_size_max inv by (auto simp: fifo_inv_def)
  let ?g = "(take_off ?k ?f)\<lparr>f_signals := f_signals ?f @ fifo_tells ?f (f_used ?f - ?k)\<rparr>"
  have small: "sz_sub (f_used f) ?k = f_used f - ?k"
    "n < f_used f \<Longrightarrow> sz_add (f_begin f) n = f_begin f + n"
    using lt by auto
  have rd: "is_readable ?f" using u by (simp add: is_readable_iff)
  have "fifo_read n f = (Ret ?out, ?g\<lparr>f_mutex := f_mutex f\<rparr>)"
    unfolding fifo_read_def if_not_P [OF n0]
  proof (rule fifo_locked_Ret [OF reentrant_can_lock [OF re]], goal_cases)
    case 1
    show ?case
    proof (cases "f_used f \<le> n")
      case True
      then show ?thesis using small(1) u
        by (simp add: bnd_def thn_def rd peek fifo_content_length [OF inv] min.commute take_off_def notify_if_eq fifo_tells_def)
    next
      case False
      then show ?thesis using small
        by (simp add: bnd_def thn_def rd peek fifo_content_length [OF inv] min.commute take_off_def notify_if_eq fifo_tells_def)
    qed
  next
    case 2
    show ?case by (simp add: take_off_def)
  qed
  moreover have "removed ?f ?k ?g" using inv by (intro removed_take_off) auto
  then have "removed f ?k (?g\<lparr>f_mutex := f_mutex f\<rparr>)" by (rule removed_locked)
  ultimately show ?thesis using False by auto
qed

text \<open>\<open>copy\<close> and \<open>advance\<close>: the checks they make, in their order, and their effect.\<close>

lemma fifo_copy_spec:
  assumes inv: "fifo_inv f" and re: "reentrant f" and d: "data \<noteq> []"
    and w: "is_writable f" "length data \<le> fifo_available f"
  shows "\<exists>g. fifo_copy data f = (Ret (), g) \<and> appended f data g"
proof -
  let ?f = "f\<lparr>f_mutex := locked (f_mutex f)\<rparr>"
  have i1: "fifo_inv ?f" "can_lock (f_mutex ?f)" using inv re by (auto simp: reentrant_def)
  obtain g where g: "fifo_begin ?f = (Ret 0, g)" "compacted ?f g" "f_begin g = 0"
    by (rule compacted_begin [OF i1])
  have fit: "0 + f_used ?f + length data \<le> fifo_size ?f"
    using w(2) fifo_available_eq [OF inv] fifo_used_le [OF inv] by simp
  obtain b where b: "buffer_store (0 + f_used ?f) data (f_buffer g) = (Ret (), b)" "b_used b = fifo_size ?f"
    "appended ?f data (g\<lparr>f_buffer := b, f_used := f_used ?f + length data,
       f_signals := f_signals ?f @ fifo_tells ?f (f_used ?f + length data)\<rparr>)" (is "appended _ _ ?g")
    by (rule appended_store [OF g(2,3) fit d])
  have ig: "f_used g = f_used f" "f_notify g = f_notify f" "f_signals g = f_signals f"
    "fifo_size (g\<lparr>f_buffer := b\<rparr>) = fifo_size f" "f_mutex g = locked (f_mutex f)"
    using g(2) b(2) by (auto simp: compacted_def same_frame_def fifo_size_def buffer_size_def)
  have add: "sz_add (f_used f) (length data) = f_used f + length data"
    using fit fifo_size_less [OF inv] array_max_less_size_max by simp
  have ok: "\<not> length data > fifo_available ?f" "is_writable ?f" "\<not> 0 = length data"
    using w d by (auto simp: is_writable_def is_full_def is_valid_def fifo_available_def)
  have "fifo_copy data f = (Ret (), ?g\<lparr>f_mutex := f_mutex f\<rparr>)"
    unfolding fifo_copy_def if_not_P [OF ok(3)]
  proof (rule fifo_locked_Ret [OF reentrant_can_lock [OF re]], goal_cases)
    case 1
    show ?case using ok(1,2) b(1)
      by (simp add: g(1) bnd_def thn_def on_buffer_def zoom_def ig add notify_if_eq fifo_tells_def)
  next
    case 2
    show ?case by (simp add: ig)
  qed
  with b(3) show ?thesis using appended_locked by blast
qed

lemma fifo_copy_error:
  assumes "can_lock (f_mutex f)" "data \<noteq> []" "length data > fifo_available f \<or> \<not> is_writable f"
  shows "fifo_copy data f = (Fail (Thrown (Runtime_error
     (if length data > fifo_available f then extend_msg else not_writable_msg))), f)"
proof -
  let ?f = "f\<lparr>f_mutex := locked (f_mutex f)\<rparr>"
  have "fifo_available ?f = fifo_available f" "is_writable ?f = is_writable f"
    by (simp_all add: is_writable_def is_full_def is_valid_def fifo_available_def)
  with assms show ?thesis by (auto simp: fifo_copy_def intro!: fifo_locked_throws)
qed

text \<open>\<open>advance\<close> publishes \<open>n\<close> cells that were stored behind the data beforehand, which is
  sound when the data are already at the front (as after \<open>next()\<close>).\<close>

lemma fifo_advance_spec:
  assumes inv: "fifo_inv f" and lk: "can_lock (f_mutex f)" and w: "is_writable f" "n \<le> fifo_available f"
    and room: "f_begin f + f_used f + n \<le> fifo_size f"
  shows "\<exists>g. fifo_advance n f = (Ret (), g) \<and>
     appended f (take n (drop (f_begin f + f_used f) (contents (f_buffer f)))) g"
proof -
  let ?f = "f\<lparr>f_mutex := locked (f_mutex f)\<rparr>"
  let ?xs = "take n (drop (f_begin f + f_used f) (contents (f_buffer f)))"
  let ?g = "?f\<lparr>f_used := f_used f + n, f_signals := f_signals f @ fifo_tells f (f_used f + n)\<rparr>"
  have sz: "b_used (f_buffer f) = fifo_size f" by (simp add: fifo_size_def buffer_size_def)
  have bi: "buffer_inv (f_buffer f)" using inv by (simp add: fifo_inv_def)
  have lx: "length ?xs = n" using room bi sz by simp
  have mr: "make_room n ?f = (Ret (), ?f)"
    using fifo_tail_room [OF inv] room by (simp add: make_room_def)
  have add: "sz_add (f_used f) n = f_used f + n"
    using room fifo_size_less [OF inv] array_max_less_size_max by simp
  have ok: "\<not> n > fifo_available ?f" "is_writable ?f"
    using w by (auto simp: is_writable_def is_full_def is_valid_def fifo_available_def)
  have run: "fifo_advance n f = (Ret (), ?g\<lparr>f_mutex := f_mutex f\<rparr>)"
    unfolding fifo_advance_def
  proof (rule fifo_locked_Ret [OF lk], goal_cases)
    case 1
    show ?case using ok by (simp add: bnd_def thn_def mr add notify_if_eq fifo_tells_def)
  next
    case 2
    show ?case by simp
  qed
  have "take (f_used f + n) (drop (f_begin f) (contents (f_buffer f))) = fifo_content f @ ?xs"
    by (simp only: take_add fifo_content_def drop_drop add.commute [of "f_used f" "f_begin f"])
  with lx room inv have "appended f ?xs (?g\<lparr>f_mutex := f_mutex f\<rparr>)"
    by (simp add: appended_def same_frame_def fifo_inv_def fifo_content_def fifo_size_def)
  with run show ?thesis by blast
qed

lemma fifo_advance_error:
  assumes "can_lock (f_mutex f)" "n > fifo_available f \<or> \<not> is_writable f"
  shows "fifo_advance n f = (Fail (Thrown (Runtime_error
     (if n > fifo_available f then extend_msg else not_writable_msg))), f)"
proof -
  let ?f = "f\<lparr>f_mutex := locked (f_mutex f)\<rparr>"
  have "fifo_available ?f = fifo_available f" "is_writable ?f = is_writable f"
    by (simp_all add: is_writable_def is_full_def is_valid_def fifo_available_def)
  with assms show ?thesis by (auto simp: fifo_advance_def intro!: fifo_locked_throws)
qed

lemma fifo_at_spec:
  assumes inv: "fifo_inv f" and lk: "can_lock (f_mutex f)"
  shows "fifo_at i f = (if i < f_used f then (Ret (fifo_content f ! i), f)
     else (Fail (Thrown (Runtime_error index_msg)), f))"
proof (cases "i < f_used f")
  case False
  with lk show ?thesis by (auto simp: fifo_at_def intro!: fifo_locked_throws)
next
  case True
  have b: "buffer_inv (f_buffer f)" "f_begin f + f_used f \<le> b_used (f_buffer f)"
    "f_begin f + f_used f < size_max"
    using inv fifo_size_less [OF inv] array_max_less_size_max
    by (auto simp: fifo_inv_def fifo_size_def buffer_size_def)
  then have "buffer_at (f_begin f + i) (f_buffer f) = (Ret (fifo_content f ! i), f_buffer f)"
    using True by (simp add: buffer_at_spec fifo_content_def)
  with True lk b(3) show ?thesis
    by (auto simp: fifo_at_def bnd_def on_buffer_def zoom_def intro!: fifo_locked_pure)
qed

subsection \<open>resize\<close>

lemma fifo_resize_error:
  assumes lk: "can_lock (f_mutex f)" and inv: "fifo_inv f"
  shows "p \<and> n < f_used f \<Longrightarrow> fifo_resize n p f = (Fail (Thrown (Runtime_error resize_msg)), f)"
    and "\<not> (p \<and> n < f_used f) \<Longrightarrow> \<not> b_ownMem (f_buffer f) \<Longrightarrow>
      fifo_resize n p f = (Fail (Thrown (Runtime_error not_owner_msg)), f)"
    and "\<not> (p \<and> n < f_used f) \<Longrightarrow> b_ownMem (f_buffer f) \<Longrightarrow> array_max \<le> n \<Longrightarrow>
      fifo_resize n p f = (Fail (Thrown Bad_array_length), f)"
    and "\<not> (p \<and> n < f_used f) \<Longrightarrow> b_ownMem (f_buffer f) \<Longrightarrow> n = 0 \<Longrightarrow>
      fst (fifo_resize n p f) = Fail Abort"
proof -
  let ?f = "f\<lparr>f_mutex := locked (f_mutex f)\<rparr>"
  have bi: "buffer_inv (f_buffer f)" using inv by (simp add: fifo_inv_def)
  show "p \<and> n < f_used f \<Longrightarrow> fifo_resize n p f = (Fail (Thrown (Runtime_error resize_msg)), f)"
    using lk by (auto simp: fifo_resize_def intro!: fifo_locked_throws)
  show "\<not> (p \<and> n < f_used f) \<Longrightarrow> \<not> b_ownMem (f_buffer f) \<Longrightarrow>
      fifo_resize n p f = (Fail (Thrown (Runtime_error not_owner_msg)), f)"
    using lk by (auto simp: fifo_resize_def bnd_def thn_def on_buffer_def zoom_def
        buffer_resize_not_owner intro!: fifo_locked_throws)
  show "\<not> (p \<and> n < f_used f) \<Longrightarrow> b_ownMem (f_buffer f) \<Longrightarrow> array_max \<le> n \<Longrightarrow>
      fifo_resize n p f = (Fail (Thrown Bad_array_length), f)"
    using lk bi by (auto simp: fifo_resize_def bnd_def thn_def on_buffer_def zoom_def
        buffer_resize_too_large intro!: fifo_locked_throws)
  show "\<not> (p \<and> n < f_used f) \<Longrightarrow> b_ownMem (f_buffer f) \<Longrightarrow> n = 0 \<Longrightarrow>
      fst (fifo_resize n p f) = Fail Abort"
    using lk by (simp add: fifo_resize_def fifo_locked_def with_lock_free on_exit_def bnd_def thn_def
        on_buffer_def zoom_def buffer_resize_zero)
qed

lemma fifo_resize_spec:
  assumes lk: "can_lock (f_mutex f)" and inv: "fifo_inv f" and own: "b_ownMem (f_buffer f)"
    and n: "0 < n" "n < array_max" and fit: "p \<Longrightarrow> f_used f \<le> n"
  shows "\<exists>g b. fifo_resize n p f = (Ret (), g) \<and> buffer_inv b \<and> b_ownMem b \<and>
     b_capacity b = max n (b_capacity (f_buffer f)) \<and> b_used b = n \<and>
     (p \<longrightarrow> take (min n (fifo_size f)) (contents b) = take (min n (fifo_size f)) (contents (f_buffer f))) \<and>
     g = f\<lparr>f_buffer := b, f_used := (if p then f_used f else 0), f_signals := f_signals f @
       (if f_notify f then edge_signals (f_used f) (if p then f_used f else 0) n else [])\<rparr>"
proof -
  let ?f = "f\<lparr>f_mutex := locked (f_mutex f)\<rparr>"
  have bi: "buffer_inv (f_buffer f)" using inv by (simp add: fifo_inv_def)
  have sz: "fifo_size f = b_used (f_buffer f)" by (simp add: fifo_size_def buffer_size_def)
  have "\<exists>b. buffer_resize n p (f_buffer f) = (Ret (), b) \<and> buffer_inv b \<and> b_ownMem b \<and>
      b_capacity b = max n (b_capacity (f_buffer f)) \<and> b_used b = n \<and>
      (p \<longrightarrow> take (min n (fifo_size f)) (contents b) = take (min n (fifo_size f)) (contents (f_buffer f)))"
  proof (cases "n \<le> b_capacity (f_buffer f)")
    case True
    with own n bi sz show ?thesis
      by (cases "b_ptr (f_buffer f)")
        (auto simp: buffer_resize_within buffer_inv_set_used contents_def min_def max_def)
  next
    case False
    let ?m = "(if p then contents (f_buffer f) else []) @
       replicate (n - (if p then length (contents (f_buffer f)) else 0)) None"
    have len: "length (contents (f_buffer f)) = fifo_size f" "fifo_size f \<le> n"
      using bi sz False by (auto simp: buffer_inv_def contents_def split: option.splits)
    then have lm: "length ?m = n" by simp
    have "buffer_inv ((f_buffer f)\<lparr>b_capacity := n, b_used := n, b_ptr := Some ?m\<rparr>)"
      using lm n by (intro buffer_inv_set_all) auto
    moreover have "p \<longrightarrow> take (min n (fifo_size f)) ?m = take (min n (fifo_size f)) (contents (f_buffer f))"
      using len by simp
    ultimately show ?thesis
      using buffer_resize_grow [OF own bi, of n p] False n own lm by (simp add: contents_def)
  qed
  then obtain b where b: "buffer_resize n p (f_buffer f) = (Ret (), b)" "buffer_inv b" "b_ownMem b"
      "b_capacity b = max n (b_capacity (f_buffer f))" "b_used b = n"
      "p \<longrightarrow> take (min n (fifo_size f)) (contents b) = take (min n (fifo_size f)) (contents (f_buffer f))"
    by blast
  have szb: "fifo_size (?f\<lparr>f_buffer := b\<rparr>) = n" using b(5) by (simp add: fifo_size_def buffer_size_def)
  have "fifo_resize n p f = (Ret (), f\<lparr>f_mutex := locked (f_mutex f), f_buffer := b,
      f_used := (if p then f_used f else 0), f_signals := f_signals f @
      (if f_notify f then edge_signals (f_used f) (if p then f_used f else 0) n else []),
      f_mutex := f_mutex f\<rparr>)"
    unfolding fifo_resize_def
    by (rule fifo_locked_Ret [OF lk])
      (use fit in \<open>auto simp: bnd_def thn_def on_buffer_def zoom_def b(1) notify_if_eq szb\<close>)
  with b show ?thesis by auto
qed

subsection \<open>The member functions as a datatype; self-deadlock\<close>

datatype 'a fifo_op =
    F_resize nat bool
  | F_peek nat
  | F_read nat
  | F_write "'a cell list"
  | F_drain nat
  | F_copy "'a cell list"
  | F_advance nat
  | F_begin
  | F_next
  | F_at nat
  | F_set_error bool
  | F_set_eof bool
  | F_set_notify bool

definition run_only :: "('s, 'r) prog \<Rightarrow> ('s, unit) prog" where
  "run_only m = bnd m (\<lambda>_. ret ())"

fun fifo_exec :: "'a fifo_op \<Rightarrow> ('a fifo, unit) prog" where
  "fifo_exec (F_resize n p) = fifo_resize n p"
| "fifo_exec (F_peek n) = run_only (fifo_peek n)"
| "fifo_exec (F_read n) = run_only (fifo_read n)"
| "fifo_exec (F_write d) = run_only (fifo_write d)"
| "fifo_exec (F_drain n) = fifo_drain n"
| "fifo_exec (F_copy d) = fifo_copy d"
| "fifo_exec (F_advance n) = fifo_advance n"
| "fifo_exec F_begin = run_only fifo_begin"
| "fifo_exec F_next = run_only fifo_next"
| "fifo_exec (F_at i) = run_only (fifo_at i)"
| "fifo_exec (F_set_error e) = fifo_set_error e"
| "fifo_exec (F_set_eof e) = fifo_set_eof e"
| "fifo_exec (F_set_notify b) = fifo_set_notify b"

text \<open>The calls in which a member function that holds the mutex calls another that locks it.\<close>

fun locks_twice :: "'a fifo \<Rightarrow> 'a fifo_op \<Rightarrow> bool" where
  "locks_twice f (F_read n) = (n \<noteq> 0 \<and> is_readable f)"
| "locks_twice f (F_write d) = (d \<noteq> [] \<and> is_writable f)"
| "locks_twice f (F_copy d) = (d \<noteq> [] \<and> length d \<le> fifo_available f \<and> is_writable f)"
| "locks_twice f (F_advance n) =
     (n \<le> fifo_available f \<and> is_writable f \<and> fifo_size f < f_begin f + f_used f + n)"
| "locks_twice f F_next = True"
| "locks_twice f _ = False"

lemma run_only_outcome: "fst (run_only m s) = (case fst (m s) of Ret x \<Rightarrow> Ret () | Fail e \<Rightarrow> Fail e)"
  by (auto simp: run_only_def bnd_def split: prod.splits outcome.splits)

lemma run_only_state: "snd (run_only m s) = snd (m s)"
  by (auto simp: run_only_def bnd_def split: prod.splits outcome.splits)

text \<open>A locked block whose body, run under the held mutex, ends in a second lock.\<close>

lemma fifo_locked_dead:
  assumes "can_lock (f_mutex f)" "fst (m (f\<lparr>f_mutex := locked (f_mutex f)\<rparr>)) = Fail Deadlock"
  shows "fst (fifo_locked m f) = Fail Deadlock"
  using assms by (auto simp: fifo_locked_def with_lock_free on_exit_def split: prod.splits)

definition plain_mutex :: "'a fifo \<Rightarrow> bool" where
  "plain_mutex f \<longleftrightarrow> m_kind (f_mutex f) = Std_mutex \<and> m_depth (f_mutex f) = 0"

lemma plain_can_lock [simp]: "plain_mutex f \<Longrightarrow> can_lock (f_mutex f)"
  by (simp add: plain_mutex_def)

lemma plain_held: "plain_mutex f \<Longrightarrow> \<not> can_lock (locked (f_mutex f))"
  by (simp add: plain_mutex_def can_lock_def)

lemma inner_lock_dead:
  assumes "plain_mutex f" "f_mutex g = locked (f_mutex f)"
  obtains g' where "fifo_locked m g = (Fail Deadlock, g')"
  using assms fifo_locked_held [of g m] plain_held [OF assms(1)]
  by (cases "fifo_locked m g") auto

lemma deadlock_if:
  assumes inv: "fifo_inv f" and pm: "plain_mutex f" and l: "locks_twice f op"
  shows "fst (fifo_exec op f) = Fail Deadlock"
proof -
  let ?f = "f\<lparr>f_mutex := locked (f_mutex f)\<rparr>"
  have lk: "can_lock (f_mutex f)" using pm by simp
  have q: "is_readable ?f = is_readable f" "is_writable ?f = is_writable f"
    "fifo_available ?f = fifo_available f"
    by (simp_all add: is_readable_iff is_writable_def is_full_def is_valid_def fifo_available_def)
  obtain b where b: "fifo_begin ?f = (Fail Deadlock, b)"
    unfolding fifo_begin_def using inner_lock_dead [OF pm, of ?f] by auto
  have mr: "fst (make_room n ?f) = Fail Deadlock \<or> make_room n ?f = (Ret (), ?f)" for n
    using b by (simp add: make_room_def bnd_def)
  have put: "fst (put_data d u n ?f) = Fail Deadlock" for d u n
    using b by (simp add: put_data_def bnd_def)
  show ?thesis
  proof (cases op)
    case (F_read n)
    then have n: "\<not> 0 = n" "is_readable f" using l by auto
    obtain g where "fifo_peek n ?f = (Fail Deadlock, g)"
      using n inner_lock_dead [OF pm, of ?f] unfolding fifo_peek_def if_not_P [OF n(1)] by auto
    then have "fst (fifo_read n f) = Fail Deadlock"
      unfolding fifo_read_def if_not_P [OF n(1)]
      by (intro fifo_locked_dead [OF lk]) (simp add: n q bnd_def)
    with F_read show ?thesis by (simp add: run_only_outcome)
  next
    case (F_write d)
    then have d: "\<not> 0 = length d" "is_writable f" using l by auto
    have "fst (fifo_write d f) = Fail Deadlock"
      unfolding fifo_write_def if_not_P [OF d(1)]
      using mr [of "length d"] put
      by (intro fifo_locked_dead [OF lk]) (auto simp: d q bnd_def thn_def split: prod.splits)
    with F_write show ?thesis by (simp add: run_only_outcome)
  next
    case (F_copy d)
    then have d: "\<not> 0 = length d" "is_writable f" "\<not> length d > fifo_available f" using l by auto
    have "fst (fifo_copy d f) = Fail Deadlock"
      unfolding fifo_copy_def if_not_P [OF d(1)]
      using b by (intro fifo_locked_dead [OF lk]) (simp add: d q bnd_def)
    with F_copy show ?thesis by simp
  next
    case (F_advance n)
    then have n: "is_writable f" "\<not> n > fifo_available f" "fifo_size f - (f_begin f + f_used f) < n"
      using l inv by (auto simp: fifo_inv_def)
    have "fst (make_room n ?f) = Fail Deadlock"
      using n(3) b fifo_tail_room [OF inv] by (simp add: make_room_def bnd_def)
    then have "fst (fifo_advance n f) = Fail Deadlock"
      unfolding fifo_advance_def
      by (intro fifo_locked_dead [OF lk]) (auto simp: n q bnd_def thn_def split: prod.splits)
    with F_advance show ?thesis by simp
  next
    case F_next
    have "fst (fifo_next f) = Fail Deadlock"
      unfolding fifo_next_def using b by (intro fifo_locked_dead [OF lk]) (simp add: bnd_def)
    with F_next show ?thesis by (simp add: run_only_outcome)
  qed (use l in auto)
qed

lemma fifo_query_updates [simp]:
  "is_readable (f\<lparr>f_mutex := m\<rparr>) = is_readable f" "is_writable (f\<lparr>f_mutex := m\<rparr>) = is_writable f"
  "is_readable (f\<lparr>f_signals := x\<rparr>) = is_readable f" "is_writable (f\<lparr>f_signals := x\<rparr>) = is_writable f"
  "fifo_available (f\<lparr>f_mutex := m\<rparr>) = fifo_available f"
  by (simp_all add: is_readable_iff is_writable_def is_full_def is_valid_def fifo_available_def)

lemma fifo_set_error_True:
  assumes lk: "can_lock (f_mutex f)"
  shows "fifo_set_error True f = (Ret (), f\<lparr>f_error := True, f_used := 0, f_signals := f_signals f @
     (if f_notify f \<and> is_readable f then [Readable False] else []) @
     (if f_notify f \<and> is_writable f then [Writable False] else [])\<rparr>)"
proof -
  let ?g = "f\<lparr>f_mutex := locked (f_mutex f), f_error := True, f_used := 0, f_signals := f_signals f @
     (if f_notify f \<and> is_readable f then [Readable False] else []) @
     (if f_notify f \<and> is_writable f then [Writable False] else [])\<rparr>"
  have "fifo_set_error True f = (Ret (), ?g\<lparr>f_mutex := f_mutex f\<rparr>)"
    unfolding fifo_set_error_def if_True
  proof (rule fifo_locked_Ret [OF lk], goal_cases)
    case 1
    show ?case
      by (cases "f_notify f"; cases "is_readable f"; cases "is_writable f")
        (simp_all add: thn_def bnd_def emit_def)
  next
    case 2
    show ?case by simp
  qed
  then show ?thesis by simp
qed

lemma fifo_set_error_False:
  assumes lk: "can_lock (f_mutex f)"
  shows "fifo_set_error False f = (Ret (), f\<lparr>f_error := False, f_signals := f_signals f @
     (if f_notify f \<and> \<not> f_eof f then [Writable True] else [])\<rparr>)"
proof -
  have "fifo_set_error False f = (Ret (), f\<lparr>f_mutex := locked (f_mutex f), f_error := False,
      f_signals := f_signals f @ (if f_notify f \<and> \<not> f_eof f then [Writable True] else []),
      f_mutex := f_mutex f\<rparr>)"
    unfolding fifo_set_error_def if_False simp_thms
    by (rule fifo_locked_Ret [OF lk]) (simp_all add: thn_def bnd_def emit_def)
  then show ?thesis by simp
qed

lemma fifo_set_eof_eq:
  assumes lk: "can_lock (f_mutex f)"
  shows "fifo_set_eof e f = (Ret (), f\<lparr>f_eof := e, f_signals := f_signals f @
     (if f_notify f then [Writable (\<not> e)] else [])\<rparr>)"
proof -
  have "fifo_set_eof e f = (Ret (), f\<lparr>f_mutex := locked (f_mutex f), f_eof := e,
      f_signals := f_signals f @ (if f_notify f then [Writable (\<not> e)] else []),
      f_mutex := f_mutex f\<rparr>)"
    unfolding fifo_set_eof_def
    by (rule fifo_locked_Ret [OF lk]) (simp_all add: thn_def bnd_def emit_def)
  then show ?thesis by simp
qed

lemma fifo_next_spec:
  assumes inv: "fifo_inv f" and re: "reentrant f"
  shows "\<exists>g. fifo_next f = (Ret (f_used f), g) \<and> compacted f g \<and> f_begin g = 0"
proof -
  let ?f = "f\<lparr>f_mutex := locked (f_mutex f)\<rparr>"
  have i1: "fifo_inv ?f" "can_lock (f_mutex ?f)" using inv re by (auto simp: reentrant_def)
  obtain g where g: "fifo_begin ?f = (Ret 0, g)" "compacted ?f g" "f_begin g = 0"
    by (rule compacted_begin [OF i1])
  have "fifo_next f = (Ret (f_used f), g\<lparr>f_mutex := f_mutex f\<rparr>)"
    unfolding fifo_next_def
    by (rule fifo_locked_Ret [OF reentrant_can_lock [OF re]])
      (use g(2) in \<open>simp_all add: g(1) bnd_def compacted_def same_frame_def\<close>)
  with compacted_locked [OF g(2)] g(3) show ?thesis by auto
qed

text \<open>
  Every operation keeps a re-entrant queue well formed and memory safe, with one exception: a
  \<open>resize\<close> to a size that the data, at their current offset, reach beyond.
\<close>

fun keeps_offset :: "'a fifo \<Rightarrow> 'a fifo_op \<Rightarrow> bool" where
  "keeps_offset f (F_resize n p) = (f_begin f + (if p then f_used f else 0) \<le> n)"
| "keeps_offset f _ = True"

lemma fifo_advance_total:
  assumes inv: "fifo_inv f" and re: "reentrant f" and w: "is_writable f" "n \<le> fifo_available f"
  shows "\<exists>g xs. fifo_advance n f = (Ret (), g) \<and> appended f xs g \<and> length xs = n"
proof -
  let ?f = "f\<lparr>f_mutex := locked (f_mutex f)\<rparr>"
  have i1: "fifo_inv ?f" "reentrant ?f" "0 < fifo_size ?f"
    using inv re w(1) by (auto simp: is_writable_iff)
  have fit: "f_used f + n \<le> fifo_size f"
    using w(2) fifo_available_eq [OF inv] fifo_used_le [OF inv] by simp
  obtain h where h: "make_room n ?f = (Ret (), h)" "compacted ?f h"
    "f_begin h = 0 \<or> f_begin h + f_used f + n \<le> fifo_size f"
    using compacted_make_room [OF i1, of n] by auto
  have ih: "f_used h = f_used f" "f_notify h = f_notify f" "f_signals h = f_signals f"
    "fifo_size h = fifo_size f" "fifo_inv h" "f_mutex h = locked (f_mutex f)" "fifo_content h = fifo_content f"
    using h(2) by (auto simp: compacted_def same_frame_def)
  have add: "sz_add (f_used f) n = f_used f + n"
    using fit fifo_size_less [OF inv] array_max_less_size_max by simp
  let ?g = "h\<lparr>f_used := f_used f + n, f_signals := f_signals f @ fifo_tells f (f_used f + n)\<rparr>"
  let ?xs = "take n (drop (f_begin h + f_used h) (contents (f_buffer h)))"
  have room: "f_begin h + f_used h + n \<le> fifo_size h" using h(3) fit ih by auto
  have "fifo_advance n f = (Ret (), ?g\<lparr>f_mutex := f_mutex f\<rparr>)"
    unfolding fifo_advance_def
    by (rule fifo_locked_Ret [OF reentrant_can_lock [OF re]])
      (use w in \<open>simp_all add: h(1) bnd_def thn_def ih add notify_if_eq fifo_tells_def\<close>)
  moreover have "take (f_used h + n) (drop (f_begin h) (contents (f_buffer h))) = fifo_content f @ ?xs"
    by (simp only: take_add ih(7) [symmetric] fifo_content_def [of h] drop_drop
        add.commute [of "f_used h" "f_begin h"])
  then have "fifo_content (?g\<lparr>f_mutex := f_mutex f\<rparr>) = fifo_content f @ ?xs"
    using ih(1) by (simp add: fifo_content_def)
  moreover have "length ?xs = n"
    using room ih(5) by (auto simp: fifo_inv_def fifo_size_def buffer_size_def)
  moreover have "fifo_inv (?g\<lparr>f_mutex := f_mutex f\<rparr>)" "same_frame f (?g\<lparr>f_mutex := f_mutex f\<rparr>)"
    using room ih h(2) by (auto simp: fifo_inv_def same_frame_def fifo_size_def compacted_def)
  ultimately show ?thesis
    by (intro exI [of _ "?g\<lparr>f_mutex := f_mutex f\<rparr>"] exI [of _ ?xs]) (simp add: appended_def)
qed

definition fifo_ok :: "'a fifo \<Rightarrow> bool" where
  "fifo_ok f \<longleftrightarrow> fifo_inv f \<and> reentrant f"

lemma appended_ok: "fifo_ok f \<Longrightarrow> appended f xs g \<Longrightarrow> fifo_ok g"
  by (simp add: fifo_ok_def appended_def same_frame_def reentrant_def)

lemma removed_ok: "fifo_ok f \<Longrightarrow> removed f n g \<Longrightarrow> fifo_ok g"
  by (simp add: fifo_ok_def removed_def same_frame_def reentrant_def)

lemma compacted_ok: "fifo_ok f \<Longrightarrow> compacted f g \<Longrightarrow> fifo_ok g"
  by (simp add: fifo_ok_def compacted_def same_frame_def reentrant_def)

lemma fifo_resize_ok:
  assumes ok: "fifo_ok f" and off: "keeps_offset f (F_resize n p)" and run: "fifo_resize n p f = (r, g)"
    and n: "0 < n"
  shows "fifo_ok g \<and> \<not> is_undef r \<and> r \<noteq> Fail Deadlock"
proof -
  have inv: "fifo_inv f" and lk: "can_lock (f_mutex f)" using ok by (auto simp: fifo_ok_def)
  consider "p \<and> n < f_used f" | "\<not> (p \<and> n < f_used f)" "\<not> b_ownMem (f_buffer f)"
    | "\<not> (p \<and> n < f_used f)" "b_ownMem (f_buffer f)" "array_max \<le> n"
    | "\<not> (p \<and> n < f_used f)" "b_ownMem (f_buffer f)" "n < array_max"
    by linarith
  then show ?thesis
  proof cases
    case 4
    then obtain h b where h: "fifo_resize n p f = (Ret (), h)" "buffer_inv b" "b_used b = n"
      "h = f\<lparr>f_buffer := b, f_used := (if p then f_used f else 0), f_signals := f_signals f @
       (if f_notify f then edge_signals (f_used f) (if p then f_used f else 0) n else [])\<rparr>"
      using fifo_resize_spec [OF lk inv 4(2) n 4(3), of p] by fastforce
    then have "fifo_ok h"
      using ok off by (simp add: fifo_ok_def fifo_inv_def reentrant_def fifo_size_def buffer_size_def)
    with h(1) run show ?thesis by auto
  qed (use run ok fifo_resize_error [OF lk inv, of p n] in auto)
qed

lemma fifo_locked_pieces:
  assumes "fifo_ok f"
  shows "fifo_inv f" "reentrant f" "can_lock (f_mutex f)"
  using assms by (auto simp: fifo_ok_def)

lemma fifo_write_ok:
  assumes "fifo_ok f"
  obtains n g where "fifo_write d f = (Ret n, g)" "fifo_ok g"
proof (cases "d = [] \<or> \<not> is_writable f")
  case True
  show thesis by (rule that [OF fifo_write_nothing [OF fifo_locked_pieces(3) [OF assms] True] assms])
next
  case False
  with fifo_write_spec [OF fifo_locked_pieces(1,2) [OF assms]] appended_ok [OF assms] that show thesis by fastforce
qed

lemma fifo_copy_ok:
  assumes "fifo_ok f" "fifo_copy d f = (r, g)"
  shows "fifo_ok g \<and> \<not> is_undef r \<and> r \<noteq> Fail Deadlock"
proof -
  note ok = fifo_locked_pieces [OF assms(1)]
  consider "d = []" | "d \<noteq> []" "length d > fifo_available f \<or> \<not> is_writable f"
    | "d \<noteq> []" "\<not> (length d > fifo_available f \<or> \<not> is_writable f)" by blast
  then show ?thesis
  proof cases
    case 1
    with assms show ?thesis by (auto simp: fifo_copy_def)
  next
    case 2
    with fifo_copy_error [OF ok(3) 2] assms show ?thesis by auto
  next
    case 3
    then obtain h where "fifo_copy d f = (Ret (), h)" "appended f d h" using fifo_copy_spec [OF ok(1,2) 3(1)] by auto
    with assms(2) appended_ok [OF assms(1)] show ?thesis by auto
  qed
qed

lemma fifo_advance_ok:
  assumes "fifo_ok f" "fifo_advance n f = (r, g)"
  shows "fifo_ok g \<and> \<not> is_undef r \<and> r \<noteq> Fail Deadlock"
proof (cases "n > fifo_available f \<or> \<not> is_writable f")
  case True
  with fifo_advance_error [OF fifo_locked_pieces(3) [OF assms(1)] True] assms show ?thesis by auto
next
  case False
  then obtain h xs where "fifo_advance n f = (Ret (), h)" "appended f xs h"
    using fifo_advance_total [OF fifo_locked_pieces(1,2) [OF assms(1)], of n] by auto
  with assms(2) appended_ok [OF assms(1)] show ?thesis by auto
qed

lemma fifo_exec_ok:
  assumes ok: "fifo_ok f" and off: "keeps_offset f op" and run: "fifo_exec op f = (r, g)"
    and nz: "\<And>p. op \<noteq> F_resize 0 p"
  shows "fifo_ok g \<and> \<not> is_undef r \<and> r \<noteq> Fail Deadlock"
proof -
  have inv: "fifo_inv f" and re: "reentrant f" and lk: "can_lock (f_mutex f)"
    using ok by (auto simp: fifo_ok_def)
  have lift: "fifo_ok g \<and> \<not> is_undef r \<and> r \<noteq> Fail Deadlock"
    if "m f = (Ret x, h)" "fifo_ok h" "fifo_exec op = run_only m" for m :: "('a fifo, 'z) prog" and x h
    using that run by (auto simp: run_only_def bnd_def)
  show ?thesis
  proof (cases op)
    case (F_resize n p)
    with nz have "0 < n" by (cases n) auto
    with F_resize off run show ?thesis using fifo_resize_ok [OF ok] by auto
  next
    case (F_peek n)
    with fifo_peek_spec [OF inv lk] ok show ?thesis by (intro lift) auto
  next
    case (F_read n)
    with fifo_read_spec [OF inv re, of n] removed_ok [OF ok] show ?thesis using lift by fastforce
  next
    case (F_write d)
    obtain k h where "fifo_write d f = (Ret k, h)" "fifo_ok h" by (rule fifo_write_ok [OF ok])
    with F_write show ?thesis by (intro lift) auto
  next
    case (F_drain n)
    with fifo_drain_spec [OF inv lk, of n] removed_ok [OF ok] run show ?thesis by auto
  next
    case (F_copy d)
    with run fifo_copy_ok [OF ok, of d] show ?thesis by simp
  next
    case (F_advance n)
    with run fifo_advance_ok [OF ok, of n] show ?thesis by simp
  next
    case F_begin
    obtain h where "fifo_begin f = (Ret 0, h)" "compacted f h" by (rule compacted_begin [OF inv lk])
    with F_begin compacted_ok [OF ok] show ?thesis by (intro lift) auto
  next
    case F_next
    with fifo_next_spec [OF inv re] compacted_ok [OF ok] show ?thesis using lift by fastforce
  next
    case (F_at i)
    with fifo_at_spec [OF inv lk] ok run show ?thesis
      by (auto simp: run_only_def bnd_def split: if_splits)
  next
    case (F_set_error e)
    with ok run fifo_set_error_True [OF lk] fifo_set_error_False [OF lk] show ?thesis
      by (cases e) (auto simp: fifo_ok_def fifo_inv_def reentrant_def fifo_size_def)
  next
    case (F_set_eof e)
    with ok run fifo_set_eof_eq [OF lk] show ?thesis
      by (auto simp: fifo_ok_def fifo_inv_def reentrant_def fifo_size_def)
  next
    case (F_set_notify b)
    with ok run show ?thesis
      by (auto simp: fifo_set_notify_def fifo_ok_def fifo_inv_def reentrant_def fifo_size_def)
  qed
qed

lemma no_deadlock_otherwise:
  assumes inv: "fifo_inv f" and pm: "plain_mutex f" and l: "\<not> locks_twice f op"
  shows "fst (fifo_exec op f) \<noteq> Fail Deadlock"
proof -
  have lk: "can_lock (f_mutex f)" using pm by simp
  show ?thesis
  proof (cases op)
    case (F_resize n p)
    consider "p \<and> n < f_used f" | "\<not> (p \<and> n < f_used f)" "\<not> b_ownMem (f_buffer f)"
      | "\<not> (p \<and> n < f_used f)" "b_ownMem (f_buffer f)" "array_max \<le> n"
      | "\<not> (p \<and> n < f_used f)" "b_ownMem (f_buffer f)" "n = 0"
      | "\<not> (p \<and> n < f_used f)" "b_ownMem (f_buffer f)" "0 < n" "n < array_max"
      by linarith
    then show ?thesis
    proof cases
      case 5
      then have "\<exists>g. fifo_resize n p f = (Ret (), g)"
        using fifo_resize_spec [OF lk inv 5(2,3,4), of p] by fastforce
      with F_resize show ?thesis by auto
    qed (use F_resize fifo_resize_error [OF lk inv, of p n] in auto)
  next
    case (F_peek n)
    with fifo_peek_spec [OF inv lk] show ?thesis by (simp add: run_only_outcome)
  next
    case (F_read n)
    with l lk have "fifo_read n f = (Ret [], f)"
      by (auto simp: fifo_read_def intro!: fifo_locked_pure)
    with F_read show ?thesis by (simp add: run_only_outcome)
  next
    case (F_write d)
    with l fifo_write_nothing [OF lk] have "fifo_write d f = (Ret 0, f)" by auto
    with F_write show ?thesis by (simp add: run_only_outcome)
  next
    case (F_drain n)
    with fifo_drain_spec [OF inv lk, of n] show ?thesis by auto
  next
    case (F_copy d)
    then have "d = [] \<or> d \<noteq> [] \<and> (length d > fifo_available f \<or> \<not> is_writable f)" using l by auto
    with F_copy fifo_copy_error [OF lk, of d] show ?thesis by (auto simp: fifo_copy_def)
  next
    case (F_advance n)
    show ?thesis
    proof (cases "n > fifo_available f \<or> \<not> is_writable f")
      case True
      from fifo_advance_error [OF lk this] F_advance show ?thesis by auto
    next
      case False
      with l F_advance have "f_begin f + f_used f + n \<le> fifo_size f" by auto
      with False F_advance fifo_advance_spec [OF inv lk, of n] show ?thesis by auto
    qed
  next
    case F_begin
    obtain h where "fifo_begin f = (Ret 0, h)" by (rule compacted_begin [OF inv lk])
    with F_begin show ?thesis by (simp add: run_only_outcome)
  next
    case F_next
    with l show ?thesis by simp
  next
    case (F_at i)
    with fifo_at_spec [OF inv lk, of i] show ?thesis by (simp add: run_only_outcome)
  next
    case (F_set_error e)
    with fifo_set_error_True [OF lk] fifo_set_error_False [OF lk] show ?thesis by (cases e) auto
  next
    case (F_set_eof e)
    with fifo_set_eof_eq [OF lk] show ?thesis by auto
  next
    case (F_set_notify b)
    then show ?thesis by (simp add: fifo_set_notify_def)
  qed
qed


definition sample_fifo :: "nat fifo" where
  "sample_fifo = \<lparr>f_buffer = \<lparr>b_capacity = 4, b_used = 4, b_ptr = Some [None, Some 5, Some 6, None],
     b_ownMem = True\<rparr>, f_begin = 1, f_used = 2, f_mutex = new_mutex Std_mutex, f_notify = True,
     f_eof = False, f_error = False, f_signals = []\<rparr>"

lemma sample_fifo_inv: "fifo_inv sample_fifo"
  by (simp add: sample_fifo_def fifo_inv_def buffer_inv_def fifo_size_def buffer_size_def array_max_def)

lemma sample_fifo_plain: "plain_mutex sample_fifo"
  by (simp add: sample_fifo_def plain_mutex_def new_mutex_def)


subsection \<open>The queue as a byte stream\<close>

text \<open>
  The contract a client of the queue relies on: a bounded stream of cells, written at one end as
  far as there is room and read at the other. \<open>queue_run\<close> performs a sequence of writes and
  reads and collects the cells accepted and the cells delivered.
\<close>

datatype 'a queue_op = Put "'a list" | Get nat

fun queue_run ::
  "('a list \<Rightarrow> ('q, nat) prog) \<Rightarrow> (nat \<Rightarrow> ('q, 'a list) prog) \<Rightarrow> 'a queue_op list \<Rightarrow> 'q \<Rightarrow>
     ('a list \<times> 'a list) outcome \<times> 'q" where
  "queue_run wr rd [] q = (Ret ([], []), q)"
| "queue_run wr rd (Put d # ops) q =
     bnd (wr d) (\<lambda>n. bnd (queue_run wr rd ops) (\<lambda>(acc, out). ret (take n d @ acc, out))) q"
| "queue_run wr rd (Get k # ops) q =
     bnd (rd k) (\<lambda>xs. bnd (queue_run wr rd ops) (\<lambda>(acc, out). ret (acc, xs @ out))) q"

locale byte_queue =
  fixes wr :: "'a list \<Rightarrow> ('q, nat) prog"
    and rd :: "nat \<Rightarrow> ('q, 'a list) prog"
    and content :: "'q \<Rightarrow> 'a list"
    and capacity :: "'q \<Rightarrow> nat"
    and invar :: "'q \<Rightarrow> bool"
  assumes wr_law: "invar q \<Longrightarrow> \<exists>q'. wr d q = (Ret (min (length d) (capacity q - length (content q))), q') \<and>
      invar q' \<and> content q' = content q @ take (capacity q - length (content q)) d \<and> capacity q' = capacity q"
    and rd_law: "invar q \<Longrightarrow> \<exists>q'. rd k q = (Ret (take k (content q)), q') \<and>
      invar q' \<and> content q' = drop k (content q) \<and> capacity q' = capacity q"
    and bounded: "invar q \<Longrightarrow> length (content q) \<le> capacity q"
begin

lemma stream: "invar q \<Longrightarrow> \<exists>acc out q'. queue_run wr rd ops q = (Ret (acc, out), q') \<and>
    invar q' \<and> content q @ acc = out @ content q' \<and> capacity q' = capacity q"
proof (induction ops arbitrary: q)
  case Nil
  then show ?case by simp
next
  case (Cons op ops)
  show ?case
  proof (cases op)
    case (Put d)
    obtain q1 where q1: "wr d q = (Ret (min (length d) (capacity q - length (content q))), q1)"
      "invar q1" "content q1 = content q @ take (capacity q - length (content q)) d" "capacity q1 = capacity q"
      using wr_law [OF Cons.prems, of d] by blast
    from Cons.IH [OF q1(2)] obtain acc out q' where "queue_run wr rd ops q1 = (Ret (acc, out), q')"
      "invar q'" "content q1 @ acc = out @ content q'" "capacity q' = capacity q1"
      by blast
    with q1 Put show ?thesis by (simp add: bnd_def)
  next
    case (Get k)
    obtain q1 where q1: "rd k q = (Ret (take k (content q)), q1)" "invar q1"
      "content q1 = drop k (content q)" "capacity q1 = capacity q"
      using rd_law [OF Cons.prems, of k] by blast
    from Cons.IH [OF q1(2)] obtain acc out q' where "queue_run wr rd ops q1 = (Ret (acc, out), q')"
      "invar q'" "content q1 @ acc = out @ content q'" "capacity q' = capacity q1"
      by blast
    with q1 Get show ?thesis
      by (simp add: bnd_def) (metis append_assoc append_take_drop_id)
  qed
qed

lemma stream_bounded:
  assumes "invar q" "queue_run wr rd ops q = (Ret (acc, out), q')"
  shows "length acc + length (content q) \<le> length out + capacity q"
proof -
  obtain acc' out' q'' where "queue_run wr rd ops q = (Ret (acc', out'), q'')" "invar q''"
    "content q @ acc' = out' @ content q''" "capacity q'' = capacity q"
    using stream [OF assms(1), of ops] by blast
  moreover from this assms(2) have "acc' = acc" "out' = out" "q'' = q'" by auto
  ultimately show ?thesis using bounded [of q'] by (metis add.commute add_le_cancel_left length_append)
qed

end

text \<open>A queue with a discarding operation, as \<open>drain\<close>: reading is looking and discarding.\<close>

locale drainable_queue = byte_queue +
  fixes pk :: "nat \<Rightarrow> ('q, 'a list) prog"
    and dr :: "nat \<Rightarrow> ('q, unit) prog"
  assumes pk_law: "invar q \<Longrightarrow> pk k q = (Ret (take k (content q)), q)"
    and dr_law: "invar q \<Longrightarrow> \<exists>q'. dr k q = (Ret (), q') \<and> invar q' \<and>
      content q' = (if k = 0 then [] else drop k (content q)) \<and> capacity q' = capacity q"
begin

text \<open>Discarding what a consumer took keeps the rest in order, unless it took nothing.\<close>

lemma peek_then_drain:
  assumes "invar q" "0 < k"
  shows "\<exists>q'. bnd (pk k) (\<lambda>xs. thn (dr k) (ret xs)) q = (Ret (take k (content q)), q') \<and>
     invar q' \<and> take k (content q) @ content q' = content q"
proof -
  obtain q' where "dr k q = (Ret (), q')" "invar q'" "content q' = drop k (content q)"
    using dr_law [OF assms(1), of k] assms(2) by auto
  then show ?thesis by (simp add: bnd_def thn_def pk_law [OF assms(1)])
qed

lemma drain_zero_empties: "invar q \<Longrightarrow> \<exists>q'. dr 0 q = (Ret (), q') \<and> content q' = []"
  using dr_law [of q 0] by auto

end

definition streaming :: "'a fifo \<Rightarrow> bool" where
  "streaming f \<longleftrightarrow> fifo_ok f \<and> \<not> f_error f \<and> \<not> f_eof f"

interpretation fq: drainable_queue fifo_write fifo_read fifo_content fifo_size streaming fifo_peek fifo_drain
proof (unfold_locales, goal_cases)
  case (1 q d)
  then have q: "fifo_inv q" "reentrant q" "can_lock (f_mutex q)" "\<not> f_error q" "\<not> f_eof q"
    by (auto simp: streaming_def fifo_ok_def)
  show ?case
  proof (cases "d = [] \<or> \<not> is_writable q")
    case True
    then have "d = [] \<or> fifo_size q - f_used q = 0" using q by (auto simp: is_writable_iff)
    with True 1 fifo_write_nothing [OF q(3)] q show ?thesis by auto
  next
    case False
    then obtain g where "fifo_write d q = (Ret (min (length d) (fifo_size q - f_used q)), g)"
      "appended q (take (fifo_size q - f_used q) d) g"
      using fifo_write_spec [OF q(1,2)] by auto
    with q show ?thesis by (auto simp: streaming_def fifo_ok_def appended_def same_frame_def reentrant_def)
  qed
next
  case (2 q k)
  then have q: "fifo_inv q" "reentrant q" "\<not> f_error q" "\<not> f_eof q"
    by (auto simp: streaming_def fifo_ok_def)
  then have r: "is_readable q \<or> fifo_content q = [] \<and> f_used q = 0"
    by (auto simp: is_readable_iff fifo_content_def)
  obtain g where "fifo_read k q = (Ret (if is_readable q then take k (fifo_content q) else []), g)"
    "removed q (if is_readable q then min k (f_used q) else 0) g"
    using fifo_read_spec [OF q(1,2)] by blast
  with q r show ?case
    by (auto simp: streaming_def fifo_ok_def removed_def same_frame_def reentrant_def min_def)
next
  case (3 q)
  then show ?case by (simp add: streaming_def fifo_ok_def fifo_inv_def)
next
  case (4 q k)
  then have "fifo_inv q" "can_lock (f_mutex q)" "is_readable q \<or> fifo_content q = []"
    by (auto simp: streaming_def fifo_ok_def is_readable_iff fifo_content_def)
  with fifo_peek_spec [of q k] show ?case by auto
next
  case (5 q k)
  then have q: "fifo_inv q" "can_lock (f_mutex q)" "reentrant q" "\<not> f_error q" "\<not> f_eof q"
    by (auto simp: streaming_def fifo_ok_def)
  obtain g where "fifo_drain k q = (Ret (), g)" "removed q (if k = 0 then f_used q else min k (f_used q)) g"
    using fifo_drain_spec [OF q(1,2), of k] by blast
  with q show ?case
    by (auto simp: streaming_def fifo_ok_def removed_def same_frame_def reentrant_def min_def)
qed

text \<open>On a queue whose mutex is re-entrant and that is neither in error nor closed, any
  sequence of writes and reads returns; the cells delivered by the reads, followed by what is
  still in the queue, are exactly the old contents followed by the cells the writes reported as
  accepted: nothing is lost, duplicated or reordered, and never more than \<open>size()\<close> cells are
  in flight.\<close>

theorem fifo_stream:
  assumes "streaming f"
  shows "\<exists>acc out g. queue_run fifo_write fifo_read ops f = (Ret (acc, out), g) \<and> streaming g \<and>
     fifo_content f @ acc = out @ fifo_content g \<and>
     length acc + length (fifo_content f) \<le> length out + fifo_size f"
proof -
  obtain acc out g where "queue_run fifo_write fifo_read ops f = (Ret (acc, out), g)" "streaming g"
    "fifo_content f @ acc = out @ fifo_content g"
    using fq.stream [OF assms, of ops] by blast
  with fq.stream_bounded [OF assms this(1)] show ?thesis by blast
qed

definition sample_stream :: "nat fifo" where
  "sample_stream = sample_fifo\<lparr>f_mutex := new_mutex Recursive_mutex\<rparr>"

lemma sample_stream_ok: "streaming sample_stream"
proof -
  have "fifo_inv sample_stream" using sample_fifo_inv by (simp add: sample_stream_def)
  then show ?thesis
    by (simp add: sample_stream_def streaming_def fifo_ok_def reentrant_def new_mutex_def sample_fifo_def)
qed

theorem fifo_stream_witness:
  "\<exists>acc out g. queue_run fifo_write fifo_read [Put [Some 7, Some 8, Some 9], Get 3] sample_stream
       = (Ret (acc, out), g) \<and> streaming g \<and> fifo_content sample_stream @ acc = out @ fifo_content g \<and>
     length acc + length (fifo_content sample_stream) \<le> length out + fifo_size sample_stream"
  by (rule fifo_stream [OF sample_stream_ok])

subsection \<open>The signals\<close>

text \<open>
  What a subscriber that has listened from the start believes: the last value sent, or the state
  of an empty queue if none was sent.
\<close>

definition told_readable :: "signal list \<Rightarrow> bool" where
  "told_readable sgs = fold (\<lambda>s v. case s of Readable b \<Rightarrow> b | Writable b \<Rightarrow> v) sgs False"

definition told_writable :: "signal list \<Rightarrow> bool" where
  "told_writable sgs = fold (\<lambda>s v. case s of Writable b \<Rightarrow> b | Readable b \<Rightarrow> v) sgs True"

definition signals_current :: "'a fifo \<Rightarrow> bool" where
  "signals_current f \<longleftrightarrow> f_notify f \<and> 0 < fifo_size f \<and>
     told_readable (f_signals f) = (0 < f_used f) \<and>
     told_writable (f_signals f) = (f_used f < fifo_size f)"

lemma told_append_edge:
  assumes "told_readable sgs = (0 < u)" "told_writable sgs = (u < cap)" "v \<le> cap" "0 < cap" "u \<le> cap"
  shows "told_readable (sgs @ edge_signals u v cap) = (0 < v)"
    and "told_writable (sgs @ edge_signals u v cap) = (v < cap)"
  using assms by (auto simp: told_readable_def told_writable_def edge_signals_def)

lemma signals_current_step:
  assumes cur: "signals_current f" and inv: "fifo_inv f" and ig: "fifo_inv g" and fr: "same_frame f g"
    and sg: "f_signals g = f_signals f @ fifo_tells f (f_used g)"
  shows "signals_current g"
proof -
  have f: "f_notify f" "0 < fifo_size f" "told_readable (f_signals f) = (0 < f_used f)"
    "told_writable (f_signals f) = (f_used f < fifo_size f)" "f_used f \<le> fifo_size f"
    using cur inv by (auto simp: signals_current_def fifo_inv_def)
  have g: "f_used g \<le> fifo_size f" "fifo_size g = fifo_size f" "f_notify g"
    using ig fr f(1) by (auto simp: fifo_inv_def same_frame_def)
  have "f_signals g = f_signals f @ edge_signals (f_used f) (f_used g) (fifo_size f)"
    using sg f(1) by (simp add: fifo_tells_def)
  with told_append_edge [OF f(3,4) g(1) f(2,5)] g f(2) show ?thesis by (simp add: signals_current_def)
qed

lemma signals_current_appended:
  "signals_current f \<Longrightarrow> fifo_inv f \<Longrightarrow> appended f xs g \<Longrightarrow> signals_current g"
proof -
  assume a: "signals_current f" "fifo_inv f" "appended f xs g"
  then have "f_used g = f_used f + length xs"
    by (metis appended_def fifo_content_length length_append)
  with a show "signals_current g" by (intro signals_current_step [of f g]) (auto simp: appended_def)
qed

lemma signals_current_removed:
  "signals_current f \<Longrightarrow> fifo_inv f \<Longrightarrow> removed f n g \<Longrightarrow> signals_current g"
proof -
  assume a: "signals_current f" "fifo_inv f" "removed f n g"
  then have "f_used g = f_used f - n"
    by (metis removed_def fifo_content_length length_drop)
  with a show "signals_current g" by (intro signals_current_step [of f g]) (auto simp: removed_def)
qed

lemma signals_current_compacted:
  "signals_current f \<Longrightarrow> compacted f g \<Longrightarrow> signals_current g"
  by (simp add: signals_current_def compacted_def same_frame_def)

fun moves_data :: "'a fifo_op \<Rightarrow> bool" where
  "moves_data (F_resize n p) = False"
| "moves_data (F_set_error e) = False"
| "moves_data (F_set_eof e) = False"
| "moves_data (F_set_notify b) = False"
| "moves_data _ = True"

lemma fifo_exec_moves:
  assumes ok: "fifo_ok f" and mv: "moves_data op"
  shows "snd (fifo_exec op f) = f \<or> compacted f (snd (fifo_exec op f)) \<or>
     (\<exists>xs. appended f xs (snd (fifo_exec op f))) \<or> (\<exists>n. removed f n (snd (fifo_exec op f)))"
proof -
  have inv: "fifo_inv f" and re: "reentrant f" and lk: "can_lock (f_mutex f)"
    using ok by (auto simp: fifo_ok_def)
  show ?thesis
  proof (cases op)
    case (F_peek n)
    with fifo_peek_spec [OF inv lk] show ?thesis by (simp add: run_only_state)
  next
    case (F_read n)
    with fifo_read_spec [OF inv re, of n] show ?thesis by (auto simp: run_only_state)
  next
    case (F_write d)
    with fifo_write_spec [OF inv re, of d] fifo_write_nothing [OF lk, of d] show ?thesis
      by (cases "d = [] \<or> \<not> is_writable f") (auto simp: run_only_state)
  next
    case (F_drain n)
    with fifo_drain_spec [OF inv lk, of n] show ?thesis by auto
  next
    case (F_copy d)
    with fifo_copy_spec [OF inv re, of d] fifo_copy_error [OF lk, of d] show ?thesis
      by (cases "d = [] \<or> length d > fifo_available f \<or> \<not> is_writable f")
        (auto simp: fifo_copy_def)
  next
    case (F_advance n)
    with fifo_advance_total [OF inv re, of n] fifo_advance_error [OF lk, of n] show ?thesis
      by (cases "n > fifo_available f \<or> \<not> is_writable f") auto
  next
    case F_begin
    obtain h where "fifo_begin f = (Ret 0, h)" "compacted f h" by (rule compacted_begin [OF inv lk])
    with F_begin show ?thesis by (simp add: run_only_state)
  next
    case F_next
    with fifo_next_spec [OF inv re] show ?thesis by (auto simp: run_only_state)
  next
    case (F_at i)
    with fifo_at_spec [OF inv lk, of i] show ?thesis by (simp add: run_only_state)
  qed (use mv in simp_all)
qed

text \<open>\<open>resize\<close> compares the fill level before with the size after, so it is silent about
  the edges it makes itself: growing a full queue makes it writable again, and shrinking a queue
  to its fill level makes it full, but no subscriber of \<open>writable\<close> is told.\<close>

theorem fifo_resize_silent:
  assumes "fifo_inv f" and "plain_mutex f" and "b_ownMem (f_buffer f)" and "f_used f \<noteq> 0"
    and "n < array_max" and "f_used f \<le> n"
    and "f_used f = fifo_size f \<and> fifo_size f < n \<or> f_used f < fifo_size f \<and> n = f_used f"
  shows "\<exists>g. fifo_resize n True f = (Ret (), g) \<and> f_signals g = f_signals f \<and>
     (f_used g < fifo_size g) \<noteq> (f_used f < fifo_size f)"
proof -
  from assms(2) have lk: "can_lock (f_mutex f)" by simp
  from assms have n: "0 < n" by linarith
  obtain g b where g: "fifo_resize n True f = (Ret (), g)" "b_used b = n"
     "g = f\<lparr>f_buffer := b, f_used := f_used f, f_signals := f_signals f @
       (if f_notify f then edge_signals (f_used f) (f_used f) n else [])\<rparr>"
    using fifo_resize_spec [OF lk assms(1,3) n assms(5), of True] assms(6) by auto
  then have "f_signals g = f_signals f" "f_used g = f_used f" "fifo_size g = n"
    by (simp_all add: fifo_size_def buffer_size_def)
  with g(1) assms(7) show ?thesis by auto
qed

theorem fifo_resize_silent_witness:
  "\<exists>g. fifo_resize 2 True sample_fifo = (Ret (), g) \<and> f_signals g = f_signals sample_fifo \<and>
     (f_used g < fifo_size g) \<noteq> (f_used sample_fifo < fifo_size sample_fifo)"
  by (rule fifo_resize_silent [OF sample_fifo_inv sample_fifo_plain])
    (simp_all add: sample_fifo_def array_max_def fifo_size_def buffer_size_def)

subsection \<open>Shrinking a queue whose data are not at the front\<close>

text \<open>\<open>resize\<close> accepts any new size that is at least the fill level and promises to keep
  the content, but it leaves the data at their offset. When they reach beyond the new size, the
  last element counted by \<open>used()\<close> can no longer be read: \<open>operator[]\<close> passes its own bounds
  check and aborts in the assertion of the underlying buffer. No nested locking is involved.\<close>

theorem fifo_resize_loses_tail:
  assumes "fifo_inv f" and "plain_mutex f" and "b_ownMem (f_buffer f)"
    and "f_used f \<noteq> 0" and "f_used f \<le> n" and "n < f_begin f + f_used f"
  shows "\<exists>g. fifo_resize n True f = (Ret (), g) \<and> f_used g = f_used f \<and>
     fst (fifo_at (f_used g - 1) g) = Fail Abort"
proof -
  from assms(2) have lk: "can_lock (f_mutex f)" by simp
  have sz: "f_begin f + f_used f < array_max"
    using assms(1) fifo_size_less [OF assms(1)] by (simp add: fifo_inv_def)
  then have n: "0 < n" "n < array_max" using assms by auto
  obtain g b where g: "fifo_resize n True f = (Ret (), g)" "buffer_inv b" "b_used b = n"
     "g = f\<lparr>f_buffer := b, f_used := f_used f, f_signals := f_signals f @
       (if f_notify f then edge_signals (f_used f) (f_used f) n else [])\<rparr>"
    using fifo_resize_spec [OF lk assms(1,3) n, of True] assms(5) by auto
  let ?i = "f_used f - 1"
  have i: "sz_add (f_begin f) ?i = f_begin f + ?i" "\<not> f_begin f + ?i < n" "\<not> ?i \<ge> f_used f"
    using sz assms(4,6) array_max_less_size_max by auto
  have at: "buffer_at (f_begin f + ?i) b = (Fail Abort, b)"
    using buffer_at_spec [OF g(2)] i(2) g(3) by simp
  have "fst (fifo_at ?i g) = Fail Abort"
    using g(4) lk i(1,3) at
    by (simp add: fifo_at_def fifo_locked_def with_lock_free on_exit_def bnd_def on_buffer_def zoom_def)
  with g show ?thesis by auto
qed

theorem fifo_resize_loses_tail_witness:
  "\<exists>g. fifo_resize 2 True sample_fifo = (Ret (), g) \<and> f_used g = f_used sample_fifo \<and>
     fst (fifo_at (f_used g - 1) g) = Fail Abort"
  by (rule fifo_resize_loses_tail [OF sample_fifo_inv sample_fifo_plain])
    (simp_all add: sample_fifo_def)

text \<open>After such a \<open>resize\<close> the free space \<open>write\<close> computes wraps around: on a re-entrant
  queue a block that does not fit the array is copied in full, past the end of the array.\<close>

theorem fifo_resize_then_overflow:
  assumes inv: "fifo_inv f" and re: "reentrant f" and own: "b_ownMem (f_buffer f)"
    and n: "f_used f < n" "n < f_begin f + f_used f" and w: "\<not> f_error f" "\<not> f_eof f"
    and big: "b_capacity (f_buffer f) < f_used f + length data" "length data < array_max"
  shows "\<exists>g. fifo_resize n True f = (Ret (), g) \<and> fst (fifo_write data g) = Fail (Undef Out_of_bounds)"
proof -
  have lk: "can_lock (f_mutex f)" using re by simp
  have bu: "f_begin f + f_used f \<le> fifo_size f" "fifo_size f < array_max" "buffer_inv (f_buffer f)"
    "fifo_size f \<le> b_capacity (f_buffer f)"
    using inv fifo_size_less [OF inv]
    by (auto simp: fifo_inv_def fifo_size_def buffer_size_def buffer_inv_def)
  have pos: "0 < n" "n < array_max" "f_used f \<le> n" using n bu by auto
  obtain g b where g: "fifo_resize n True f = (Ret (), g)" "buffer_inv b" "b_used b = n"
     "b_capacity b = max n (b_capacity (f_buffer f))"
     "g = f\<lparr>f_buffer := b, f_used := f_used f, f_signals := f_signals f @
       (if f_notify f then edge_signals (f_used f) (f_used f) n else [])\<rparr>"
    using fifo_resize_spec [OF lk inv own pos(1,2), of True] pos(3) by auto
  have cap: "b_capacity b = b_capacity (f_buffer f)" using g(4) n bu by simp
  then obtain m where m: "b_ptr b = Some m" "length m = b_capacity (f_buffer f)"
    using g(2) bu n by (auto elim: buffer_inv_nonempty)
  let ?g = "g\<lparr>f_mutex := locked (f_mutex f)\<rparr>"
  have mx: "array_max + array_max = size_max" by (simp add: array_max_def size_max_def)
  have wrap1: "sz_sub n (sz_add (f_begin f) (f_used f)) = size_max - (f_begin f + f_used f - n)"
  proof -
    have "sz_add (f_begin f) (f_used f) = f_begin f + f_used f" using bu mx by simp
    then show ?thesis using n bu mx by (simp add: sz_sub_def)
  qed
  have wrap2: "sz_sub (sz_sub n (f_used f)) (f_begin f) = size_max - (f_begin f + f_used f - n)"
  proof -
    have "sz_sub n (f_used f) = n - f_used f" using pos mx by simp
    then show ?thesis using n bu mx by (simp add: sz_sub_def)
  qed
  have ge: "\<not> size_max - (f_begin f + f_used f - n) < length data" using bu big(2) mx by simp
  have d0: "\<not> 0 = length data" using big(1) bu by auto
  have gm: "f_mutex g = f_mutex f" "f_begin g = f_begin f" "f_used g = f_used f" "f_buffer g = b"
    "fifo_size g = n" "f_error g = f_error f" "f_eof g = f_eof f"
    using g(3,5) by (simp_all add: fifo_size_def buffer_size_def)
  have wr: "is_writable ?g"
    using gm w n by (simp add: is_writable_def is_full_def is_valid_def)
  have mr: "make_room (length data) ?g = (Ret (), ?g)"
    using wrap1 ge by (simp add: make_room_def gm)
  obtain m' where mv: "buffer_memmove 0 (f_begin f) (f_used f) b = (Ret (), b\<lparr>b_ptr := Some m'\<rparr>)"
    "length m' = length m"
    using m bu by (auto simp: buffer_memmove_def dest: mem_move_length)
  obtain h where h: "fifo_begin ?g = (Ret 0, h)" "\<exists>m''. b_ptr (f_buffer h) = Some m'' \<and> length m'' = length m"
    "f_used h = f_used f"
  proof (cases "f_begin f = 0")
    case True
    with n show ?thesis by simp
  next
    case False
    let ?h = "?g\<lparr>f_mutex := locked (f_mutex ?g), f_buffer := b\<lparr>b_ptr := Some m'\<rparr>, f_begin := 0,
        f_mutex := f_mutex ?g\<rparr>"
    have "fifo_begin ?g = (Ret 0, ?h)"
      unfolding fifo_begin_def
      by (rule fifo_locked_Ret)
        (use False re in \<open>simp_all add: reentrant_def thn_def bnd_def on_buffer_def zoom_def gm mv\<close>)
    then show ?thesis by (rule that) (use gm mv m in simp_all)
  qed
  have st: "fst (buffer_store (f_used f) data (f_buffer h)) = Fail (Undef Out_of_bounds)"
    using h(2) m big(1) by (auto simp: buffer_store_def mem_write_def bnd_def)
  have "fst (put_data data (f_used f) (length data) ?g) = Fail (Undef Out_of_bounds)"
    using st by (auto simp: put_data_def h bnd_def thn_def on_buffer_def zoom_def split: prod.splits)
  then have "fst (fifo_write data g) = Fail (Undef Out_of_bounds)"
    unfolding fifo_write_def if_not_P [OF d0]
    using lk wr mr ge
    by (auto simp: fifo_locked_def with_lock_free on_exit_def gm thn_def bnd_def wrap2 split: prod.splits)
  with g(1) show ?thesis by blast
qed

theorem fifo_resize_then_overflow_witness:
  "\<exists>g. fifo_resize 2 True (sample_stream\<lparr>f_begin := 2, f_used := 1\<rparr>) = (Ret (), g) \<and>
     fst (fifo_write [Some 1, Some 2, Some 3, Some 4] g) = Fail (Undef Out_of_bounds)"
  by (rule fifo_resize_then_overflow)
    (simp_all add: sample_stream_def sample_fifo_def fifo_inv_def buffer_inv_def fifo_size_def
      buffer_size_def array_max_def reentrant_def new_mutex_def)

end
