(* ===== verification/Fifo_Queue.thy ===== *)
theory Fifo_Queue
  imports Fifo_Buffer Data_Refinement
begin

section \<open>BasicFIFOBuffer as a bounded queue\<close>

text \<open>
  The reference for \<^verbatim>\<open>class BasicFIFOBuffer<T>\<close> (theory \<open>Fifo_Buffer\<close>): a bounded list with the
  flags of the class and the signals it has sent. The offset of the data, the compaction and the storage are gone.
  \<open>advance\<close> takes over cells that somebody else has written behind the data: they are the choice of its step.
\<close>

record 'a fqueue =
  q_items :: "'a cell list"
  q_room :: nat
  q_owner :: bool
  q_notify :: bool
  q_eof :: bool
  q_error :: bool
  q_told :: "signal list"

definition fifo_view :: "'a fifo \<Rightarrow> 'a fqueue" where
  "fifo_view f = \<lparr>q_items = fifo_content f, q_room = fifo_size f, q_owner = b_ownMem (f_buffer f), q_notify = f_notify f,
     q_eof = f_eof f, q_error = f_error f, q_told = f_signals f\<rparr>"

definition q_readable :: "'a fqueue \<Rightarrow> bool" where
  "q_readable q \<longleftrightarrow> q_items q \<noteq> [] \<and> \<not> q_error q"

definition q_writable :: "'a fqueue \<Rightarrow> bool" where
  "q_writable q \<longleftrightarrow> length (q_items q) < q_room q \<and> \<not> q_error q \<and> \<not> q_eof q"

definition q_free :: "'a fqueue \<Rightarrow> nat" where
  "q_free q = q_room q - length (q_items q)"

definition q_tell :: "signal list \<Rightarrow> 'a fqueue \<Rightarrow> 'a fqueue" where
  "q_tell sgs q = q\<lparr>q_told := q_told q @ (if q_notify q then sgs else [])\<rparr>"

text \<open>The items change; who listens is told when the queue becomes empty or full, or stops to be so.\<close>

definition q_set :: "'a cell list \<Rightarrow> 'a fqueue \<Rightarrow> 'a fqueue" where
  "q_set xs q = q_tell (edge_signals (length (q_items q)) (length xs) (q_room q)) (q\<lparr>q_items := xs\<rparr>)"

datatype 'a fifo_result = Done | Count nat | Cells "'a cell list" | Cell "'a cell"

definition q_resize :: "nat \<Rightarrow> bool \<Rightarrow> 'a fqueue \<Rightarrow> 'a fifo_result outcome \<times> 'a fqueue" where
  "q_resize n p q =
     (if p \<and> n < length (q_items q) then (Fail (Thrown (Runtime_error resize_msg)), q)
      else if \<not> q_owner q then (Fail (Thrown (Runtime_error not_owner_msg)), q)
      else if array_max \<le> n then (Fail (Thrown Bad_array_length), q)
      else (Ret Done, q_tell (edge_signals (length (q_items q)) (if p then length (q_items q) else 0) n)
        (q\<lparr>q_items := (if p then q_items q else []), q_room := n\<rparr>)))"

definition q_extend :: "'a cell list \<Rightarrow> 'a fqueue \<Rightarrow> 'a fifo_result outcome \<times> 'a fqueue" where
  "q_extend xs q =
     (if q_free q < length xs then (Fail (Thrown (Runtime_error extend_msg)), q)
      else if \<not> q_writable q then (Fail (Thrown (Runtime_error not_writable_msg)), q)
      else (Ret Done, q_set (q_items q @ xs) q))"

definition q_set_error :: "bool \<Rightarrow> 'a fqueue \<Rightarrow> 'a fqueue" where
  "q_set_error e q =
     (if e then (q_tell ((if q_readable q then [Readable False] else []) @ (if q_writable q then [Writable False] else [])) q)
        \<lparr>q_items := [], q_error := True\<rparr>
      else (q_tell (if q_eof q then [] else [Writable True]) q)\<lparr>q_error := False\<rparr>)"

fun queue_step :: "(nat \<Rightarrow> 'a cell) \<Rightarrow> 'a fifo_op \<Rightarrow> 'a fqueue \<Rightarrow> 'a fifo_result outcome \<times> 'a fqueue" where
  "queue_step new (F_resize n p) q = q_resize n p q"
| "queue_step new (F_peek n) q = (Ret (Cells (if q_readable q then take n (q_items q) else [])), q)"
| "queue_step new (F_read n) q =
     (if q_readable q then (Ret (Cells (take n (q_items q))), q_set (drop n (q_items q)) q) else (Ret (Cells []), q))"
| "queue_step new (F_write d) q =
     (if d = [] \<or> \<not> q_writable q then (Ret (Count 0), q)
      else (Ret (Count (min (length d) (q_free q))), q_set (q_items q @ take (q_free q) d) q))"
| "queue_step new (F_drain n) q = (Ret Done, q_set (if n = 0 then [] else drop n (q_items q)) q)"
| "queue_step new (F_copy d) q = (if d = [] then (Ret Done, q) else q_extend d q)"
| "queue_step new (F_advance n) q = q_extend (map new [0..<n]) q"
| "queue_step new F_begin q = (Ret (Count 0), q)"
| "queue_step new F_next q = (Ret (Count (length (q_items q))), q)"
| "queue_step new (F_at i) q =
     (if i < length (q_items q) then Ret (Cell (q_items q ! i)) else Fail (Thrown (Runtime_error index_msg)), q)"
| "queue_step new (F_set_error e) q = (Ret Done, q_set_error e q)"
| "queue_step new (F_set_eof e) q = (Ret Done, (q_tell [Writable (\<not> e)] q)\<lparr>q_eof := e\<rparr>)"
| "queue_step new (F_set_notify b) q = (Ret Done, q\<lparr>q_notify := b\<rparr>)"

text \<open>The member functions with their results; a pointer is an offset.\<close>

fun fifo_call :: "'a fifo_op \<Rightarrow> ('a fifo, 'a fifo_result) prog" where
  "fifo_call (F_peek n) = bnd (fifo_peek n) (\<lambda>xs. ret (Cells xs))"
| "fifo_call (F_read n) = bnd (fifo_read n) (\<lambda>xs. ret (Cells xs))"
| "fifo_call (F_write d) = bnd (fifo_write d) (\<lambda>n. ret (Count n))"
| "fifo_call F_begin = bnd fifo_begin (\<lambda>p. ret (Count p))"
| "fifo_call F_next = bnd fifo_next (\<lambda>p. ret (Count p))"
| "fifo_call (F_at i) = bnd (fifo_at i) (\<lambda>x. ret (Cell x))"
| "fifo_call op = thn (fifo_exec op) (ret Done)"

text \<open>No \<open>resize\<close> to nothing, or to less than the data at their offset reach (see \<open>fifo_resize_loses_tail\<close>).\<close>

definition fifo_allowed :: "'a fifo_op \<Rightarrow> 'a fifo \<Rightarrow> bool" where
  "fifo_allowed op f \<longleftrightarrow> keeps_offset f op \<and> (\<forall>p. op \<noteq> F_resize 0 p)"

subsection \<open>Ownership\<close>

definition owned_as :: "bool \<Rightarrow> 'a fifo \<Rightarrow> bool" where
  "owned_as own f \<longleftrightarrow> b_ownMem (f_buffer f) = own"

lemma owned_as_updates [simp]:
  "owned_as own (f\<lparr>f_begin := a\<rparr>) = owned_as own f" "owned_as own (f\<lparr>f_used := b\<rparr>) = owned_as own f"
  "owned_as own (f\<lparr>f_mutex := c\<rparr>) = owned_as own f" "owned_as own (f\<lparr>f_signals := d\<rparr>) = owned_as own f"
  "owned_as own (f\<lparr>f_error := e\<rparr>) = owned_as own f" "owned_as own (f\<lparr>f_eof := e\<rparr>) = owned_as own f"
  "owned_as own (f\<lparr>f_notify := e\<rparr>) = owned_as own f"
  by (simp_all add: owned_as_def)

lemma on_buffer_owned:
  assumes "keeps (\<lambda>b. b_ownMem b = own) m"
  shows "keeps (owned_as own) (on_buffer m)"
proof (rule keepsI)
  fix f :: "'a fifo" assume "owned_as own f"
  then show "owned_as own (snd (on_buffer m f))"
    using keepsD [OF assms, of "f_buffer f"] by (cases "m (f_buffer f)") (simp add: on_buffer_def zoom_def owned_as_def)
qed

lemma buffer_ops_owned:
  "keeps (\<lambda>b. b_ownMem b = own) (buffer_resize n p)" "keeps (\<lambda>b. b_ownMem b = own) (buffer_store i xs)"
  "keeps (\<lambda>b. b_ownMem b = own) (buffer_load i n)" "keeps (\<lambda>b. b_ownMem b = own) (buffer_memmove i j n)"
  "keeps (\<lambda>b. b_ownMem b = own) (buffer_at i)"
  unfolding buffer_resize_def buffer_store_def buffer_load_def buffer_memmove_def buffer_at_def new_array_def preserve_def
  by (auto intro!: keeps_rules)

lemma fifo_locked_owned: "keeps (owned_as own) m \<Longrightarrow> keeps (owned_as own) (fifo_locked m)"
  unfolding fifo_locked_def by (rule keeps_with_lock) simp_all

lemmas owned_rules = keeps_rules fifo_locked_owned on_buffer_owned buffer_ops_owned

lemma notify_if_owned: "keeps (owned_as own) (notify_if u)"
  unfolding notify_if_def by (intro owned_rules) simp

lemma fifo_parts_owned:
  "keeps (owned_as own) fifo_begin" "keeps (owned_as own) (fifo_peek n)" "keeps (owned_as own) (make_room n)"
  "keeps (owned_as own) (put_data d u n)"
  unfolding fifo_begin_def fifo_peek_def make_room_def put_data_def
  by (auto intro!: owned_rules notify_if_owned)

lemma fifo_exec_owned: "keeps (owned_as own) (fifo_exec op)"
  by (cases op; simp only: fifo_exec.simps run_only_def fifo_resize_def fifo_read_def fifo_write_def fifo_drain_def
      fifo_copy_def fifo_advance_def fifo_next_def fifo_at_def fifo_set_error_def fifo_set_eof_def fifo_set_notify_def emit_def;
      intro owned_rules fifo_parts_owned notify_if_owned; simp)

subsection \<open>Each member function\<close>

lemma fifo_view_simps [simp]:
  "q_items (fifo_view f) = fifo_content f" "q_room (fifo_view f) = fifo_size f" "q_owner (fifo_view f) = b_ownMem (f_buffer f)"
  "q_notify (fifo_view f) = f_notify f" "q_eof (fifo_view f) = f_eof f" "q_error (fifo_view f) = f_error f"
  "q_told (fifo_view f) = f_signals f"
  by (simp_all add: fifo_view_def)

lemma fifo_view_queries:
  assumes "fifo_inv f"
  shows "q_readable (fifo_view f) = is_readable f" "q_writable (fifo_view f) = is_writable f"
    "q_free (fifo_view f) = fifo_available f" "q_free (fifo_view f) = fifo_size f - f_used f"
proof -
  have l: "length (fifo_content f) = f_used f" using assms by simp
  have le: "f_used f \<le> fifo_size f" by (rule fifo_used_le [OF assms])
  show "q_readable (fifo_view f) = is_readable f"
    using l by (cases "fifo_content f") (auto simp: q_readable_def is_readable_iff)
  show "q_writable (fifo_view f) = is_writable f"
    using l le by (auto simp: q_writable_def is_writable_def is_full_def is_valid_def)
  show "q_free (fifo_view f) = fifo_available f" "q_free (fifo_view f) = fifo_size f - f_used f"
    using l by (simp_all add: q_free_def fifo_available_eq [OF assms])
qed

text \<open>The kinds of change of \<open>Fifo_Buffer\<close> on the reference.\<close>

lemma appended_view:
  assumes "fifo_inv f" "appended f xs g" "owned_as (b_ownMem (f_buffer f)) g"
  shows "fifo_view g = q_set (fifo_content f @ xs) (fifo_view f)"
  using assms by (simp add: q_set_def q_tell_def fifo_view_def appended_def same_frame_def fifo_tells_def owned_as_def)

lemma removed_view:
  assumes "fifo_inv f" "removed f n g" "owned_as (b_ownMem (f_buffer f)) g"
  shows "fifo_view g = q_set (drop n (fifo_content f)) (fifo_view f)"
  using assms by (simp add: q_set_def q_tell_def fifo_view_def removed_def same_frame_def fifo_tells_def owned_as_def)

lemma compacted_view:
  assumes "compacted f g" "owned_as (b_ownMem (f_buffer f)) g"
  shows "fifo_view g = fifo_view f"
  using assms by (simp add: fifo_view_def compacted_def same_frame_def owned_as_def)

lemma q_set_same: "q_set (q_items q) q = q"
  by (simp add: q_set_def q_tell_def)

lemma fifo_resize_view:
  assumes ok: "fifo_ok f" and off: "keeps_offset f (F_resize n p)" and n: "0 < n" and run: "fifo_resize n p f = (r, g)"
  shows "q_resize n p (fifo_view f) = (case r of Ret _ \<Rightarrow> Ret Done | Fail e \<Rightarrow> Fail e, fifo_view g)"
proof -
  note f = fifo_locked_pieces [OF ok]
  have len: "length (fifo_content f) = f_used f" using f(1) by simp
  consider "p \<and> n < f_used f" | "\<not> (p \<and> n < f_used f)" "\<not> b_ownMem (f_buffer f)"
    | "\<not> (p \<and> n < f_used f)" "b_ownMem (f_buffer f)" "array_max \<le> n"
    | "\<not> (p \<and> n < f_used f)" "b_ownMem (f_buffer f)" "n < array_max" by linarith
  then show ?thesis
  proof cases
    case 4
    obtain h b where h: "fifo_resize n p f = (Ret (), h)" "buffer_inv b" "b_ownMem b" "b_used b = n"
      "p \<longrightarrow> take (min n (fifo_size f)) (contents b) = take (min n (fifo_size f)) (contents (f_buffer f))"
      "h = f\<lparr>f_buffer := b, f_used := (if p then f_used f else 0), f_signals := f_signals f @
       (if f_notify f then edge_signals (f_used f) (if p then f_used f else 0) n else [])\<rparr>"
      using fifo_resize_spec [OF f(3,1) 4(2) n 4(3), of p] 4(1) by fastforce
    have "fifo_content h = (if p then fifo_content f else [])"
    proof (cases p)
      case True
      have "f_begin f + f_used f \<le> min n (fifo_size f)" using True off f(1) by (simp add: fifo_inv_def)
      then have "take (f_used f) (drop (f_begin f) (take (min n (fifo_size f)) xs)) = take (f_used f) (drop (f_begin f) xs)"
        for xs :: "'a cell list" by (rule take_drop_within)
      then have "take (f_used f) (drop (f_begin f) (contents b)) = take (f_used f) (drop (f_begin f) (contents (f_buffer f)))"
        using h(5) True by metis
      then show ?thesis using True by (simp add: h(6) fifo_content_def)
    qed (simp add: h(6) fifo_content_def)
    moreover have "fifo_size h = n" using h(4,6) by (simp add: fifo_size_def buffer_size_def)
    moreover have "r = Ret ()" "g = h" using run h(1) by simp_all
    moreover have "b_ownMem (f_buffer h)" "f_notify h = f_notify f" "f_eof h = f_eof f" "f_error h = f_error f"
      "f_signals h = f_signals f @ (if f_notify f then edge_signals (f_used f) (if p then f_used f else 0) n else [])"
      using h(3) by (simp_all add: h(6))
    ultimately show ?thesis
      using 4 n len by (simp add: q_resize_def q_tell_def fifo_view_def)
  qed (use run n len fifo_resize_error [OF f(3,1), of p n] in \<open>auto simp: q_resize_def\<close>)
qed

lemma fifo_extend_view:
  assumes "fifo_inv f"
  shows "fifo_available f < length xs \<or> \<not> is_writable f \<Longrightarrow> q_extend xs (fifo_view f) = (Fail (Thrown (Runtime_error
      (if fifo_available f < length xs then extend_msg else not_writable_msg))), fifo_view f)"
    and "\<not> (fifo_available f < length xs \<or> \<not> is_writable f) \<Longrightarrow> q_extend xs (fifo_view f) =
      (Ret Done, q_set (fifo_content f @ xs) (fifo_view f))"
  using fifo_view_queries(2,3) [OF assms] by (auto simp: q_extend_def)

lemma fifo_set_error_view:
  assumes "fifo_inv f" "can_lock (f_mutex f)" "fifo_set_error e f = (r, g)"
  shows "r = Ret () \<and> fifo_view g = q_set_error e (fifo_view f)"
proof (cases e)
  case True
  then show ?thesis
    using assms(3) fifo_set_error_True [OF assms(2)] fifo_view_queries(1,2) [OF assms(1)]
    by (auto simp: q_set_error_def q_tell_def fifo_view_def fifo_content_def)
next
  case False
  then show ?thesis
    using assms(3) fifo_set_error_False [OF assms(2)]
    by (auto simp: q_set_error_def q_tell_def fifo_view_def fifo_content_def)
qed

subsection \<open>The refinement\<close>

text \<open>The call of a member function: how the run ends, and the results.\<close>

lemma fifo_call_state: "snd (fifo_call op f) = snd (fifo_exec op f)"
  by (cases op) (simp_all add: thn_apply run_only_def bnd_apply split: prod.split outcome.split)

lemma fifo_call_ok:
  assumes "fifo_ok f" "fifo_allowed op f" "fifo_call op f = (r, g)"
  shows "fifo_ok g \<and> owned_as (b_ownMem (f_buffer f)) g"
proof -
  obtain q h where x: "fifo_exec op f = (q, h)" by (rule prod.exhaust)
  then have "g = h" using fifo_call_state [of op f] assms(3) by simp
  moreover have "fifo_ok h" using fifo_exec_ok [OF assms(1) _ x] assms(2) by (auto simp: fifo_allowed_def)
  moreover have "owned_as (b_ownMem (f_buffer f)) h"
    using keepsD [OF fifo_exec_owned, of "b_ownMem (f_buffer f)" f op] x by (simp add: owned_as_def)
  ultimately show ?thesis by simp
qed

text \<open>The member functions that take data in, those that give data out, and the others.\<close>

lemma fifo_write_view:
  assumes ok: "fifo_ok f" and own: "owned_as (b_ownMem (f_buffer f)) g" and run: "fifo_call (F_write d) f = (r, g)"
  shows "queue_step new (F_write d) (fifo_view f) = (r, fifo_view g)"
proof -
  note f = fifo_locked_pieces [OF ok]
  note q = fifo_view_queries [OF f(1)]
  show ?thesis
  proof (cases "d = [] \<or> \<not> is_writable f")
    case True
    with run q fifo_write_nothing [OF f(3) True] show ?thesis by auto
  next
    case False
    then obtain h where h: "fifo_write d f = (Ret (min (length d) (fifo_size f - f_used f)), h)"
      "appended f (take (fifo_size f - f_used f) d) h"
      using fifo_write_spec [OF f(1,2)] by auto
    with run have "r = Ret (Count (min (length d) (fifo_size f - f_used f)))" "g = h" by simp_all
    then show ?thesis using False q appended_view [OF f(1) _ own] h(2) by simp
  qed
qed

lemma fifo_copy_view:
  assumes ok: "fifo_ok f" and own: "owned_as (b_ownMem (f_buffer f)) g" and run: "fifo_call (F_copy d) f = (r, g)"
  shows "queue_step new (F_copy d) (fifo_view f) = (r, fifo_view g)"
proof -
  note f = fifo_locked_pieces [OF ok]
  consider "d = []" | "d \<noteq> []" "fifo_available f < length d \<or> \<not> is_writable f"
    | "d \<noteq> []" "\<not> (fifo_available f < length d \<or> \<not> is_writable f)" by blast
  then show ?thesis
  proof cases
    case 1
    with run show ?thesis by (simp add: thn_apply fifo_copy_def)
  next
    case 2
    with run fifo_copy_error [OF f(3) 2] fifo_extend_view(1) [OF f(1) 2(2)] show ?thesis by (auto simp: thn_apply)
  next
    case 3
    then obtain h where h: "fifo_copy d f = (Ret (), h)" "appended f d h" using fifo_copy_spec [OF f(1,2) 3(1)] by auto
    with run have "r = Ret Done" "g = h" by (simp_all add: thn_apply)
    then show ?thesis using 3 appended_view [OF f(1) _ own, of d] h(2) fifo_extend_view(2) [OF f(1) 3(2)] by simp
  qed
qed

lemma fifo_advance_view:
  assumes ok: "fifo_ok f" and own: "owned_as (b_ownMem (f_buffer f)) g" and run: "fifo_call (F_advance n) f = (r, g)"
  shows "\<exists>new. queue_step new (F_advance n) (fifo_view f) = (r, fifo_view g)"
proof -
  note f = fifo_locked_pieces [OF ok]
  show ?thesis
  proof (cases "fifo_available f < n \<or> \<not> is_writable f")
    case True
    with run fifo_advance_error [OF f(3) True] fifo_extend_view(1) [OF f(1), of "map (\<lambda>_. None) [0..<n]"]
    show ?thesis by (intro exI [of _ "\<lambda>_. None"]) (auto simp: thn_apply)
  next
    case False
    then obtain h xs where h: "fifo_advance n f = (Ret (), h)" "appended f xs h" "length xs = n"
      using fifo_advance_total [OF f(1,2), of n] by auto
    then have xs: "map ((!) xs) [0..<n] = xs" using map_nth [of xs] by simp
    from h run have "r = Ret Done" "g = h" by (simp_all add: thn_apply)
    then show ?thesis using False appended_view [OF f(1) _ own, of xs] h xs fifo_extend_view(2) [OF f(1), of xs]
      by (intro exI [of _ "(!) xs"]) simp
  qed
qed

lemma fifo_get_view:
  assumes ok: "fifo_ok f" and own: "owned_as (b_ownMem (f_buffer f)) g"
  shows "fifo_call (F_read n) f = (r, g) \<Longrightarrow> queue_step new (F_read n) (fifo_view f) = (r, fifo_view g)"
    and "fifo_call (F_drain n) f = (r, g) \<Longrightarrow> queue_step new (F_drain n) (fifo_view f) = (r, fifo_view g)"
proof -
  note f = fifo_locked_pieces [OF ok]
  note q = fifo_view_queries [OF f(1)]
  have len: "length (fifo_content f) = f_used f" using f(1) by simp
  have cut: "drop (min n (f_used f)) (fifo_content f) = drop n (fifo_content f)" using len by (simp add: min_def)
  {
    assume run: "fifo_call (F_read n) f = (r, g)"
    obtain h where h: "fifo_read n f = (Ret (if is_readable f then take n (fifo_content f) else []), h)"
      "removed f (if is_readable f then min n (f_used f) else 0) h"
      using fifo_read_spec [OF f(1,2)] by blast
    then have g: "g = h" "r = Ret (Cells (if is_readable f then take n (fifo_content f) else []))" using run by simp_all
    show "queue_step new (F_read n) (fifo_view f) = (r, fifo_view g)"
      using removed_view [OF f(1) h(2)] own g q cut q_set_same [of "fifo_view f"] by (simp split: if_splits)
  next
    assume run: "fifo_call (F_drain n) f = (r, g)"
    obtain h where h: "fifo_drain n f = (Ret (), h)" "removed f (if n = 0 then f_used f else min n (f_used f)) h"
      using fifo_drain_spec [OF f(1,3), of n] by blast
    then have g: "g = h" "r = Ret Done" using run by (simp_all add: thn_apply)
    show "queue_step new (F_drain n) (fifo_view f) = (r, fifo_view g)"
      using removed_view [OF f(1) h(2)] own g cut len by (simp split: if_splits)
  }
qed

lemma fifo_simulates:
  assumes ok: "fifo_ok f" and al: "fifo_allowed op f" and run: "fifo_call op f = (r, g)"
  shows "fifo_ok g \<and> (\<exists>new. queue_step new op (fifo_view f) = (r, fifo_view g))"
proof -
  note f = fifo_locked_pieces [OF ok]
  note own = conjunct2 [OF fifo_call_ok [OF ok al run]]
  note q = fifo_view_queries [OF f(1)]
  have "\<exists>new. queue_step new op (fifo_view f) = (r, fifo_view g)"
  proof (cases op)
    case (F_resize n p)
    then have "0 < n" "keeps_offset f (F_resize n p)" using al by (cases n, auto simp: fifo_allowed_def)
    then show ?thesis using F_resize run fifo_resize_view [OF ok, of n p]
      by (cases "fifo_resize n p f") (auto simp: thn_apply split: outcome.splits)
  next
    case (F_peek n)
    then show ?thesis using run fifo_peek_spec [OF f(1,3), of n] q by auto
  next
    case F_begin
    obtain h where h: "fifo_begin f = (Ret 0, h)" "compacted f h" by (rule compacted_begin [OF f(1,3)])
    then show ?thesis using F_begin run own compacted_view [of f g] h(2) by simp
  next
    case F_next
    obtain h where h: "fifo_next f = (Ret (f_used f), h)" "compacted f h" using fifo_next_spec [OF f(1,2)] by blast
    then show ?thesis using F_next run own f(1) compacted_view [of f g] h(2) by simp
  next
    case (F_at i)
    then show ?thesis using run f(1) fifo_at_spec [OF f(1,3), of i] by (auto simp: bnd_apply split: if_splits)
  next
    case (F_set_error e)
    then show ?thesis using run fifo_set_error_view [OF f(1,3), of e]
      by (cases "fifo_set_error e f") (auto simp: thn_apply)
  next
    case (F_set_eof e)
    then show ?thesis using run fifo_set_eof_eq [OF f(3), of e]
      by (auto simp: thn_apply q_tell_def fifo_view_def fifo_content_def)
  next
    case (F_set_notify b)
    then show ?thesis using run by (auto simp: thn_apply fifo_set_notify_def fifo_view_def fifo_content_def fifo_size_def)
  qed (use run fifo_write_view [OF ok own] fifo_copy_view [OF ok own] fifo_advance_view [OF ok own]
      fifo_get_view [OF ok own] in blast)+
  then show ?thesis using fifo_call_ok [OF ok al run] by blast
qed

subsection \<open>The variants with a Buffer\<close>

text \<open>\<open>read(Buffer&)\<close>, \<open>peek(Buffer&)\<close> and \<open>write(const Buffer&)\<close> move the same data; a length of 0 stands for
  everything. The destination is resized.\<close>

definition buf_length :: "nat \<Rightarrow> nat \<Rightarrow> nat" where
  "buf_length len n = (if len = 0 \<or> n < len then n else len)"

lemma pair_locked_free:
  assumes "can_lock (f_mutex f)"
  shows "pair_locked m (f, b) = on_exit m (\<lambda>s. ((fst s)\<lparr>f_mutex := unlocked (f_mutex (fst s))\<rparr>, snd s))
     (f\<lparr>f_mutex := locked (f_mutex f)\<rparr>, b)"
  using assms by (simp add: pair_locked_def with_lock_free)

lemma fifo_peek_buf_spec:
  assumes f: "fifo_inv f" "reentrant f" "is_readable f" and b: "buffer_inv b" "b_ownMem b"
  shows "\<exists>d. fifo_peek_buf len (f, b) = (Ret (buf_length len (f_used f)), (f, d)) \<and> buffer_inv d \<and>
    contents d = take (buf_length len (f_used f)) (fifo_content f)"
proof -
  let ?n = "buf_length len (f_used f)" and ?f = "f\<lparr>f_mutex := locked (f_mutex f)\<rparr>"
  have lk: "can_lock (f_mutex f)" using f(2) by simp
  have n: "0 < ?n" "?n \<le> f_used f" "f_used f < array_max"
    using f fifo_used_le [OF f(1)] fifo_size_less [OF f(1)] by (auto simp: buf_length_def is_readable_iff)
  obtain t where t: "buffer_resize ?n True b = (Ret (), t)" "b_used t = ?n"
  proof (cases "?n \<le> b_capacity b")
    case True
    then show thesis using that buffer_resize_within [OF b(2) n(1)] by simp
  next
    case False
    then show thesis using that buffer_resize_grow [OF b(2,1), of ?n True] n by simp
  qed
  have inv: "buffer_inv t" using buffer_resize_inv [OF b(1) t(1)] by simp
  let ?xs = "take ?n (fifo_content f)"
  have xs: "length ?xs = ?n" using n f(1) by simp
  have f1: "fifo_inv ?f" "can_lock (f_mutex ?f)" using f by (auto simp: reentrant_def)
  have peek: "fifo_peek ?n ?f = (Ret ?xs, ?f)" using fifo_peek_spec [OF f1, of ?n] f by (simp add: is_readable_iff)
  have cap: "?n \<le> b_capacity t" using t(2) inv by (simp add: buffer_inv_def)
  obtain m where m: "length m = b_capacity t" "buffer_store 0 ?xs t = (Ret (), t\<lparr>b_ptr := Some (?xs @ drop ?n m)\<rparr>)"
    by (rule buffer_store_spec [OF inv, of 0 ?xs]) (use cap xs n in auto)
  let ?d = "t\<lparr>b_ptr := Some (?xs @ drop ?n m)\<rparr>"
  have "fifo_peek_buf len (f, b) = (Ret ?n, (f, ?d))"
    unfolding fifo_peek_buf_def pair_locked_free [OF lk]
    using f(3) t(1) peek m(2) xs by (simp add: on_exit_apply bnd_apply thn_apply on_dest_def on_fifo_def zoom_apply is_readable_iff buf_length_def [symmetric])
  moreover have "buffer_inv ?d" using inv m(1) xs cap by (intro buffer_inv_set_ptr) simp_all
  moreover have "contents ?d = ?xs" using t(2) xs by (simp add: contents_def)
  ultimately show ?thesis by blast
qed

lemma fifo_read_buf_spec:
  assumes f: "fifo_inv f" "reentrant f" "is_readable f" and b: "buffer_inv b" "b_ownMem b"
  shows "\<exists>g d. fifo_read_buf len (f, b) = (Ret (buf_length len (f_used f)), (g, d)) \<and> removed f (buf_length len (f_used f)) g \<and>
    contents d = take (buf_length len (f_used f)) (fifo_content f)"
proof -
  let ?n = "buf_length len (f_used f)" and ?f = "f\<lparr>f_mutex := locked (f_mutex f)\<rparr>"
  have lk: "can_lock (f_mutex f)" using f(2) by simp
  have n: "0 < ?n" "?n \<le> f_used f" using f by (auto simp: buf_length_def is_readable_iff)
  obtain d where d: "fifo_peek_buf len (?f, b) = (Ret ?n, (?f, d))" "contents d = take ?n (fifo_content ?f)"
    using fifo_peek_buf_spec [of ?f b len] f b by (auto simp: is_readable_iff)
  let ?g = "(take_off ?n ?f)\<lparr>f_signals := f_signals ?f @ fifo_tells ?f (f_used ?f - ?n)\<rparr>"
  have lt: "f_begin f + f_used f < size_max" "f_used f < size_max"
    using fifo_size_less [OF f(1)] array_max_less_size_max f(1) by (auto simp: fifo_inv_def)
  have small: "sz_sub (f_used f) ?n = f_used f - ?n" "len < f_used f \<Longrightarrow> sz_add (f_begin f) len = f_begin f + len"
    using lt n by auto
  have rest: "?n = f_used f \<or> ?n = len \<and> len < f_used f" by (auto simp: buf_length_def)
  have "fifo_read_buf len (f, b) = (Ret ?n, (?g\<lparr>f_mutex := f_mutex f\<rparr>, d))"
  proof (cases "?n = f_used f")
    case True
    then show ?thesis
      unfolding fifo_read_buf_def pair_locked_free [OF lk] using n small(1) f(3) d(1)
      by (simp add: on_exit_apply bnd_apply thn_apply on_fifo_def zoom_apply is_readable_iff take_off_def notify_if_eq fifo_tells_def)
  next
    case False
    then have "?n = len" "len < f_used f" using rest by auto
    then show ?thesis
      unfolding fifo_read_buf_def pair_locked_free [OF lk] using n small f(3) d(1)
      by (simp add: on_exit_apply bnd_apply thn_apply on_fifo_def zoom_apply is_readable_iff take_off_def notify_if_eq fifo_tells_def)
  qed
  moreover have "removed ?f ?n ?g" using f(1) n(2) by (intro removed_take_off) auto
  then have "removed f ?n (?g\<lparr>f_mutex := f_mutex f\<rparr>)" by (rule removed_locked)
  ultimately show ?thesis using d(2) by auto
qed

lemma fifo_write_buf_spec:
  assumes "buffer_inv b"
  shows "fifo_write_buf b len f = fifo_write (take (buf_length len (b_used b)) (contents b)) f"
proof (cases "b_used b = 0")
  case True
  then have "contents b = []" using contents_length [OF assms] by simp
  then show ?thesis using True by (simp add: fifo_write_buf_def buffer_size_def)
next
  case False
  let ?n = "buf_length len (b_used b)"
  have n: "0 < ?n" "?n \<le> b_used b" using False by (auto simp: buf_length_def)
  obtain m where m: "b_ptr b = Some m" "length m = b_capacity b"
    by (rule buffer_inv_nonempty [OF assms]) (use assms False in \<open>auto simp: buffer_inv_def\<close>)
  have "?n \<le> length m" "take ?n m = take ?n (contents b)"
    using n m assms by (simp_all add: buffer_inv_def contents_def)
  then show ?thesis using n(1) m(1)
    unfolding fifo_write_buf_def buffer_size_def buf_length_def [symmetric] by (simp add: Let_def bnd_def)
qed

text \<open>With the declared mutex the variants that fill a buffer block as soon as there is data.\<close>

lemma fifo_buf_deadlocks:
  assumes "fifo_inv f" "plain_mutex f" "is_readable f" "buffer_inv b" "b_ownMem b"
  shows "fst (fifo_peek_buf len (f, b)) = Fail Deadlock" "fst (fifo_read_buf len (f, b)) = Fail Deadlock"
proof -
  let ?f = "f\<lparr>f_mutex := locked (f_mutex f)\<rparr>" and ?n = "buf_length len (f_used f)"
  have lk: "can_lock (f_mutex f)" "\<not> can_lock (f_mutex ?f)" using assms(2) plain_held by auto
  have n: "0 < ?n" "?n < array_max"
    using assms(1,3) fifo_used_le [OF assms(1)] fifo_size_less [OF assms(1)] by (auto simp: buf_length_def is_readable_iff)
  obtain t where t: "buffer_resize ?n True b = (Ret (), t)"
    using buffer_resize_within [OF assms(5) n(1)] buffer_resize_grow [OF assms(5,4) _ n(2), of True]
    by (cases "?n \<le> b_capacity b") auto
  have "fst (fifo_peek ?n ?f) = Fail Deadlock" using fifo_locked_held [OF lk(2)] n(1) by (simp add: fifo_peek_def)
  then obtain g where "fifo_peek ?n ?f = (Fail Deadlock, g)" by (metis prod.collapse)
  then show "fst (fifo_peek_buf len (f, b)) = Fail Deadlock"
    unfolding fifo_peek_buf_def pair_locked_free [OF lk(1)] using assms(3) t
    by (simp add: on_exit_apply bnd_apply thn_apply on_dest_def on_fifo_def zoom_apply is_readable_iff buf_length_def [symmetric])
  have "fst (fifo_peek_buf len (?f, b)) = Fail Deadlock"
    using lk(2) by (simp add: fifo_peek_buf_def pair_locked_def with_lock_held)
  then obtain u where "fifo_peek_buf len (?f, b) = (Fail Deadlock, u)" by (metis prod.collapse)
  then show "fst (fifo_read_buf len (f, b)) = Fail Deadlock"
    unfolding fifo_read_buf_def pair_locked_free [OF lk(1)] using assms(3)
    by (simp add: on_exit_apply bnd_apply is_readable_iff)
qed

end
