(* ===== verification/Fifo_Declared.thy ===== *)
theory Fifo_Declared
  imports Fifo_Queue
begin

section \<open>BasicFIFOBuffer with the mutex it declares\<close>

text \<open>
  The class declares a \<^verbatim>\<open>std::mutex\<close> (\<^verbatim>\<open>fifo_buffer.h:376\<close>), so some of its calls never come back
  (\<open>fifo_deadlock_iff\<close> of \<open>Fifo_Buffer\<close>). This theory is about the others: a call that comes back does what it does
  on a re-entrant mutex, and the refinement of \<open>Fifo_Queue\<close> holds for the queues the constructors build, for
  every sequence of calls that come back. The variants with a \<^verbatim>\<open>Buffer&\<close> are among the calls.
\<close>

subsection \<open>From the declared mutex to a re-entrant one\<close>

definition reent :: "'a fifo \<Rightarrow> 'a fifo" where
  "reent f = f\<lparr>f_mutex := (f_mutex f)\<lparr>m_kind := Recursive_mutex\<rparr>\<rparr>"

lemma reent_simps [simp]:
  "f_buffer (reent f) = f_buffer f" "f_begin (reent f) = f_begin f" "f_used (reent f) = f_used f"
  "f_notify (reent f) = f_notify f" "f_eof (reent f) = f_eof f" "f_error (reent f) = f_error f"
  "f_signals (reent f) = f_signals f" "reentrant (reent f)" "f_mutex (reent f) = (f_mutex f)\<lparr>m_kind := Recursive_mutex\<rparr>"
  by (simp_all add: reent_def reentrant_def)

lemma reent_queries [simp]:
  "fifo_size (reent f) = fifo_size f" "is_valid (reent f) = is_valid f" "is_empty (reent f) = is_empty f"
  "is_full (reent f) = is_full f" "is_readable (reent f) = is_readable f" "is_writable (reent f) = is_writable f"
  "fifo_available (reent f) = fifo_available f" "fifo_inv (reent f) = fifo_inv f" "fifo_content (reent f) = fifo_content f"
  by (simp_all add: fifo_size_def is_valid_def is_empty_def is_full_def is_readable_def is_writable_def
      fifo_available_def fifo_inv_def fifo_content_def)

lemma reent_notify [simp]: "notify_signals u (reent f) = notify_signals u f"
  by (simp only: notify_signals_def reent_simps reent_queries)

lemma reent_view [simp]: "fifo_view (reent f) = fifo_view f"
  by (simp add: fifo_view_def)

lemma reent_put [simp]:
  "reent (f\<lparr>f_buffer := a\<rparr>) = (reent f)\<lparr>f_buffer := a\<rparr>" "reent (f\<lparr>f_begin := b\<rparr>) = (reent f)\<lparr>f_begin := b\<rparr>"
  "reent (f\<lparr>f_used := u\<rparr>) = (reent f)\<lparr>f_used := u\<rparr>" "reent (f\<lparr>f_signals := s\<rparr>) = (reent f)\<lparr>f_signals := s\<rparr>"
  "reent (f\<lparr>f_error := e\<rparr>) = (reent f)\<lparr>f_error := e\<rparr>" "reent (f\<lparr>f_eof := e\<rparr>) = (reent f)\<lparr>f_eof := e\<rparr>"
  "reent (f\<lparr>f_notify := e\<rparr>) = (reent f)\<lparr>f_notify := e\<rparr>"
  by (simp_all add: reent_def)

text \<open>\<open>relaxes m\<close>: unless \<open>m\<close> blocks, it does the same on the re-entrant queue; when it returns or throws, the
  mutex is as it was.\<close>

definition came_back :: "'r outcome \<Rightarrow> bool" where
  "came_back r \<longleftrightarrow> (case r of Ret x \<Rightarrow> True | Fail (Thrown e) \<Rightarrow> True | Fail _ \<Rightarrow> False)"

lemma came_back_simps [simp]:
  "came_back (Ret x)" "came_back (Fail (Thrown e))" "\<not> came_back (Fail Deadlock)" "\<not> came_back (Fail Abort)"
  "\<not> came_back (Fail (Undef u))" "\<not> came_back (Fail Pending)" "\<not> came_back (Fail (Exited n))"
  by (simp_all add: came_back_def)

lemma came_back_Fail: "came_back (Fail e) \<longleftrightarrow> (\<exists>x. e = Thrown x)"
  by (cases e) simp_all

lemma came_back_cases:
  assumes "came_back r"
  obtains (Ret) x where "r = Ret x" | (Thrown) e where "r = Fail (Thrown e)"
  using assms by (auto simp: came_back_def split: outcome.splits failure.splits)

definition relaxes :: "('a fifo, 'r) prog \<Rightarrow> bool" where
  "relaxes m \<longleftrightarrow> (\<forall>f r g. m f = (r, g) \<longrightarrow> r \<noteq> Fail Deadlock \<longrightarrow>
     m (reent f) = (r, reent g) \<and> (came_back r \<longrightarrow> f_mutex g = f_mutex f))"

lemma relaxesD:
  assumes "relaxes m" "m f = (r, g)" "r \<noteq> Fail Deadlock"
  shows "m (reent f) = (r, reent g)" "came_back r \<Longrightarrow> f_mutex g = f_mutex f"
  using assms unfolding relaxes_def by blast+

lemma relaxesI:
  "(\<And>f r g. m f = (r, g) \<Longrightarrow> r \<noteq> Fail Deadlock \<Longrightarrow> m (reent f) = (r, reent g) \<and> (came_back r \<longrightarrow> f_mutex g = f_mutex f)) \<Longrightarrow> relaxes m"
  unfolding relaxes_def by blast

named_theorems relaxes_rules \<open>structure rules for programs that do not depend on the kind of the mutex\<close>

lemma relaxes_basic [relaxes_rules]:
  "relaxes (ret x)" "relaxes (throw_runtime msg)" "relaxes (fail e)"
  by (auto simp: relaxes_def)

lemma relaxes_gets [relaxes_rules]: "(\<And>f. p (reent f) = p f) \<Longrightarrow> relaxes (gets p)"
  by (auto simp: relaxes_def)

lemma relaxes_assertion [relaxes_rules]: "(\<And>f. p (reent f) = p f) \<Longrightarrow> relaxes (assertion p)"
  by (auto simp: relaxes_def)

lemma relaxes_modify [relaxes_rules]:
  "(\<And>f. h (reent f) = reent (h f)) \<Longrightarrow> (\<And>f. f_mutex (h f) = f_mutex f) \<Longrightarrow> relaxes (modify h)"
  by (auto simp: relaxes_def)

lemma relaxes_bnd [relaxes_rules]:
  assumes m: "relaxes m" and k: "\<And>x. relaxes (k x)"
  shows "relaxes (bnd m k)"
proof (rule relaxesI)
  fix f r g assume run: "bnd m k f = (r, g)" and nd: "r \<noteq> Fail Deadlock"
  from run show "bnd m k (reent f) = (r, reent g) \<and> (came_back r \<longrightarrow> f_mutex g = f_mutex f)"
  proof (cases rule: bnd_cases)
    case (Ret x u)
    then show ?thesis using relaxesD [OF m Ret(1)] relaxesD [OF k Ret(2) nd] by (simp add: bnd_apply)
  next
    case (Fail e)
    then show ?thesis using relaxesD [OF m Fail(1)] nd by (auto simp: bnd_apply came_back_Fail)
  qed
qed

lemma relaxes_thn [relaxes_rules]: "relaxes m \<Longrightarrow> relaxes n \<Longrightarrow> relaxes (thn m n)"
  unfolding thn_def by (rule relaxes_bnd)

lemma relaxes_cond [relaxes_rules]:
  "(\<And>f. p (reent f) = p f) \<Longrightarrow> relaxes m \<Longrightarrow> relaxes n \<Longrightarrow> relaxes (cond p m n)"
  by (auto simp: relaxes_def)

lemma relaxes_if [relaxes_rules]: "relaxes m \<Longrightarrow> relaxes n \<Longrightarrow> relaxes (if b then m else n)"
  by simp

lemma relaxes_prod [relaxes_rules]: "(\<And>x y. relaxes (k x y)) \<Longrightarrow> relaxes (case z of (x, y) \<Rightarrow> k x y)"
  by (cases z) simp

lemma relaxes_on_buffer [relaxes_rules]: "relaxes (on_buffer m)"
  by (auto simp: relaxes_def on_buffer_def zoom_apply split: prod.splits)

lemma relaxes_locked [relaxes_rules]:
  assumes m: "relaxes m"
  shows "relaxes (fifo_locked m)"
proof (rule relaxesI)
  fix f r g assume run: "fifo_locked m f = (r, g)" and nd: "r \<noteq> Fail Deadlock"
  let ?f = "f\<lparr>f_mutex := locked (f_mutex f)\<rparr>" and ?u = "\<lambda>s :: 'a fifo. s\<lparr>f_mutex := unlocked (f_mutex s)\<rparr>"
  have lk: "can_lock (f_mutex f)"
    using run nd fifo_locked_held [of f m] by (cases "can_lock (f_mutex f)") auto
  obtain q h where q: "m ?f = (q, h)" by (rule prod.exhaust)
  have out: "on_exit m ?u ?f = (r, g)" using run lk by (simp add: fifo_locked_def with_lock_free)
  have nq: "q \<noteq> Fail Deadlock" using out q nd by (auto simp: on_exit_apply)
  have re: "reent ?f = (reent f)\<lparr>f_mutex := locked (f_mutex (reent f))\<rparr>" by (simp add: reent_def locked_def)
  note t = relaxesD [OF m q nq, unfolded re]
  have un: "reent (?u h) = ?u (reent h)" by (simp add: reent_def unlocked_def)
  have "fifo_locked m (reent f) = on_exit m ?u ((reent f)\<lparr>f_mutex := locked (f_mutex (reent f))\<rparr>)"
    by (simp add: fifo_locked_def with_lock_free)
  also have "\<dots> = (r, reent g)"
    using out q t(1) un by (auto simp: on_exit_apply split: outcome.splits failure.splits)
  finally show "fifo_locked m (reent f) = (r, reent g) \<and> (came_back r \<longrightarrow> f_mutex g = f_mutex f)"
    using out q t(2) by (auto simp: on_exit_apply split: outcome.splits failure.splits)
qed

lemma relaxes_parts [relaxes_rules]:
  "relaxes (notify_if u)" "relaxes (emit sg)" "relaxes fifo_begin" "relaxes (fifo_peek n)" "relaxes (make_room n)"
  "relaxes (put_data d u n)"
proof -
  show n: "relaxes (notify_if u)" "relaxes (emit sg)" for u sg
    unfolding notify_if_def emit_def by (intro relaxes_rules; simp)+
  show b: "relaxes fifo_begin" "relaxes (fifo_peek n)"
    unfolding fifo_begin_def fifo_peek_def by (intro relaxes_rules; simp)+
  show "relaxes (make_room n)" "relaxes (put_data d u n)"
    unfolding make_room_def put_data_def by (intro relaxes_rules n b; simp)+
qed

lemma relaxes_call: "relaxes (fifo_call op)"
  by (cases op; simp only: fifo_call.simps fifo_exec.simps fifo_resize_def fifo_read_def fifo_write_def fifo_drain_def
      fifo_copy_def fifo_advance_def fifo_next_def fifo_at_def fifo_set_error_def fifo_set_eof_def fifo_set_notify_def;
      intro relaxes_rules; simp)

subsection \<open>All the calls a client can make\<close>

text \<open>The calls of \<open>Fifo_Queue\<close> and the variants that fill or read a \<^verbatim>\<open>Buffer\<close> of the caller's. What such a call
  delivers are the cells it has put at the front of that buffer.\<close>

datatype 'a fifo_member =
    Plain "'a fifo_op"
  | Peek_to nat "'a buffer"
  | Read_to nat "'a buffer"
  | Write_from "'a buffer" nat

definition with_dest :: "('a fifo \<times> 'a buffer, nat) prog \<Rightarrow> 'a buffer \<Rightarrow> ('a fifo, 'a fifo_result) prog" where
  "with_dest m b = (\<lambda>f. case m (f, b) of (r, (g, d)) \<Rightarrow>
     (case r of Ret n \<Rightarrow> Ret (Cells (take n (contents d))) | Fail e \<Rightarrow> Fail e, g))"

fun member_call :: "'a fifo_member \<Rightarrow> ('a fifo, 'a fifo_result) prog" where
  "member_call (Plain op) = fifo_call op"
| "member_call (Peek_to len b) = with_dest (fifo_peek_buf len) b"
| "member_call (Read_to len b) = with_dest (fifo_read_buf len) b"
| "member_call (Write_from b len) = bnd (fifo_write_buf b len) (\<lambda>n. ret (Count n))"

text \<open>The buffers a client passes are well formed.\<close>

fun member_args :: "'a fifo_member \<Rightarrow> bool" where
  "member_args (Plain op) = True"
| "member_args (Peek_to len b) = buffer_inv b"
| "member_args (Read_to len b) = buffer_inv b"
| "member_args (Write_from b len) = buffer_inv b"

text \<open>The reference: a destination that does not own its array refuses the data.\<close>

fun fifo_member_step :: "(nat \<Rightarrow> 'a cell) \<Rightarrow> 'a fifo_member \<Rightarrow> 'a fqueue \<Rightarrow> 'a fifo_result outcome \<times> 'a fqueue" where
  "fifo_member_step new (Plain op) q = queue_step new op q"
| "fifo_member_step new (Peek_to len b) q =
     (if \<not> q_readable q then (Ret (Cells []), q)
      else if \<not> b_ownMem b then (Fail (Thrown (Runtime_error not_owner_msg)), q)
      else (Ret (Cells (take (buf_length len (length (q_items q))) (q_items q))), q))"
| "fifo_member_step new (Read_to len b) q =
     (if \<not> q_readable q then (Ret (Cells []), q)
      else if \<not> b_ownMem b then (Fail (Thrown (Runtime_error not_owner_msg)), q)
      else (Ret (Cells (take (buf_length len (length (q_items q))) (q_items q))),
        q_set (drop (buf_length len (length (q_items q))) (q_items q)) q))"
| "fifo_member_step new (Write_from b len) q = queue_step new (F_write (take (buf_length len (b_used b)) (contents b))) q"

lemma with_dest_apply:
  "m (f, b) = (r, (g, d)) \<Longrightarrow> with_dest m b f = (case r of Ret n \<Rightarrow> Ret (Cells (take n (contents d))) | Fail e \<Rightarrow> Fail e, g)"
  by (simp add: with_dest_def)

lemma pair_unlock [simp]: "f\<lparr>f_mutex := unlocked (locked (f_mutex f))\<rparr> = f"
  by simp

lemma fifo_peek_buf_nothing:
  assumes "can_lock (f_mutex f)"
  shows "\<not> is_readable f \<Longrightarrow> fifo_peek_buf len (f, b) = (Ret 0, (f, b))"
    and "is_readable f \<Longrightarrow> \<not> b_ownMem b \<Longrightarrow> fifo_peek_buf len (f, b) = (Fail (Thrown (Runtime_error not_owner_msg)), (f, b))"
    and "\<not> is_readable f \<Longrightarrow> fifo_read_buf len (f, b) = (Ret 0, (f, b))"
  unfolding fifo_peek_buf_def fifo_read_buf_def pair_locked_free [OF assms]
  by (simp_all add: on_exit_apply bnd_apply thn_apply on_dest_def zoom_apply is_readable_iff buffer_resize_not_owner)

lemma fifo_read_buf_dead:
  assumes "plain_mutex f" "is_readable f"
  shows "fst (fifo_read_buf len (f, b)) = Fail Deadlock"
proof -
  let ?f = "f\<lparr>f_mutex := locked (f_mutex f)\<rparr>"
  have lk: "can_lock (f_mutex f)" "\<not> can_lock (f_mutex ?f)" using assms(1) plain_held by auto
  have "fst (fifo_peek_buf len (?f, b)) = Fail Deadlock"
    using lk(2) by (simp add: fifo_peek_buf_def pair_locked_def with_lock_held)
  then obtain u where "fifo_peek_buf len (?f, b) = (Fail Deadlock, u)" by (metis prod.collapse)
  then show ?thesis
    unfolding fifo_read_buf_def pair_locked_free [OF lk(1)] using assms(2)
    by (simp add: on_exit_apply bnd_apply is_readable_iff)
qed

text \<open>The calls that never come back, all variants included (compare \<open>fifo_deadlock_iff\<close>).\<close>

fun member_dead :: "'a fifo \<Rightarrow> 'a fifo_member \<Rightarrow> bool" where
  "member_dead f (Plain op) = locks_twice f op"
| "member_dead f (Peek_to len b) = (is_readable f \<and> b_ownMem b)"
| "member_dead f (Read_to len b) = is_readable f"
| "member_dead f (Write_from b len) = (b_used b \<noteq> 0 \<and> is_writable f)"

lemma fifo_call_outcome: "fst (fifo_call op f) = Fail e \<longleftrightarrow> fst (fifo_exec op f) = Fail e"
  by (cases op) (simp_all add: thn_apply run_only_def bnd_apply split: prod.split outcome.split)

lemma write_buf_call:
  "buffer_inv b \<Longrightarrow> member_call (Write_from b len) = fifo_call (F_write (take (buf_length len (b_used b)) (contents b)))"
  by (simp add: fun_eq_iff fifo_write_buf_spec bnd_apply)

lemma write_buf_empty: "buffer_inv b \<Longrightarrow> take (buf_length len (b_used b)) (contents b) = [] \<longleftrightarrow> b_used b = 0"
  using contents_length [of b] by (auto simp: buf_length_def simp flip: length_0_conv)

definition declared :: "'a fifo \<Rightarrow> bool" where
  "declared f \<longleftrightarrow> fifo_inv f \<and> plain_mutex f"

lemma member_dead_iff:
  assumes f: "declared f" and a: "member_args m"
  shows "fst (member_call m f) = Fail Deadlock \<longleftrightarrow> member_dead f m"
proof -
  have i: "fifo_inv f" "plain_mutex f" "can_lock (f_mutex f)" using f by (auto simp: declared_def)
  note op = deadlock_if [OF i(1,2)] no_deadlock_otherwise [OF i(1,2)]
  show ?thesis
  proof (cases m)
    case (Plain op)
    then show ?thesis using op [of op] by (auto simp: fifo_call_outcome)
  next
    case (Peek_to len b)
    then show ?thesis
      using fifo_peek_buf_nothing(1,2) [OF i(3), where len = len and b = b] fifo_buf_deadlocks(1) [OF i(1,2), where len = len and b = b] a
      by (cases "is_readable f"; cases "b_ownMem b"; cases "fifo_peek_buf len (f, b)") (auto simp: with_dest_def)
  next
    case (Read_to len b)
    then show ?thesis
      using fifo_peek_buf_nothing(3) [OF i(3), where len = len and b = b] fifo_read_buf_dead [OF i(2), where len = len and b = b]
      by (cases "is_readable f"; cases "fifo_read_buf len (f, b)") (auto simp: with_dest_def)
  next
    case (Write_from b len)
    then have b: "buffer_inv b" using a by simp
    show ?thesis
      using op [of "F_write (take (buf_length len (b_used b)) (contents b))"] write_buf_empty [OF b, of len]
      by (simp only: Write_from write_buf_call [OF b] fifo_call_outcome) auto
  qed
qed

text \<open>The calls the reference covers: no \<open>resize\<close> to nothing, nor to less than the end of the data
  (\<open>fifo_resize_loses_tail\<close>, \<open>resize_then_overrun\<close>).\<close>

fun resize_fits :: "'a fifo_member \<Rightarrow> 'a fifo \<Rightarrow> bool" where
  "resize_fits (Plain op) f = keeps_offset f op"
| "resize_fits _ f = True"

definition no_zero_resize :: "'a fifo_member \<Rightarrow> bool" where
  "no_zero_resize m \<longleftrightarrow> (\<forall>p. m \<noteq> Plain (F_resize 0 p))"

definition member_ok :: "'a fifo_member \<Rightarrow> 'a fifo \<Rightarrow> bool" where
  "member_ok m f \<longleftrightarrow> member_args m \<and> resize_fits m f \<and> no_zero_resize m \<and> fst (member_call m f) \<noteq> Fail Deadlock"

lemma plain_call_simulates:
  assumes f: "declared f" and al: "keeps_offset f op" "\<forall>p. op \<noteq> F_resize 0 p"
    and run: "fifo_call op f = (r, g)" and nd: "r \<noteq> Fail Deadlock"
  shows "came_back r \<and> declared g \<and> (\<exists>new. queue_step new op (fifo_view f) = (r, fifo_view g))"
proof -
  note t = relaxesD [OF relaxes_call run nd]
  have ok: "fifo_ok (reent f)" using f by (simp add: declared_def fifo_ok_def)
  have ko: "keeps_offset (reent f) op" using al(1) by (cases op) (auto split: if_splits)
  have al': "fifo_allowed op (reent f)" using ko al(2) by (simp add: fifo_allowed_def)
  from fifo_simulates [OF ok al' t(1)] obtain new
    where s: "fifo_ok (reent g)" "queue_step new op (fifo_view f) = (r, fifo_view g)" by auto
  have "came_back r" using s(2)
    by (cases op) (auto simp: q_resize_def q_extend_def split: if_splits)
  moreover have "fifo_inv g" using s(1) by (simp add: fifo_ok_def)
  ultimately show ?thesis using s(2) t(2) f by (auto simp: declared_def plain_mutex_def)
qed

lemma member_simulates:
  assumes f: "declared f" and ok: "member_ok m f" and run: "member_call m f = (r, g)"
  shows "came_back r \<and> declared g \<and> (\<exists>new. fifo_member_step new m (fifo_view f) = (r, fifo_view g))"
proof -
  have i: "fifo_inv f" "plain_mutex f" "can_lock (f_mutex f)" using f by (auto simp: declared_def)
  note q = fifo_view_queries [OF i(1)]
  have nd: "r \<noteq> Fail Deadlock" using ok run by (simp add: member_ok_def)
  have dead: "\<not> member_dead f m" using member_dead_iff [OF f, of m] ok by (simp add: member_ok_def)
  show ?thesis
  proof (cases m)
    case (Plain op)
    then show ?thesis
      using plain_call_simulates [OF f _ _ _ nd, of op g] ok run by (simp add: member_ok_def no_zero_resize_def)
  next
    case (Peek_to len b)
    then show ?thesis
      using run dead f q fifo_peek_buf_nothing(1,2) [OF i(3), where len = len and b = b]
      by (cases "is_readable f") (auto simp: with_dest_apply)
  next
    case (Read_to len b)
    then show ?thesis
      using run dead f q fifo_peek_buf_nothing(3) [OF i(3), where len = len and b = b] by (auto simp: with_dest_apply)
  next
    case (Write_from b len)
    then have b: "buffer_inv b" using ok by (simp add: member_ok_def)
    let ?op = "F_write (take (buf_length len (b_used b)) (contents b))"
    have "fifo_call ?op f = (r, g)" using run by (simp only: Write_from write_buf_call [OF b])
    then show ?thesis using plain_call_simulates [OF f _ _ _ nd, of ?op g] Write_from by simp
  qed
qed

interpretation fm: data_refinement member_call fifo_member_step fifo_view declared member_ok
  by unfold_locales (use member_simulates in blast)

subsection \<open>Queues as the constructors build them\<close>

datatype 'a fifo_ctor = New nat bool | Wrap "'a cell list" bool | Copy_mem "'a cell list" bool

fun construct :: "'a fifo_ctor \<Rightarrow> (unit, 'a fifo) prog" where
  "construct (New n notify) = fifo_new n notify"
| "construct (Wrap m notify) = ret (fifo_wrap m notify)"
| "construct (Copy_mem xs notify) = fifo_copy_mem xs notify"

text \<open>The caller's array is not larger than the largest object.\<close>

fun ctor_args :: "'a fifo_ctor \<Rightarrow> bool" where
  "ctor_args (New n notify) = True"
| "ctor_args (Wrap m notify) = (length m < array_max)"
| "ctor_args (Copy_mem xs notify) = (length xs < array_max)"

fun new_queue :: "'a fifo_ctor \<Rightarrow> 'a fqueue" where
  "new_queue (New n notify) = \<lparr>q_items = [], q_room = n, q_owner = True, q_notify = notify, q_eof = False, q_error = False, q_told = []\<rparr>"
| "new_queue (Wrap m notify) = \<lparr>q_items = [], q_room = length m, q_owner = False, q_notify = notify, q_eof = False, q_error = False, q_told = []\<rparr>"
| "new_queue (Copy_mem xs notify) = \<lparr>q_items = xs, q_room = length xs, q_owner = True, q_notify = notify, q_eof = False, q_error = False, q_told = []\<rparr>"

lemma construct_new:
  assumes "ctor_args c" "construct c u = (Ret f, v)"
  shows "declared f" "fifo_view f = new_queue c" "f_used f = length (q_items (new_queue c))"
proof -
  have "declared f \<and> fifo_view f = new_queue c \<and> f_used f = length (q_items (new_queue c))"
  proof (cases c)
    case (New n b)
    then have f: "f = fifo_make \<lparr>b_capacity = n, b_used = n, b_ptr = Some (replicate n None), b_ownMem = True\<rparr> 0 b \<and> n < array_max
      \<or> n = 0 \<and> f = fifo_make \<lparr>b_capacity = n, b_used = n, b_ptr = None, b_ownMem = True\<rparr> 0 b"
      using assms(2) by (auto simp: fifo_new_def buffer_new_def bnd_apply split: if_splits)
    then show ?thesis using New
      by (auto simp: fifo_make_def declared_def plain_mutex_def new_mutex_def fifo_inv_def buffer_inv_def fifo_size_def
          buffer_size_def fifo_view_def fifo_content_def array_max_def)
  next
    case (Wrap m b)
    then show ?thesis using assms
      by (auto simp: fifo_wrap_def buffer_wrap_def fifo_make_def declared_def plain_mutex_def new_mutex_def fifo_inv_def
          buffer_inv_def fifo_size_def buffer_size_def fifo_view_def fifo_content_def)
  next
    case (Copy_mem xs b)
    obtain d where d: "buffer_copy_mem xs u = (Ret d, u)" "buffer_inv d" "contents d = xs" "b_used d = length xs" "b_ownMem d"
      using buffer_copy_mem_spec [of xs u] assms(1) Copy_mem by auto
    then have "f = fifo_make d (length xs) b" using assms(2) Copy_mem by (simp add: fifo_copy_mem_def)
    then show ?thesis using d Copy_mem
      by (simp add: fifo_make_def declared_def plain_mutex_def new_mutex_def fifo_inv_def fifo_size_def buffer_size_def
          fifo_view_def fifo_content_def)
  qed
  then show "declared f" "fifo_view f = new_queue c" "f_used f = length (q_items (new_queue c))" by simp_all
qed

text \<open>C3. \<open>BasicFIFOBuffer\<close>, with the mutex it declares, is a bounded queue: from each constructor, a sequence of calls
  (the variants with a \<^verbatim>\<open>Buffer&\<close> included) that all come back, and none of which resizes the storage to nothing or below
  the end of the data, has the results and the exceptions of the reference \<open>fifo_member_step\<close> call by call, and sends the
  same signals in the same order. Which calls come back is \<open>fifo_deadlock_iff\<close> and \<open>member_dead_iff\<close>: with a
  \<^verbatim>\<open>std::mutex\<close> a \<open>read\<close> of data, a \<open>write\<close> or \<open>copy\<close> into room, \<open>next\<close> and an \<open>advance\<close> that compacts
  do not, so data come in by the copying constructor and \<open>advance\<close>, and leave by \<open>peek\<close> and \<open>drain\<close>. The data keep
  their order wherever they are in the storage, and compaction is never seen from outside.\<close>

theorem fifo_calls_refine_queue:
  assumes "ctor_args c" "construct c () = (Ret f, ())"
    and "calls_allowed member_call member_ok ms f" "run_calls member_call ms f = (rs, g)"
  shows "declared g \<and> (\<exists>steps. map snd steps = ms \<and> run_steps fifo_member_step steps (new_queue c) = (rs, fifo_view g))"
  using fm.run_refines [OF construct_new(1) [OF assms(1,2)] assms(3,4)] construct_new(2) [OF assms(1,2)] by simp

subsection \<open>No access outside the storage\<close>

text \<open>A client's run ends with the first call that does not come back.\<close>

fun member_run :: "'a fifo_member list \<Rightarrow> 'a fifo \<Rightarrow> 'a fifo_result outcome list \<times> 'a fifo" where
  "member_run [] f = ([], f)"
| "member_run (m # ms) f = (case member_call m f of (r, g) \<Rightarrow>
     if came_back r then (case member_run ms g of (rs, h) \<Rightarrow> (r # rs, h)) else ([r], g))"

fun run_fits :: "'a fifo_member list \<Rightarrow> 'a fifo \<Rightarrow> bool" where
  "run_fits [] f = True"
| "run_fits (m # ms) f = (resize_fits m f \<and>
     (came_back (fst (member_call m f)) \<longrightarrow> run_fits ms (snd (member_call m f))))"

lemma member_call_safe:
  assumes f: "declared f" and a: "member_args m" "resize_fits m f" and run: "member_call m f = (r, g)"
  shows "came_back r \<and> declared g \<or> r = Fail Deadlock \<or> r = Fail Abort \<and> \<not> no_zero_resize m"
proof (cases "no_zero_resize m")
  case True
  then show ?thesis using member_simulates [OF f _ run] a run by (auto simp: member_ok_def)
next
  case False
  then obtain p where m: "m = Plain (F_resize 0 p)" by (auto simp: no_zero_resize_def)
  have i: "can_lock (f_mutex f)" "fifo_inv f" using f by (auto simp: declared_def)
  note e = fifo_resize_error [OF i, of p 0]
  have "p \<Longrightarrow> f_used f = 0" using a(2) m by auto
  then have "\<not> (p \<and> 0 < f_used f)" by auto
  then consider "r = Fail (Thrown (Runtime_error not_owner_msg))" "g = f" | "r = Fail Abort"
    using e(2,4) run m by (cases "b_ownMem (f_buffer f)"; cases "fifo_resize 0 p f") (auto simp: thn_apply)
  then show ?thesis using f False by cases auto
qed

text \<open>C13. No call on a \<open>BasicFIFOBuffer\<close>, the variants with a \<^verbatim>\<open>Buffer&\<close> included, touches memory outside the storage: from
  each constructor, with the declared mutex, a client's calls come back (with a result or an exception) and leave the
  data inside the storage, up to the first one that blocks for ever on the mutex or, which only \<open>resize(0)\<close> does,
  fails an assertion. The one exception is a \<open>resize\<close> to less than the end of the data, excluded by \<open>run_fits\<close>:
  \<open>resize_then_overrun\<close> shows what follows it.\<close>

theorem fifo_calls_safe:
  assumes "ctor_args c" "construct c () = (Ret f, ())" "list_all member_args ms" "run_fits ms f"
    and "member_run ms f = (rs, g)"
  shows "list_all (\<lambda>r. \<not> is_undef r) rs \<and>
    (declared g \<and> list_all came_back rs \<and> length rs = length ms \<or>
     rs \<noteq> [] \<and> list_all came_back (butlast rs) \<and> (last rs = Fail Deadlock \<or>
       last rs = Fail Abort \<and> (\<exists>p. ms ! (length rs - 1) = Plain (F_resize 0 p))))"
proof -
  have "declared f" by (rule construct_new(1) [OF assms(1,2)])
  then show ?thesis using assms(3-5)
  proof (induction ms arbitrary: f rs)
    case Nil
    then show ?case by simp
  next
    case (Cons m ms)
    obtain r h where r: "member_call m f = (r, h)" by (rule prod.exhaust)
    have s: "came_back r \<and> declared h \<or> r = Fail Deadlock \<or> r = Fail Abort \<and> \<not> no_zero_resize m"
      using member_call_safe [OF Cons.prems(1) _ _ r] Cons.prems(2,3) by simp
    show ?case
    proof (cases "came_back r")
      case True
      obtain rs' where rs': "member_run ms h = (rs', g)" "rs = r # rs'"
        using Cons.prems(4) r True by (auto split: prod.splits)
      have "declared h" using s True by auto
      from Cons.IH [OF this _ _ rs'(1)] Cons.prems(2,3) r True rs'(2) show ?thesis
        by (cases rs'; cases rule: came_back_cases [OF True]) auto
    next
      case False
      then have "rs = [r]" using Cons.prems(4) r by simp
      then show ?thesis using s False by (auto simp: no_zero_resize_def)
    qed
  qed
qed

text \<open>Witness: a client that fills the queue, looks at the data, takes them out and asks for the next free cell, which
  blocks.\<close>

definition client_calls :: "nat fifo_member list" where
  "client_calls = [Plain (F_advance 3), Peek_to 2 \<lparr>b_capacity = 1, b_used = 1, b_ptr = Some [None], b_ownMem = False\<rparr>,
     Plain (F_at 1), Plain (F_drain 2), Plain (F_at 1), Plain (F_advance 2), Plain (F_set_eof True),
     Write_from \<lparr>b_capacity = 1, b_used = 1, b_ptr = Some [Some 9], b_ownMem = True\<rparr> 0]"

definition client_fifo :: "nat fifo" where
  "client_fifo = fifo_make \<lparr>b_capacity = 5, b_used = 5, b_ptr = Some (replicate 5 None), b_ownMem = True\<rparr> 0 True"

lemma client_construct: "construct (New 5 True) () = (Ret client_fifo, ())"
  by (simp add: client_fifo_def fifo_new_def buffer_new_def bnd_apply array_max_def)

lemmas fifo_eval = fifo_make_def fifo_advance_def fifo_at_def fifo_drain_def fifo_peek_def fifo_resize_def fifo_set_eof_def
  fifo_write_buf_def fifo_write_def fifo_peek_buf_def fifo_locked_def pair_locked_def with_lock_def lock_mutex_def can_lock_def unlocked_def
  new_mutex_def make_room_def notify_if_def notify_signals_def emit_def on_buffer_def on_dest_def on_fifo_def with_dest_def
  is_readable_def is_writable_def is_valid_def is_empty_def is_full_def fifo_available_def fifo_size_def buffer_size_def
  buffer_at_def buffer_load_def buffer_resize_def buffer_store_def prog_simps sz_sub_def sz_add_def size_max_def array_max_def mem_read_def
  buffer_copy_mem_def fifo_copy_mem_def

lemma client_run: "member_run client_calls client_fifo = run_calls member_call client_calls client_fifo"
  "fst (run_calls member_call client_calls client_fifo) = [Ret Done, Fail (Thrown (Runtime_error not_owner_msg)), Ret (Cell None),
     Ret Done, Fail (Thrown (Runtime_error index_msg)), Ret Done, Ret Done, Ret (Count 0)]"
  by (simp_all add: client_calls_def client_fifo_def fifo_eval)

lemma client_allowed: "calls_allowed member_call member_ok client_calls client_fifo"
  by (simp add: client_calls_def client_fifo_def member_ok_def no_zero_resize_def buffer_inv_def fifo_eval)

lemma client_fits: "run_fits client_calls client_fifo" "list_all member_args client_calls"
  by (simp_all add: client_calls_def client_fifo_def buffer_inv_def fifo_eval)

theorem fifo_calls_refine_queue_witness:
  "\<exists>rs g steps. run_calls member_call client_calls client_fifo = (rs, g) \<and> length rs = 8 \<and> rs ! 4 = Fail (Thrown (Runtime_error index_msg)) \<and>
     run_steps fifo_member_step steps (new_queue (New 5 True)) = (rs, fifo_view g)"
proof -
  obtain rs g where run: "run_calls member_call client_calls client_fifo = (rs, g)" by (rule prod.exhaust)
  have "\<exists>steps. map snd steps = client_calls \<and> run_steps fifo_member_step steps (new_queue (New 5 True)) = (rs, fifo_view g)"
    using fifo_calls_refine_queue [OF _ client_construct client_allowed run] by simp
  moreover have "length rs = 8" "rs ! 4 = Fail (Thrown (Runtime_error index_msg))" using client_run(2) run by auto
  ultimately show ?thesis using run by blast
qed

theorem fifo_calls_safe_witness:
  "\<exists>rs g. member_run (client_calls @ [Plain F_next, Plain F_begin]) client_fifo = (rs, g) \<and> length rs = 9 \<and>
     last rs = Fail Deadlock \<and> list_all (\<lambda>r. \<not> is_undef r) rs"
proof -
  let ?ms = "client_calls @ [Plain F_next, Plain F_begin]"
  obtain rs g where run: "member_run ?ms client_fifo = (rs, g)" by (rule prod.exhaust)
  have "run_fits ?ms client_fifo" "list_all member_args ?ms" "length rs = 9" "last rs = Fail Deadlock"
    using run [symmetric] by (simp_all add: client_calls_def client_fifo_def buffer_inv_def fifo_next_def fifo_begin_def fifo_eval)
  then show ?thesis using fifo_calls_safe [OF _ client_construct _ _ run] run by simp
qed

text \<open>What such a \<open>resize\<close> does to later calls, with the declared mutex: the data stay at their offset, the space behind
  them is computed as if they were at the front, so \<open>advance\<close> moves the end of the data past the array, and \<open>peek\<close>
  reads there.\<close>

theorem resize_then_overrun:
  "\<exists>f g. construct (Copy_mem [Some (1 :: nat), Some 2, Some 3, Some 4] True) () = (Ret f, ()) \<and>
     member_run [Plain (F_drain 3), Plain (F_resize 2 True), Plain (F_advance 1), Plain (F_peek 2)] f =
       ([Ret Done, Ret Done, Ret Done, Fail (Undef Out_of_bounds)], g)"
  by (simp add: fifo_eval)

subsection \<open>The signals\<close>

fun moves_member :: "'a fifo_member \<Rightarrow> bool" where
  "moves_member (Plain op) = moves_data op"
| "moves_member _ = True"

lemma reent_signals [simp]: "signals_current (reent f) = signals_current f"
  by (simp add: signals_current_def)

lemma moves_current:
  assumes f: "declared f" "signals_current f" and m: "moves_data op" and run: "fifo_call op f = (r, g)" "r \<noteq> Fail Deadlock"
  shows "signals_current g"
proof -
  have ok: "fifo_ok (reent f)" "signals_current (reent f)" using f by (simp_all add: declared_def fifo_ok_def)
  then have inv: "fifo_inv (reent f)" by (simp add: fifo_ok_def)
  have s: "snd (fifo_exec op (reent f)) = reent g"
    using relaxesD(1) [OF relaxes_call run] fifo_call_state [of op "reent f"] by simp
  have "signals_current (reent g)"
    using fifo_exec_moves [OF ok(1) m, unfolded s] ok(2) signals_current_compacted [OF ok(2)]
      signals_current_appended [OF ok(2) inv] signals_current_removed [OF ok(2) inv] by metis
  then show ?thesis by simp
qed

lemma member_moves_current:
  assumes f: "declared f" "signals_current f" and m: "moves_member m" "member_args m"
    and run: "member_call m f = (r, g)" "came_back r"
  shows "declared g \<and> signals_current g"
proof -
  have ok: "member_ok m f"
    using m run by (cases m) (auto simp: member_ok_def no_zero_resize_def came_back_def elim!: moves_data.elims)
  have g: "declared g" using member_simulates [OF f(1) ok run(1)] by blast
  have lk: "can_lock (f_mutex f)" using f(1) by (simp add: declared_def)
  have dead: "\<not> member_dead f m" using member_dead_iff [OF f(1) m(2)] ok by (simp add: member_ok_def)
  have nd: "r \<noteq> Fail Deadlock" using run(2) by auto
  have "signals_current g"
  proof (cases m)
    case (Plain op)
    then show ?thesis using moves_current [OF f _ _ nd] m(1) run(1) by simp
  next
    case (Peek_to len b)
    then show ?thesis using run(1) dead f(2) fifo_peek_buf_nothing(1,2) [OF lk, where len = len and b = b]
      by (cases "is_readable f") (auto simp: with_dest_apply)
  next
    case (Read_to len b)
    then show ?thesis using run(1) dead f(2) fifo_peek_buf_nothing(3) [OF lk, where len = len and b = b]
      by (auto simp: with_dest_apply)
  next
    case (Write_from b len)
    then have b: "buffer_inv b" using m(2) by simp
    show ?thesis
      by (rule moves_current [OF f, of "F_write (take (buf_length len (b_used b)) (contents b))", OF _ _ nd])
        (use run(1) in \<open>simp_all only: Write_from write_buf_call [OF b] moves_data.simps\<close>)
  qed
  with g show ?thesis by simp
qed

text \<open>C14. On a queue built empty, with room and with notification on, the values a subscriber of \<open>readable\<close> and
  \<open>writable\<close> was last sent tell the truth after any sequence of reads, writes, drains, copies, advances, peeks and
  queries that come back: readable iff the queue holds data, writable iff it has room. The mutex is the declared one.
  (\<open>setError\<close>, \<open>setEOF\<close>, \<open>setNotify\<close> and \<open>resize\<close> are not among the calls.)\<close>

theorem fifo_calls_signal:
  assumes "ctor_args c" "construct c () = (Ret f, ())"
    and "q_items (new_queue c) = []" "q_notify (new_queue c)" "0 < q_room (new_queue c)"
    and "list_all moves_member ms" "list_all member_args ms"
    and "member_run ms f = (rs, g)" "list_all came_back rs"
  shows "f_notify g \<and> told_readable (f_signals g) = (0 < f_used g) \<and> told_writable (f_signals g) = (f_used g < fifo_size g)"
proof -
  have v: "declared f" "fifo_view f = new_queue c" "f_used f = 0" using construct_new [OF assms(1,2)] assms(3) by simp_all
  have "q_told (new_queue c) = []" by (cases c) simp_all
  then have "f_signals f = []" "f_notify f" "0 < fifo_size f" using v(2) assms(4,5) by (metis fifo_view_simps(7), metis fifo_view_simps(4), metis fifo_view_simps(2))
  then have "signals_current f" using v(3) by (simp add: signals_current_def told_readable_def told_writable_def)
  with v(1) have "declared g \<and> signals_current g" using assms(6-9)
  proof (induction ms arbitrary: f rs)
    case (Cons m ms)
    obtain r h where r: "member_call m f = (r, h)" by (rule prod.exhaust)
    have cb: "came_back r" using Cons.prems(5,6) r by (auto split: if_splits prod.splits)
    obtain rs' where rs': "member_run ms h = (rs', g)" "rs = r # rs'"
      using Cons.prems(5) r cb by (auto split: prod.splits)
    have "declared h \<and> signals_current h"
      using member_moves_current [OF Cons.prems(1,2) _ _ r cb] Cons.prems(3,4) by simp
    then show ?case using Cons.IH [of h rs'] Cons.prems(3,4,6) rs' by simp
  qed simp
  then show ?thesis by (simp add: signals_current_def)
qed

theorem fifo_calls_signal_witness:
  "\<exists>rs g. member_run [Plain (F_advance 5), Plain (F_peek 2), Plain (F_drain 1), Plain (F_drain 0)] client_fifo = (rs, g) \<and>
     f_signals g = [Readable True, Writable False, Writable True, Readable False] \<and>
     \<not> told_readable (f_signals g) \<and> told_writable (f_signals g)"
proof -
  let ?ms = "[Plain (F_advance 5), Plain (F_peek 2), Plain (F_drain 1), Plain (F_drain 0)] :: nat fifo_member list"
  obtain rs g where run: "member_run ?ms client_fifo = (rs, g)" by (rule prod.exhaust)
  have r: "list_all came_back rs" "f_used g = 0" "fifo_size g = 5"
    "f_signals g = [Readable True, Writable False, Writable True, Readable False]"
    using run [symmetric] by (simp_all add: client_fifo_def fifo_eval)
  show ?thesis
    using fifo_calls_signal [OF _ client_construct _ _ _ _ _ run r(1)] run r(2-4) by simp
qed

end
