(* ===== verification/Kernel.thy ===== *)
theory Kernel
  imports Prelude "HOL-Library.Word"
begin

section \<open>The operating system as a script of replies\<close>

text \<open>
  The program talks to the kernel through system calls. The kernel is not part of the repository,
  so the model keeps it as a parameter: a \<open>world\<close> holds the list of the replies that the kernel
  is going to give, the list of the calls made so far, and \<^verbatim>\<open>errno\<close>. \<open>sys c\<close>
  makes the call \<open>c\<close>: it records the call, takes the next reply and, when the reply is an
  error, stores its code in \<^verbatim>\<open>errno\<close>.

  \<open>reply_ok\<close> is what the manual pages promise of a reply (a transfer is no longer than
  requested, the number of events is at most the size of the array, and so on). A script that has
  run out, or that holds a reply the call cannot have, ends the run with \<open>Pending\<close>: nothing is
  known about what follows. Theorems quantify over all scripts, and those that say that a
  function returns name the replies it needs.

  Signals. All programs here call \<^verbatim>\<open>send\<close> with no flags and leave \<^verbatim>\<open>SIGPIPE\<close> alone. Where the kernel
  raises it, because the connection is broken, the process dies inside the call: no reply comes, and that run is the one whose
  script ends there. A reply with \<^verbatim>\<open>EPIPE\<close> is for a process that was started with the signal ignored. A theorem
  about all scripts is about both.
\<close>

subsection \<open>Constants of the system headers\<close>

definition EINTR :: int where "EINTR = 4"
definition EAGAIN :: int where "EAGAIN = 11"
definition EWOULDBLOCK :: int where "EWOULDBLOCK = 11"
definition EEXIST :: int where "EEXIST = 17"
definition ENFILE :: int where "ENFILE = 23"
definition ETIMEDOUT :: int where "ETIMEDOUT = 110"
definition EINPROGRESS :: int where "EINPROGRESS = 115"

definition AF_INET :: int where "AF_INET = 2"
definition AF_INET6 :: int where "AF_INET6 = 10"
definition SOCK_STREAM :: int where "SOCK_STREAM = 1"
definition IPPROTO_TCP :: int where "IPPROTO_TCP = 6"
definition O_NONBLOCK :: int where "O_NONBLOCK = 2048"

lemmas errno_defs = EINTR_def EAGAIN_def EWOULDBLOCK_def EEXIST_def ENFILE_def ETIMEDOUT_def EINPROGRESS_def

datatype fcntl_cmd = F_GETFL | F_SETFL int

datatype ioctl_req = FIONREAD | Other_request int

datatype sockopt = SO_REUSEADDR | SO_REUSEPORT | SO_KEEPALIVE | SO_OOBINLINE | SO_BROADCAST
  | SO_SNDBUF | SO_RCVBUF | SO_LINGER | SO_ERROR | TCP_NODELAY | IPV6_V6ONLY

datatype optval = Int_val int | Linger_val int int

subsection \<open>Addresses\<close>

text \<open>\<^verbatim>\<open>htons\<close> of a little-endian machine; the address is kept as its four bytes in
  memory order.\<close>

definition htons :: "16 word \<Rightarrow> 16 word" where
  "htons p = or (push_bit 8 p) (drop_bit 8 p)"

record sockaddr =
  sin_family :: int
  sin_addr :: string
  sin_port :: "16 word"

subsection \<open>Calls, replies, the world\<close>

datatype epoll_op = EPOLL_CTL_ADD | EPOLL_CTL_MOD | EPOLL_CTL_DEL

datatype syscall =
    Socket int int int
  | Bind int sockaddr
  | Listen int int
  | Accept int
  | Connect int sockaddr
  | Recv int nat int
  | Send int string int
  | Readv int "nat list"
  | Writev int "string list"
  | Close int
  | Shutdown int int
  | Ioctl int ioctl_req
  | Fcntl int fcntl_cmd
  | Setsockopt int sockopt optval
  | Getsockopt int sockopt
  | Epoll_create int
  | Epoll_ctl int epoll_op int nat int
  | Epoll_wait int nat int
  | Fork
  | Setsid
  | Umask int
  | Freopen string string int
  | Chdir string
  | Getcwd
  | Kill int int
  | Getpid
  | Sigprocmask "int list"
  | Sigwait "int list"

text \<open>An \<^verbatim>\<open>epoll\<close> event is a mask and the user data that was registered with it.\<close>

datatype payload = No_data | Bytes string | Value optval | Events "(nat \<times> int) list"

record reply =
  rp_rc :: int
  rp_err :: int
  rp_data :: payload

fun bytes_of :: "payload \<Rightarrow> string" where
  "bytes_of (Bytes xs) = xs"
| "bytes_of _ = []"

fun value_of :: "payload \<Rightarrow> optval option" where
  "value_of (Value v) = Some v"
| "value_of _ = None"

fun events_of :: "payload \<Rightarrow> (nat \<times> int) list" where
  "events_of (Events es) = es"
| "events_of _ = []"

text \<open>A signed length given where a \<^verbatim>\<open>size_t\<close> is expected.\<close>

definition size_of_int :: "int \<Rightarrow> nat" where
  "size_of_int i = nat (i mod int size_max)"

lemma size_of_int_small [simp, size_simps]: "n < size_max \<Longrightarrow> size_of_int (int n) = n"
  by (simp add: size_of_int_def)

text \<open>A transfer of at most \<open>n\<close> bytes, and a call that only succeeds or fails.\<close>

definition transfer_ok :: "int \<Rightarrow> reply \<Rightarrow> bool" where
  "transfer_ok n r \<longleftrightarrow> rp_rc r = -1 \<and> bytes_of (rp_data r) = [] \<or> 0 \<le> rp_rc r \<and> rp_rc r \<le> n"

definition status_ok :: "reply \<Rightarrow> bool" where
  "status_ok r \<longleftrightarrow> rp_rc r = 0 \<or> rp_rc r = -1"

text \<open>The type of the value an option has.\<close>

fun fits_option :: "sockopt \<Rightarrow> optval option \<Rightarrow> bool" where
  "fits_option opt None \<longleftrightarrow> False"
| "fits_option opt (Some (Int_val i)) \<longleftrightarrow> opt \<noteq> SO_LINGER"
| "fits_option opt (Some (Linger_val i j)) \<longleftrightarrow> opt = SO_LINGER"

fun reply_ok :: "syscall \<Rightarrow> reply \<Rightarrow> bool" where
  "reply_ok (Recv fd n fl) r \<longleftrightarrow>
     transfer_ok (int n) r \<and> (rp_rc r \<ge> 0 \<longrightarrow> int (length (bytes_of (rp_data r))) = rp_rc r)"
| "reply_ok (Readv fd ns) r \<longleftrightarrow>
     transfer_ok (int (sum_list ns)) r \<and>
     (rp_rc r \<ge> 0 \<longrightarrow> int (length (bytes_of (rp_data r))) = rp_rc r)"
| "reply_ok (Send fd xs fl) r \<longleftrightarrow> transfer_ok (int (length xs)) r"
| "reply_ok (Writev fd xss) r \<longleftrightarrow> transfer_ok (int (length (concat xss))) r"
| "reply_ok (Epoll_wait ep n t) r \<longleftrightarrow>
     rp_rc r = -1 \<or> rp_rc r = int (length (events_of (rp_data r))) \<and> rp_rc r \<le> int n"
| "reply_ok (Getsockopt fd opt) r \<longleftrightarrow>
     status_ok r \<and> (rp_rc r = 0 \<longrightarrow> fits_option opt (value_of (rp_data r)))"
| "reply_ok (Ioctl fd req) r \<longleftrightarrow>
     status_ok r \<and> (rp_rc r = 0 \<longrightarrow> fits_option SO_ERROR (value_of (rp_data r)))"
| "reply_ok (Socket af ty pr) r \<longleftrightarrow> rp_rc r \<ge> -1"
| "reply_ok (Accept fd) r \<longleftrightarrow> rp_rc r \<ge> -1"
| "reply_ok (Fcntl fd c) r \<longleftrightarrow> rp_rc r \<ge> -1"
| "reply_ok (Epoll_create n) r \<longleftrightarrow> rp_rc r \<ge> -1"
| "reply_ok Fork r \<longleftrightarrow> rp_rc r \<ge> -1"
| "reply_ok Setsid r \<longleftrightarrow> rp_rc r \<ge> -1"
| "reply_ok (Umask m) r \<longleftrightarrow> rp_rc r \<ge> -1"
| "reply_ok Getpid r \<longleftrightarrow> rp_rc r \<ge> -1"
| "reply_ok Getcwd r \<longleftrightarrow> rp_rc r = -1 \<or> rp_rc r = 0 \<and> bytes_of (rp_data r) \<noteq> []"
| "reply_ok _ r \<longleftrightarrow> status_ok r"

record world =
  w_script :: "reply list"
  w_trace :: "(syscall \<times> reply) list"
  w_errno :: int

definition boot :: "reply list \<Rightarrow> world" where
  "boot rs = \<lparr>w_script = rs, w_trace = [], w_errno = 0\<rparr>"

text \<open>The world after the call \<open>c\<close> was answered with \<open>r\<close>.\<close>

definition answered :: "syscall \<Rightarrow> reply \<Rightarrow> world \<Rightarrow> world" where
  "answered c r w = w\<lparr>w_script := tl (w_script w), w_trace := w_trace w @ [(c, r)],
     w_errno := (if rp_rc r < 0 then rp_err r else w_errno w)\<rparr>"

definition sys :: "syscall \<Rightarrow> (world, reply) prog" where
  "sys c = (\<lambda>w. case w_script w of
       r # rs \<Rightarrow> if reply_ok c r then (Ret r, answered c r w) else (Fail Pending, w)
     | [] \<Rightarrow> (Fail Pending, w))"

lemma answered_simps [simp]:
  "w_script (answered c r w) = tl (w_script w)"
  "w_trace (answered c r w) = w_trace w @ [(c, r)]"
  "w_errno (answered c r w) = (if rp_rc r < 0 then rp_err r else w_errno w)"
  by (simp_all add: answered_def)

lemma boot_simps [simp]: "w_script (boot rs) = rs" "w_trace (boot rs) = []" "w_errno (boot rs) = 0"
  by (simp_all add: boot_def)

lemma sys_reply: "w_script w = r # rs \<Longrightarrow> reply_ok c r \<Longrightarrow> sys c w = (Ret r, answered c r w)"
  by (simp add: sys_def)

lemma sys_Ret:
  "sys c w = (Ret r, w') \<Longrightarrow>
     \<exists>rs. w_script w = r # rs \<and> reply_ok c r \<and> w' = answered c r w"
  by (auto simp: sys_def split: list.splits if_splits)

lemma sys_Fail: "sys c w = (Fail e, w') \<Longrightarrow> e = Pending \<and> w' = w"
  by (auto simp: sys_def split: list.splits if_splits)

lemma sys_cases:
  obtains (reply) r rs where "w_script w = r # rs" "reply_ok c r" "sys c w = (Ret r, answered c r w)"
  | (stuck) "sys c w = (Fail Pending, w)"
proof (cases "\<exists>r rs. w_script w = r # rs \<and> reply_ok c r")
  case True
  then show thesis using reply by (auto intro: sys_reply)
next
  case False
  then have "sys c w = (Fail Pending, w)" by (auto simp: sys_def split: list.splits)
  then show thesis by (rule stuck)
qed

subsection \<open>Loops that repeat an interrupted call\<close>

text \<open>
  \<^verbatim>\<open>do { rc = call(...); } while (again(rc) && errno == EINTR)\<close>. Every turn takes a
  reply from the script, so the loop ends with the script at the latest.
\<close>

function sys_retry :: "(int \<Rightarrow> bool) \<Rightarrow> syscall \<Rightarrow> world \<Rightarrow> reply outcome \<times> world" where
  "sys_retry again c w = (case sys c w of
       (Ret r, w') \<Rightarrow> if again (rp_rc r) \<and> w_errno w' = EINTR then sys_retry again c w'
                     else (Ret r, w')
     | (Fail e, w') \<Rightarrow> (Fail e, w'))"
  by pat_completeness auto

termination sys_retry
  by (relation "measure (\<lambda>(again, c, w). length (w_script w))") (auto dest!: sys_Ret [OF sym])

declare sys_retry.simps [simp del]

lemma sys_retry_again:
  "sys c w = (Ret r, w') \<Longrightarrow> again (rp_rc r) \<Longrightarrow> w_errno w' = EINTR \<Longrightarrow>
     sys_retry again c w = sys_retry again c w'"
  by (subst sys_retry.simps) simp

lemma sys_retry_done:
  "sys c w = (Ret r, w') \<Longrightarrow> \<not> (again (rp_rc r) \<and> w_errno w' = EINTR) \<Longrightarrow>
     sys_retry again c w = (Ret r, w')"
  by (subst sys_retry.simps) (auto simp del: not_False_eq_True)

lemma sys_retry_stuck: "sys c w = (Fail e, w') \<Longrightarrow> sys_retry again c w = (Fail e, w')"
  by (subst sys_retry.simps) simp

definition interrupted :: "reply \<Rightarrow> bool" where
  "interrupted r \<longleftrightarrow> rp_rc r = -1 \<and> rp_err r = EINTR \<and> rp_data r = No_data"

lemma interrupted_ok [simp]: "interrupted r \<Longrightarrow> reply_ok c r"
  by (cases c) (auto simp: interrupted_def transfer_ok_def status_ok_def)

text \<open>The world after the interrupted attempts \<open>is\<close> and the reply \<open>r\<close> that ends the loop.\<close>

definition after_retries :: "syscall \<Rightarrow> reply list \<Rightarrow> reply \<Rightarrow> world \<Rightarrow> world" where
  "after_retries c is r w = w\<lparr>w_script := drop (Suc (length is)) (w_script w),
     w_trace := w_trace w @ map (Pair c) is @ [(c, r)],
     w_errno := (if rp_rc r < 0 then rp_err r else if is = [] then w_errno w else EINTR)\<rparr>"

lemma sys_retry_interrupted:
  assumes "w_script w = is @ r # rs" "\<forall>i\<in>set is. interrupted i" "reply_ok c r"
    and "is = [] \<or> again (-1)" "\<not> (again (rp_rc r) \<and> rp_rc r < 0 \<and> rp_err r = EINTR)"
    and "rp_rc r < 0 \<or> \<not> again (rp_rc r)"
  shows "sys_retry again c w = (Ret r, after_retries c is r w)"
  using assms
proof (induction "is" arbitrary: w)
  case Nil
  then show ?case
    by (subst sys_retry.simps) (auto simp: sys_def answered_def after_retries_def tl_def drop_Suc)
next
  case (Cons i "is")
  have i: "interrupted i" using Cons.prems(2) by simp
  have s: "sys c w = (Ret i, answered c i w)"
    using Cons.prems(1) i by (intro sys_reply [where rs = "is @ r # rs"]) auto
  have "sys_retry again c w = sys_retry again c (answered c i w)"
    using i Cons.prems(4) by (intro sys_retry_again [OF s]) (auto simp: interrupted_def)
  also have "\<dots> = (Ret r, after_retries c is r (answered c i w))"
    by (rule Cons.IH) (use Cons.prems in auto)
  also have "after_retries c is r (answered c i w) = after_retries c (i # is) r w"
    using i by (auto simp: after_retries_def answered_def interrupted_def drop_Suc)
  finally show ?case .
qed

text \<open>Whatever the script, a loop adds the attempts \<open>is\<close> that it repeats and, if the script goes
  that far, the one reply that it does not repeat.\<close>

definition retried :: "(int \<Rightarrow> bool) \<Rightarrow> syscall \<Rightarrow> world \<Rightarrow> reply list \<Rightarrow> bool" where
  "retried again c w is \<longleftrightarrow> (\<forall>i\<in>set is. again (rp_rc i) \<and> reply_ok c i)"

lemma sys_retry_outcome:
  "sys_retry again c w = (out, w') \<Longrightarrow>
     \<exists>is. retried again c w is \<and>
       (case out of
          Ret r \<Rightarrow> reply_ok c r \<and> w_script w = is @ r # w_script w' \<and>
            w_trace w' = w_trace w @ map (Pair c) is @ [(c, r)] \<and>
            \<not> (again (rp_rc r) \<and> w_errno w' = EINTR) \<and> (rp_rc r < 0 \<longrightarrow> w_errno w' = rp_err r)
        | Fail e \<Rightarrow> e = Pending \<and> w_script w = is @ w_script w' \<and>
            w_trace w' = w_trace w @ map (Pair c) is)"
proof (induction again c w arbitrary: out w' rule: sys_retry.induct)
  case (1 again c w)
  show ?case
  proof (cases c w rule: sys_cases [case_names reply stuck])
    case (reply r rs)
    show ?thesis
    proof (cases "again (rp_rc r) \<and> w_errno (answered c r w) = EINTR")
      case True
      have "sys_retry again c (answered c r w) = (out, w')"
        using "1.prems" reply(3) True by (simp add: sys_retry_again)
      from "1.IH" [OF reply(3) [symmetric] refl True this] obtain "is" where
        i: "retried again c (answered c r w) is"
        and n: "case out of
          Ret r' \<Rightarrow> reply_ok c r' \<and> w_script (answered c r w) = is @ r' # w_script w' \<and>
            w_trace w' = w_trace (answered c r w) @ map (Pair c) is @ [(c, r')] \<and>
            \<not> (again (rp_rc r') \<and> w_errno w' = EINTR) \<and> (rp_rc r' < 0 \<longrightarrow> w_errno w' = rp_err r')
        | Fail e \<Rightarrow> e = Pending \<and> w_script (answered c r w) = is @ w_script w' \<and>
            w_trace w' = w_trace (answered c r w) @ map (Pair c) is"
        by blast
      have "retried again c w (r # is)" using i True reply(2) by (simp add: retried_def)
      moreover have "w_script w = r # w_script (answered c r w)" using reply(1) by simp
      ultimately show ?thesis
        using n by (intro exI [of _ "r # is"]) (auto split: outcome.splits)
    next
      case False
      have "out = Ret r" "w' = answered c r w"
        using "1.prems" sys_retry_done [of c w r "answered c r w" again, OF reply(3) False] by simp_all
      moreover have "\<not> (again (rp_rc r) \<and> w_errno w' = EINTR)"
        using False \<open>w' = answered c r w\<close> by blast
      ultimately show ?thesis
        using reply by (intro exI [of _ "[]"]) (simp add: retried_def)
    qed
  next
    case stuck
    then have "out = Fail Pending" "w' = w"
      using "1.prems" by (simp_all add: sys_retry_stuck)
    then show ?thesis by (intro exI [of _ "[]"]) (simp add: retried_def)
  qed
qed

subsection \<open>Numbers as text\<close>

text \<open>\<^verbatim>\<open>std::to_string\<close>.\<close>

fun decimal :: "nat \<Rightarrow> string" where
  "decimal n = (if n < 10 then [char_of (48 + n)] else decimal (n div 10) @ [char_of (48 + n mod 10)])"

declare decimal.simps [simp del]

definition to_string :: "int \<Rightarrow> string" where
  "to_string i = (if i < 0 then CHR ''-'' # decimal (nat (- i)) else decimal (nat i))"

end
