(* ===== verification/Server_Socket.thy ===== *)
theory Server_Socket
  imports Fifo_Buffer Kernel
begin

section \<open>ServerSocket\<close>

text \<open>
  Models \<^verbatim>\<open>src/epoll_server/server_socket.cpp\<close> and \<^verbatim>\<open>server_socket.h\<close>. A
  \<open>socket\<close> holds the members \<^verbatim>\<open>_sockfd\<close> and \<^verbatim>\<open>_blocking\<close>
  (\<^verbatim>\<open>_isBrokenTimeout\<close> is never read or written). A member function is a program on the
  object and the world. A result that the code returns through an out-parameter or through the
  caller's array is part of the value.
\<close>

record socket =
  sk_fd :: int
  sk_blocking :: bool

definition INVALID_SOCKET :: int where
  "INVALID_SOCKET = -1"

definition socket_default :: socket where
  "socket_default = \<lparr>sk_fd = INVALID_SOCKET, sk_blocking = False\<rparr>"

definition socket_of :: "int \<Rightarrow> socket" where
  "socket_of fd = \<lparr>sk_fd = fd, sk_blocking = False\<rparr>"

type_synonym 'a sock_prog = "(socket \<times> world, 'a) prog"

definition on_world :: "(world, 'a) prog \<Rightarrow> 'a sock_prog" where
  "on_world m = zoom snd (\<lambda>w s. (fst s, w)) m"

definition set_fd :: "int \<Rightarrow> unit sock_prog" where
  "set_fd fd = modify (\<lambda>s. ((fst s)\<lparr>sk_fd := fd\<rparr>, snd s))"

definition if_invalid :: "'a sock_prog \<Rightarrow> 'a sock_prog \<Rightarrow> 'a sock_prog" where
  "if_invalid m n = cond (\<lambda>s. sk_fd (fst s) = INVALID_SOCKET) m n"

definition sockfd :: "socket \<Rightarrow> int" where
  "sockfd sk = sk_fd sk"

definition initialized :: "socket \<Rightarrow> bool" where
  "initialized sk \<longleftrightarrow> sk_fd sk \<noteq> -1"

text \<open>A call on the descriptor, once and in a loop.\<close>

definition fd_call :: "(int \<Rightarrow> syscall) \<Rightarrow> reply sock_prog" where
  "fd_call c = bnd (gets (\<lambda>s. sk_fd (fst s))) (\<lambda>fd. on_world (sys (c fd)))"

definition fd_loop :: "(socket \<Rightarrow> int \<Rightarrow> bool) \<Rightarrow> (int \<Rightarrow> syscall) \<Rightarrow> reply sock_prog" where
  "fd_loop again c = bnd (gets fst) (\<lambda>sk. on_world (sys_retry (again sk) (c (sk_fd sk))))"

subsection \<open>Errors\<close>

definition error_msg :: "int \<Rightarrow> string \<Rightarrow> string" where
  "error_msg code arg = ''ServerSocket error: '' @ arg @ '' ('' @ to_string code @ '')''"

definition error_code_arg :: "int \<Rightarrow> string \<Rightarrow> 'a sock_prog" where
  "error_code_arg code arg = throw_runtime (error_msg code arg)"

definition error_code :: "int \<Rightarrow> 'a sock_prog" where
  "error_code code = error_code_arg code []"

definition last_error :: "int sock_prog" where
  "last_error = gets (\<lambda>s. w_errno (snd s))"

definition error_last :: "'a sock_prog" where
  "error_last = bnd last_error (\<lambda>e. error_code_arg e [])"

definition error_arg :: "string \<Rightarrow> 'a sock_prog" where
  "error_arg arg = bnd last_error (\<lambda>e. error_code_arg e arg)"

subsection \<open>Closing and shutting down\<close>

definition sock_close :: "unit sock_prog" where
  "sock_close = if_invalid (ret ())
     (bnd (fd_call Close) (\<lambda>_. set_fd INVALID_SOCKET))"

text \<open>The destructor closes.\<close>

definition sock_destroy :: "unit sock_prog" where
  "sock_destroy = sock_close"

definition sock_shutdown_receive :: "bool sock_prog" where
  "sock_shutdown_receive = bnd (fd_call (\<lambda>fd. Shutdown fd 0)) (\<lambda>r. ret (rp_rc r = 0))"

definition sock_shutdown_send :: "bool sock_prog" where
  "sock_shutdown_send = bnd (fd_call (\<lambda>fd. Shutdown fd 1)) (\<lambda>r. ret (rp_rc r = 0))"

definition sock_shutdown :: "bool sock_prog" where
  "sock_shutdown = bnd (fd_call (\<lambda>fd. Shutdown fd 2)) (\<lambda>r. ret (rp_rc r = 0))"

subsection \<open>Receiving and sending\<close>

text \<open>
  The loops test \<^verbatim>\<open>_sockfd == INVALID_SOCKET\<close> in every turn; nothing in the loop
  changes the descriptor, so the test is made once.
\<close>

definition blocking_interrupt :: "socket \<Rightarrow> int \<Rightarrow> bool" where
  "blocking_interrupt sk rc \<longleftrightarrow> sk_blocking sk \<and> rc < 0"

definition sock_receive :: "int \<Rightarrow> int \<Rightarrow> (int \<times> string) sock_prog" where
  "sock_receive len flags = if_invalid (ret (-1, []))
     (bnd (fd_loop blocking_interrupt (\<lambda>fd. Recv fd (size_of_int len) flags)) (\<lambda>r.
       if rp_rc r < 0
       then bnd last_error (\<lambda>err.
            bnd (gets (\<lambda>s. sk_blocking (fst s))) (\<lambda>blocking.
              if err = EAGAIN \<and> \<not> blocking then ret (rp_rc r, [])
              else if err = EAGAIN \<or> err = ETIMEDOUT then ret (-2, [])
              else error_code err))
       else ret (rp_rc r, bytes_of (rp_data r))))"

definition sock_receive_vec :: "nat list \<Rightarrow> (int \<times> string) sock_prog" where
  "sock_receive_vec lens = if_invalid (throw_runtime ''invalid socket'')
     (bnd (fd_loop blocking_interrupt (\<lambda>fd. Readv fd lens)) (\<lambda>r.
       if rp_rc r < 0
       then bnd last_error (\<lambda>err.
            bnd (gets (\<lambda>s. sk_blocking (fst s))) (\<lambda>blocking.
              if err = EAGAIN \<and> \<not> blocking then ret (rp_rc r, [])
              else if err = EAGAIN \<or> err = ETIMEDOUT then throw_runtime ''receive data timeout''
              else error_code err))
       else ret (rp_rc r, bytes_of (rp_data r))))"

definition sock_send :: "string \<Rightarrow> int \<Rightarrow> int sock_prog" where
  "sock_send data flags = if_invalid (ret (-1))
     (bnd (fd_loop blocking_interrupt (\<lambda>fd. Send fd data flags)) (\<lambda>r.
       if rp_rc r < 0 then error_last else ret (rp_rc r)))"

definition sock_send_vec :: "string list \<Rightarrow> int sock_prog" where
  "sock_send_vec datas = if_invalid (throw_runtime ''invalid socket'')
     (bnd (fd_loop blocking_interrupt (\<lambda>fd. Writev fd datas)) (\<lambda>r.
       if rp_rc r < 0 then error_last else ret (rp_rc r)))"

text \<open>
  The variants on a \<^verbatim>\<open>FIFOBuffer\<close> hold the queue's mutex while they call its member
  functions. The state is the queue beside the socket and the world.
\<close>

type_synonym 'a wire_prog = "(char fifo \<times> socket \<times> world, 'a) prog"

definition on_queue :: "(char fifo, 'a) prog \<Rightarrow> 'a wire_prog" where
  "on_queue m = zoom fst (\<lambda>f s. (f, snd s)) m"

definition on_sock :: "'a sock_prog \<Rightarrow> 'a wire_prog" where
  "on_sock m = zoom snd (\<lambda>k s. (fst s, k)) m"

definition queue_locked :: "'a wire_prog \<Rightarrow> 'a wire_prog" where
  "queue_locked body = with_lock (\<lambda>s. f_mutex (fst s)) (\<lambda>m s. ((fst s)\<lparr>f_mutex := m\<rparr>, snd s)) body"

text \<open>The bytes that the kernel wrote at the address it was given.\<close>

definition store_received :: "nat \<Rightarrow> string \<Rightarrow> (char fifo, unit) prog" where
  "store_received p bytes =
     (if bytes = [] then ret () else on_buffer (buffer_store p (map Some bytes)))"

definition sock_receive_fifo :: "int wire_prog" where
  "sock_receive_fifo = queue_locked
     (bnd (on_queue fifo_next) (\<lambda>p.
      bnd (on_queue (gets fifo_available)) (\<lambda>n.
      bnd (on_sock (sock_receive (int_of_size n) 0)) (\<lambda>(rc, bytes).
      thn (on_queue (store_received p bytes))
     (thn (if rc > 0 then on_queue (fifo_advance (nat rc)) else ret ())
          (ret rc))))))"

text \<open>The bytes the kernel reads from the address it is given.\<close>

fun known_bytes :: "'a cell list \<Rightarrow> 'a list option" where
  "known_bytes [] = Some []"
| "known_bytes (None # cs) = None"
| "known_bytes (Some x # cs) = map_option ((#) x) (known_bytes cs)"

definition load_bytes :: "nat \<Rightarrow> nat \<Rightarrow> (char fifo, string) prog" where
  "load_bytes p n =
     (if n = 0 then ret []
      else bnd (on_buffer (buffer_load p n)) (\<lambda>cs. defined Uninit_read (known_bytes cs)))"

definition sock_send_fifo :: "int wire_prog" where
  "sock_send_fifo = queue_locked
     (bnd (on_queue fifo_begin) (\<lambda>p.
      bnd (on_queue (gets f_used)) (\<lambda>u.
      bnd (on_queue (load_bytes p (size_of_int (int_of_size u)))) (\<lambda>bytes.
      bnd (on_sock (sock_send bytes 0)) (\<lambda>rc.
      thn (if rc > 0 then on_queue (fifo_drain (nat rc)) else ret ())
          (ret rc))))))"

subsection \<open>Accepting\<close>

text \<open>The result is the new socket, \<open>None\<close> for \<^verbatim>\<open>nullptr\<close>. No caller reads the
  address that is stored for it.\<close>

definition sock_accept :: "socket option sock_prog" where
  "sock_accept = if_invalid (ret None)
     (bnd (fd_loop (\<lambda>_ rc. rc = -1) Accept) (\<lambda>r.
       if rp_rc r \<noteq> -1 then ret (Some (socket_of (rp_rc r))) else error_last))"

subsection \<open>Creating, options\<close>

definition init_socket :: "int \<Rightarrow> int \<Rightarrow> int \<Rightarrow> bool sock_prog" where
  "init_socket af ty proto =
     cond (\<lambda>s. sk_fd (fst s) \<noteq> INVALID_SOCKET) (ret True)
     (bnd (on_world (sys (Socket af ty proto))) (\<lambda>r.
      thn (set_fd (rp_rc r))
          (if_invalid (ret False) (ret True))))"

definition sock_init :: "int \<Rightarrow> unit sock_prog" where
  "sock_init af = bnd (init_socket af SOCK_STREAM IPPROTO_TCP) (\<lambda>_. ret ())"

definition set_sockfd :: "int \<Rightarrow> unit sock_prog" where
  "set_sockfd fd = set_fd fd"

definition sock_invalidate :: "unit sock_prog" where
  "sock_invalidate = set_fd INVALID_SOCKET"

definition set_raw_option :: "sockopt \<Rightarrow> optval \<Rightarrow> unit sock_prog" where
  "set_raw_option opt v = if_invalid (ret ())
     (bnd (fd_call (\<lambda>fd. Setsockopt fd opt v)) (\<lambda>r.
       if rp_rc r = -1 then error_last else ret ()))"

definition set_option :: "sockopt \<Rightarrow> int \<Rightarrow> unit sock_prog" where
  "set_option opt i = set_raw_option opt (Int_val i)"

text \<open>The caller's variable after the call: \<open>before\<close> if the kernel wrote nothing.\<close>

definition get_raw_option :: "sockopt \<Rightarrow> optval option \<Rightarrow> optval option sock_prog" where
  "get_raw_option opt before = if_invalid (ret before)
     (bnd (fd_call (\<lambda>fd. Getsockopt fd opt)) (\<lambda>r.
       if rp_rc r = -1 then error_last else ret (value_of (rp_data r))))"

fun int_of_val :: "optval option \<Rightarrow> int option" where
  "int_of_val (Some (Int_val i)) = Some i"
| "int_of_val _ = None"

fun linger_of_val :: "optval option \<Rightarrow> (int \<times> int) option" where
  "linger_of_val (Some (Linger_val i j)) = Some (i, j)"
| "linger_of_val _ = None"

definition get_option :: "sockopt \<Rightarrow> int option \<Rightarrow> int sock_prog" where
  "get_option opt before =
     bnd (get_raw_option opt (map_option Int_val before)) (\<lambda>v.
       defined Uninit_read (int_of_val v))"

definition set_linger :: "bool \<Rightarrow> int \<Rightarrow> unit sock_prog" where
  "set_linger on seconds = set_raw_option SO_LINGER (Linger_val (if on then 1 else 0) seconds)"

definition get_linger :: "(bool \<times> int) sock_prog" where
  "get_linger = bnd (get_raw_option SO_LINGER (Some (Linger_val 0 0))) (\<lambda>v.
     bnd (defined Uninit_read (linger_of_val v)) (\<lambda>(onoff, seconds).
       ret (onoff \<noteq> 0, seconds)))"

definition set_flag :: "sockopt \<Rightarrow> bool \<Rightarrow> unit sock_prog" where
  "set_flag opt flag = set_option opt (if flag then 1 else 0)"

definition get_flag :: "sockopt \<Rightarrow> bool sock_prog" where
  "get_flag opt = bnd (get_option opt (Some 0)) (\<lambda>v. ret (v \<noteq> 0))"

definition set_no_delay :: "bool \<Rightarrow> unit sock_prog" where
  "set_no_delay flag = set_flag TCP_NODELAY flag"

definition get_no_delay :: "bool sock_prog" where
  "get_no_delay = get_flag TCP_NODELAY"

definition set_keep_alive :: "bool \<Rightarrow> unit sock_prog" where
  "set_keep_alive flag = set_flag SO_KEEPALIVE flag"

definition get_keep_alive :: "bool sock_prog" where
  "get_keep_alive = get_flag SO_KEEPALIVE"

definition set_reuse_address :: "bool \<Rightarrow> unit sock_prog" where
  "set_reuse_address flag = set_flag SO_REUSEADDR flag"

definition get_reuse_address :: "bool sock_prog" where
  "get_reuse_address = get_flag SO_REUSEADDR"

definition set_reuse_port :: "bool \<Rightarrow> unit sock_prog" where
  "set_reuse_port flag = catch_all (set_flag SO_REUSEPORT flag) (ret ())"

definition get_reuse_port :: "bool sock_prog" where
  "get_reuse_port = get_flag SO_REUSEPORT"

definition set_oob_inline :: "bool \<Rightarrow> unit sock_prog" where
  "set_oob_inline flag = set_flag SO_OOBINLINE flag"

definition get_oob_inline :: "bool sock_prog" where
  "get_oob_inline = get_flag SO_OOBINLINE"

definition set_broadcast :: "bool \<Rightarrow> unit sock_prog" where
  "set_broadcast flag = set_flag SO_BROADCAST flag"

definition get_broadcast :: "bool sock_prog" where
  "get_broadcast = get_flag SO_BROADCAST"

definition socket_error :: "int sock_prog" where
  "socket_error = get_option SO_ERROR (Some 0)"

definition set_send_buffer_size :: "int \<Rightarrow> unit sock_prog" where
  "set_send_buffer_size n = set_option SO_SNDBUF n"

text \<open>The variable that receives a buffer size is not initialised.\<close>

definition get_send_buffer_size :: "int sock_prog" where
  "get_send_buffer_size = get_option SO_SNDBUF None"

definition set_receive_buffer_size :: "int \<Rightarrow> unit sock_prog" where
  "set_receive_buffer_size n = set_option SO_RCVBUF n"

definition get_receive_buffer_size :: "int sock_prog" where
  "get_receive_buffer_size = get_option SO_RCVBUF None"

text \<open>\<^verbatim>\<open>ioctl(request, int&)\<close>: success, and the argument afterwards.\<close>

definition sock_ioctl :: "ioctl_req \<Rightarrow> int \<Rightarrow> (bool \<times> int) sock_prog" where
  "sock_ioctl req arg = bnd (fd_call (\<lambda>fd. Ioctl fd req)) (\<lambda>r.
     if rp_rc r \<noteq> 0 then ret (False, arg)
     else ret (True, (case int_of_val (value_of (rp_data r)) of Some v \<Rightarrow> v | None \<Rightarrow> arg)))"

definition sock_available :: "int sock_prog" where
  "sock_available = bnd (sock_ioctl FIONREAD 0) (\<lambda>(ok, v). ret v)"

definition sock_fcntl :: "fcntl_cmd \<Rightarrow> int sock_prog" where
  "sock_fcntl cmd = bnd (fd_call (\<lambda>fd. Fcntl fd cmd)) (\<lambda>r.
     if rp_rc r = -1 then error_last else ret (rp_rc r))"

definition set_blocking :: "bool \<Rightarrow> unit sock_prog" where
  "set_blocking flag =
     bnd (sock_fcntl F_GETFL) (\<lambda>arg.
       let flags = and arg (not O_NONBLOCK);
           flags' = (if \<not> flag then or flags O_NONBLOCK else flags)
       in thn (bnd (sock_fcntl (F_SETFL flags')) (\<lambda>_. ret ()))
              (modify (\<lambda>s. ((fst s)\<lparr>sk_blocking := flag\<rparr>, snd s))))"

definition get_blocking :: "bool sock_prog" where
  "get_blocking = gets (\<lambda>s. sk_blocking (fst s))"

subsection \<open>Addresses, connecting, binding\<close>

definition zero_bytes :: "nat \<Rightarrow> string" where
  "zero_bytes n = replicate n (CHR 0x00)"

definition make_addr :: "16 word \<Rightarrow> sockaddr" where
  "make_addr port = \<lparr>sin_family = AF_INET, sin_addr = zero_bytes 4, sin_port = htons port\<rparr>"

definition make_addr_v6 :: "16 word \<Rightarrow> sockaddr" where
  "make_addr_v6 port = \<lparr>sin_family = AF_INET6, sin_addr = zero_bytes 16, sin_port = htons port\<rparr>"

text \<open>
  \<^verbatim>\<open>memcpy((char*)ip.c_str(), (char*)&sin.sin_addr, ip.length())\<close>: the destination is
  the text, the source the address. From \<^verbatim>\<open>sin_addr\<close> on the structure has twelve bytes
  (the four of the address and eight of padding), all zero. The result is the address and the
  text afterwards.
\<close>

definition make_addr_with_ip :: "string \<Rightarrow> 16 word \<Rightarrow> ('s, sockaddr \<times> string) prog" where
  "make_addr_with_ip ip port =
     (let a = make_addr port; bytes = sin_addr a @ zero_bytes 8
      in bnd (defined Out_of_bounds (mem_read 0 (length ip) bytes)) (\<lambda>ip'. ret (a, ip')))"

text \<open>\<open>connect\<close> and \<open>connectNB\<close> return the caller's text after the call.\<close>

definition sock_connect :: "string \<Rightarrow> 16 word \<Rightarrow> string sock_prog" where
  "sock_connect ip port =
     thn (if_invalid (sock_init AF_INET) (ret ()))
     (bnd (make_addr_with_ip ip port) (\<lambda>(addr, ip').
      bnd (fd_loop (\<lambda>_ rc. rc \<noteq> 0) (\<lambda>fd. Connect fd addr)) (\<lambda>r.
        if rp_rc r \<noteq> 0 then bnd last_error (\<lambda>err. error_code_arg err ip')
        else ret ip')))"

definition sock_connect_nb :: "string \<Rightarrow> 16 word \<Rightarrow> string sock_prog" where
  "sock_connect_nb ip port =
     thn (if_invalid (sock_init AF_INET) (ret ()))
    (thn (set_blocking False)
     (bnd (make_addr_with_ip ip port) (\<lambda>(addr, ip').
      bnd (fd_call (\<lambda>fd. Connect fd addr)) (\<lambda>r.
        if rp_rc r \<noteq> 0
        then bnd last_error (\<lambda>err.
          if err \<noteq> EINPROGRESS \<and> err \<noteq> EWOULDBLOCK then error_code_arg err ip' else ret ip')
        else ret ip'))))"

definition sock_bind :: "16 word \<Rightarrow> bool \<Rightarrow> bool sock_prog" where
  "sock_bind port reuseAddress =
     thn (if_invalid (sock_init AF_INET) (ret ()))
    (thn (if reuseAddress then thn (set_reuse_address True) (set_reuse_port True) else ret ())
     (bnd (fd_call (\<lambda>fd. Bind fd (make_addr port))) (\<lambda>r. ret (rp_rc r = 0))))"

text \<open>In the other overloads a failure is reported with \<^verbatim>\<open>error(port)\<close>: a
  \<^verbatim>\<open>uint16_t\<close> selects \<^verbatim>\<open>error(int code)\<close>.\<close>

definition sock_bind_reuse :: "16 word \<Rightarrow> bool \<Rightarrow> bool \<Rightarrow> unit sock_prog" where
  "sock_bind_reuse port reuseAddress reusePort =
     thn (if_invalid (sock_init AF_INET) (ret ()))
    (thn (if reuseAddress then set_reuse_address True else ret ())
    (thn (if reusePort then set_reuse_port True else ret ())
     (bnd (fd_call (\<lambda>fd. Bind fd (make_addr port))) (\<lambda>r.
        if rp_rc r \<noteq> 0 then error_code (uint port) else ret ()))))"

definition sock_bind6_full :: "16 word \<Rightarrow> bool \<Rightarrow> bool \<Rightarrow> bool \<Rightarrow> unit sock_prog" where
  "sock_bind6_full port reuseAddress reusePort ipV6Only =
     thn (if_invalid (sock_init AF_INET) (ret ()))
    (thn (if reuseAddress then set_reuse_address True else ret ())
    (thn (if reusePort then set_reuse_port True else ret ())
    (thn (set_option IPV6_V6ONLY (if ipV6Only then 1 else 0))
     (bnd (fd_call (\<lambda>fd. Bind fd (make_addr_v6 port))) (\<lambda>r.
        if rp_rc r \<noteq> 0 then error_code (uint port) else ret ())))))"

definition sock_bind6 :: "16 word \<Rightarrow> bool \<Rightarrow> bool \<Rightarrow> unit sock_prog" where
  "sock_bind6 port reuseAddress ipV6Only = sock_bind6_full port reuseAddress reuseAddress ipV6Only"

definition sock_listen :: "int \<Rightarrow> bool sock_prog" where
  "sock_listen backlog = bnd (fd_call (\<lambda>fd. Listen fd backlog)) (\<lambda>r. ret (rp_rc r = 0))"

subsection \<open>What one call does, for any script\<close>

lemma on_world_apply [prog_simps]:
  "on_world m (sk, w) = (case m w of (r, w') \<Rightarrow> (r, (sk, w')))"
  by (simp add: on_world_def zoom_def)

lemma fd_call_apply [prog_simps]:
  "fd_call c (sk, w) = (case sys (c (sk_fd sk)) w of (r, w') \<Rightarrow> (r, (sk, w')))"
  by (simp add: fd_call_def bnd_def on_world_apply)

lemma fd_loop_apply [prog_simps]:
  "fd_loop again c (sk, w) = (case sys_retry (again sk) (c (sk_fd sk)) w of (r, w') \<Rightarrow> (r, (sk, w')))"
  by (simp add: fd_loop_def bnd_def on_world_apply)

lemma if_invalid_apply [prog_simps]:
  "if_invalid m n (sk, w) = (if sk_fd sk = -1 then m (sk, w) else n (sk, w))"
  by (simp add: if_invalid_def INVALID_SOCKET_def)

lemma error_last_apply [prog_simps]:
  "error_last (sk, w) = (Fail (Thrown (Runtime_error (error_msg (w_errno w) []))), (sk, w))"
  by (simp add: error_last_def last_error_def error_code_arg_def bnd_def throw_runtime_def)

lemma error_code_apply [prog_simps]:
  "error_code e (sk, w) = (Fail (Thrown (Runtime_error (error_msg e []))), (sk, w))"
  by (simp add: error_code_def error_code_arg_def throw_runtime_def)

lemma last_error_apply [prog_simps]: "last_error (sk, w) = (Ret (w_errno w), (sk, w))"
  by (simp add: last_error_def)

lemma fd_loop_interrupted:
  assumes "w_script w = is @ r # rs" "\<forall>i\<in>set is. interrupted i" "reply_ok (c (sk_fd sk)) r"
    and "is = [] \<or> again sk (-1)" "\<not> (again sk (rp_rc r) \<and> rp_rc r < 0 \<and> rp_err r = EINTR)"
    and "rp_rc r < 0 \<or> \<not> again sk (rp_rc r)"
  shows "fd_loop again c (sk, w) = (Ret r, (sk, after_retries (c (sk_fd sk)) is r w))"
  using assms by (simp add: fd_loop_apply sys_retry_interrupted)

lemma after_retries_errno [simp]:
  "rp_rc r < 0 \<Longrightarrow> w_errno (after_retries c is r w) = rp_err r"
  by (simp add: after_retries_def)

text \<open>The result of \<open>receiveBytes\<close> for each reply that ends the loop.\<close>

fun receive_outcome :: "bool \<Rightarrow> reply \<Rightarrow> (int \<times> string) outcome" where
  "receive_outcome blocking r =
     (if 0 \<le> rp_rc r then Ret (rp_rc r, bytes_of (rp_data r))
      else if rp_err r = EAGAIN then Ret (if blocking then -2 else -1, [])
      else if rp_err r = ETIMEDOUT then Ret (-2, [])
      else Fail (Thrown (Runtime_error (error_msg (rp_err r) []))))"

text \<open>C17. \<open>receiveBytes\<close> repeats an interrupted call on a blocking socket, any number of times,
  and then reports the reply that ends the loop: the number of bytes, \<open>-1\<close> for
  \<^verbatim>\<open>EAGAIN\<close> on a non-blocking socket, \<open>-2\<close> for a timeout, an exception that
  names the code for every other error.\<close>

theorem sock_receive_result:
  assumes "sk_fd sk \<noteq> -1" "w_script w = is @ r # rs" "\<forall>i\<in>set is. interrupted i"
    and "is = [] \<or> sk_blocking sk" "reply_ok (Recv (sk_fd sk) (size_of_int n) fl) r"
    and "\<not> (sk_blocking sk \<and> rp_rc r < 0 \<and> rp_err r = EINTR)"
  shows "sock_receive n fl (sk, w) = (receive_outcome (sk_blocking sk) r,
     (sk, after_retries (Recv (sk_fd sk) (size_of_int n) fl) is r w))"
proof -
  have neg: "rp_rc r < 0 \<Longrightarrow> rp_rc r = -1" using assms(5) by (auto simp: transfer_ok_def)
  have "fd_loop blocking_interrupt (\<lambda>fd. Recv fd (size_of_int n) fl) (sk, w) =
      (Ret r, (sk, after_retries (Recv (sk_fd sk) (size_of_int n) fl) is r w))"
    by (rule fd_loop_interrupted [OF assms(2,3)]) (use assms in \<open>auto simp: blocking_interrupt_def\<close>)
  then show ?thesis
    using assms(1) neg
    by (auto simp: sock_receive_def if_invalid_apply bnd_def last_error_apply error_code_apply)
qed

text \<open>C18. \<open>sendBytes\<close> repeats interrupted calls in the same way, and turns every error into an
  exception: also \<^verbatim>\<open>EAGAIN\<close>, with which a non-blocking socket says that its send
  buffer is full.\<close>

theorem sock_send_result:
  assumes "sk_fd sk \<noteq> -1" "w_script w = is @ r # rs" "\<forall>i\<in>set is. interrupted i"
    and "is = [] \<or> sk_blocking sk" "reply_ok (Send (sk_fd sk) data fl) r"
    and "\<not> (sk_blocking sk \<and> rp_rc r < 0 \<and> rp_err r = EINTR)"
  shows "sock_send data fl (sk, w) =
     ((if 0 \<le> rp_rc r then Ret (rp_rc r)
       else Fail (Thrown (Runtime_error (error_msg (rp_err r) [])))),
      (sk, after_retries (Send (sk_fd sk) data fl) is r w))"
proof -
  have "fd_loop blocking_interrupt (\<lambda>fd. Send fd data fl) (sk, w) =
      (Ret r, (sk, after_retries (Send (sk_fd sk) data fl) is r w))"
    by (rule fd_loop_interrupted [OF assms(2,3)]) (use assms in \<open>auto simp: blocking_interrupt_def\<close>)
  then show ?thesis
    using assms(1) by (auto simp: sock_send_def if_invalid_apply bnd_def error_last_apply)
qed

subsection \<open>Bytes received and sent\<close>

text \<open>The bytes that went through the socket, from the trace of the calls and their replies.\<close>

fun bytes_in :: "syscall \<times> reply \<Rightarrow> string" where
  "bytes_in (Recv fd n fl, r) = (if 0 \<le> rp_rc r then bytes_of (rp_data r) else [])"
| "bytes_in _ = []"

fun bytes_out :: "syscall \<times> reply \<Rightarrow> string" where
  "bytes_out (Send fd data fl, r) = (if 0 \<le> rp_rc r then take (nat (rp_rc r)) data else [])"
| "bytes_out _ = []"

definition received :: "world \<Rightarrow> string" where
  "received w = concat (map bytes_in (w_trace w))"

definition sent :: "world \<Rightarrow> string" where
  "sent w = concat (map bytes_out (w_trace w))"

lemma blocking_retried:
  "retried (blocking_interrupt sk) (Recv fd n fl) w is \<Longrightarrow>
     concat (map bytes_in (map (Pair (Recv fd n fl)) is)) = []"
  "retried (blocking_interrupt sk) (Send fd d fl) w is \<Longrightarrow>
     concat (map bytes_out (map (Pair (Send fd d fl)) is)) = []"
  by (auto simp: retried_def blocking_interrupt_def)

lemma recv_sends_nothing: "concat (map bytes_out (map (Pair (Recv fd n fl)) is)) = []"
  by (induction "is") auto

lemma send_receives_nothing: "concat (map bytes_in (map (Pair (Send fd d fl)) is)) = []"
  by (induction "is") auto

text \<open>Receiving: the result holds exactly the bytes that came in, at most as many as asked for.\<close>

lemma sock_receive_bytes:
  assumes "sock_receive n fl (sk, w) = (out, (sk', w'))"
  obtains bs where "sk' = sk" "received w' = received w @ bs" "sent w' = sent w"
    "length bs \<le> size_of_int n"
    "case out of Ret (rc, xs) \<Rightarrow> xs = bs \<and> nat rc = length bs | Fail e \<Rightarrow> bs = []"
proof (cases "sk_fd sk = -1")
  case True
  with assms show thesis by (intro that [of "[]"]) (auto simp: sock_receive_def if_invalid_apply)
next
  case False
  let ?c = "Recv (sk_fd sk) (size_of_int n) fl"
  obtain lo lw where loop: "sys_retry (blocking_interrupt sk) ?c w = (lo, lw)" by fastforce
  from sys_retry_outcome [OF loop] obtain "is" where i: "retried (blocking_interrupt sk) ?c w is"
    and o: "case lo of
          Ret r \<Rightarrow> reply_ok ?c r \<and> w_script w = is @ r # w_script lw \<and>
            w_trace lw = w_trace w @ map (Pair ?c) is @ [(?c, r)] \<and>
            \<not> (blocking_interrupt sk (rp_rc r) \<and> w_errno lw = EINTR) \<and> (rp_rc r < 0 \<longrightarrow> w_errno lw = rp_err r)
        | Fail e \<Rightarrow> e = Pending \<and> w_script w = is @ w_script lw \<and>
            w_trace lw = w_trace w @ map (Pair ?c) is"
    by blast
  show thesis
  proof (cases lo)
    case (Fail e)
    have "received lw = received w" "sent lw = sent w"
      using o Fail blocking_retried(1) [OF i] recv_sends_nothing
      by (simp_all add: received_def sent_def)
    with assms False Fail loop show thesis
      by (intro that [of "[]"]) (auto simp: sock_receive_def if_invalid_apply bnd_def fd_loop_apply)
  next
    case (Ret r)
    have ok: "reply_ok ?c r" using o Ret by simp
    have tr: "received lw = received w @ bytes_in (?c, r)" "sent lw = sent w"
      using o Ret blocking_retried(1) [OF i] recv_sends_nothing
      by (simp_all add: received_def sent_def)
    show thesis
      using assms False Ret loop ok tr
      by (intro that [of "bytes_in (?c, r)"])
        (auto simp: sock_receive_def if_invalid_apply bnd_def fd_loop_apply last_error_apply
          error_code_apply transfer_ok_def split: if_splits)
  qed
qed

lemma sock_send_bytes:
  assumes "sock_send data fl (sk, w) = (out, (sk', w'))"
  obtains n where "sk' = sk" "received w' = received w" "sent w' = sent w @ take n data"
    "n \<le> length data" "case out of Ret rc \<Rightarrow> nat rc = n | Fail e \<Rightarrow> n = 0"
proof (cases "sk_fd sk = -1")
  case True
  with assms show thesis by (intro that [of 0]) (auto simp: sock_send_def if_invalid_apply)
next
  case False
  let ?c = "Send (sk_fd sk) data fl"
  obtain lo lw where loop: "sys_retry (blocking_interrupt sk) ?c w = (lo, lw)" by fastforce
  from sys_retry_outcome [OF loop] obtain "is" where i: "retried (blocking_interrupt sk) ?c w is"
    and o: "case lo of
          Ret r \<Rightarrow> reply_ok ?c r \<and> w_script w = is @ r # w_script lw \<and>
            w_trace lw = w_trace w @ map (Pair ?c) is @ [(?c, r)] \<and>
            \<not> (blocking_interrupt sk (rp_rc r) \<and> w_errno lw = EINTR) \<and> (rp_rc r < 0 \<longrightarrow> w_errno lw = rp_err r)
        | Fail e \<Rightarrow> e = Pending \<and> w_script w = is @ w_script lw \<and>
            w_trace lw = w_trace w @ map (Pair ?c) is"
    by blast
  show thesis
  proof (cases lo)
    case (Fail e)
    have "received lw = received w" "sent lw = sent w"
      using o Fail blocking_retried(2) [OF i] send_receives_nothing
      by (simp_all add: received_def sent_def)
    with assms False Fail loop show thesis
      by (intro that [of 0]) (auto simp: sock_send_def if_invalid_apply bnd_def fd_loop_apply)
  next
    case (Ret r)
    have ok: "reply_ok ?c r" using o Ret by simp
    have tr: "received lw = received w" "sent lw = sent w @ bytes_out (?c, r)"
      using o Ret blocking_retried(2) [OF i] send_receives_nothing
      by (simp_all add: received_def sent_def)
    show thesis
      using assms False Ret loop ok tr
      by (intro that [of "nat (rp_rc r)"])
        (auto simp: sock_send_def if_invalid_apply bnd_def fd_loop_apply
          error_last_apply transfer_ok_def split: if_splits)
  qed
qed

subsection \<open>The socket and the byte queue\<close>

lemma on_queue_apply [prog_simps]:
  "on_queue m (f, k) = (case m f of (r, f') \<Rightarrow> (r, (f', k)))"
  by (simp add: on_queue_def zoom_def)

lemma on_sock_apply [prog_simps]:
  "on_sock m (f, k) = (case m k of (r, k') \<Rightarrow> (r, (f, k')))"
  by (simp add: on_sock_def zoom_def)

lemma queue_locked_free:
  "can_lock (f_mutex f) \<Longrightarrow>
     queue_locked m (f, k) = on_exit m (\<lambda>s. ((fst s)\<lparr>f_mutex := unlocked (f_mutex (fst s))\<rparr>, snd s))
       (f\<lparr>f_mutex := locked (f_mutex f)\<rparr>, k)"
  by (simp add: queue_locked_def with_lock_free)

lemma known_bytes_map [simp]: "known_bytes (map Some xs) = Some xs"
  by (induction xs) auto

text \<open>Storing received bytes behind compacted data and publishing them appends them.\<close>

lemma store_and_advance:
  assumes c: "fifo_inv g" "can_lock (f_mutex g)" "f_begin g = 0" "\<not> f_error g" "\<not> f_eof g"
    and bs: "bs \<noteq> []" "length bs \<le> fifo_size g - f_used g"
  obtains h g' where "store_received (f_used g) bs g = (Ret (), h)"
    "fifo_advance (length bs) h = (Ret (), g')" "appended g (map Some bs) g'"
proof -
  have sz: "b_used (f_buffer g) = fifo_size g" "buffer_inv (f_buffer g)"
    using c(1) by (auto simp: fifo_size_def buffer_size_def fifo_inv_def)
  have le: "f_used g \<le> fifo_size g" using fifo_used_le [OF c(1)] .
  have fit: "0 + f_used g + length (map Some bs) \<le> b_used (f_buffer g)" using bs(2) sz(1) le by simp
  from buffer_store_behind [OF sz(2) fit] bs(1) obtain b where
    b: "buffer_store (f_used g) (map Some bs) (f_buffer g) = (Ret (), b)" "buffer_inv b"
    "b_used b = fifo_size g"
    "take (f_used g + length bs) (contents b) = take (f_used g) (contents (f_buffer g)) @ map Some bs"
    using sz(1) by auto
  let ?h = "g\<lparr>f_buffer := b\<rparr>"
  have store: "store_received (f_used g) bs g = (Ret (), ?h)"
    using bs(1) by (simp add: store_received_def on_buffer_def zoom_def b(1))
  have cg: "fifo_content g = take (f_used g) (contents (f_buffer g))"
    using c(3) by (simp add: fifo_content_def)
  have lc: "length (take (f_used g) (contents (f_buffer g))) = f_used g"
    using cg fifo_content_length [OF c(1)] by simp
  have szh: "fifo_size ?h = fifo_size g" using b(3) by (simp add: fifo_size_def buffer_size_def)
  have hi: "fifo_inv ?h" using b(2) szh c(3) le by (simp add: fifo_inv_def)
  have t1: "take (f_used g) (contents b) = fifo_content g"
  proof -
    have "take (f_used g) (take (f_used g + length bs) (contents b)) = take (f_used g) (contents b)"
      by (simp add: min_def)
    then show ?thesis using b(4) lc cg by simp
  qed
  have t2: "take (length bs) (drop (f_used g) (contents b)) = map Some bs"
  proof -
    have "drop (f_used g) (take (f_used g + length bs) (contents b)) =
        take (length bs) (drop (f_used g) (contents b))"
      by (simp add: drop_take)
    then show ?thesis using b(4) lc by simp
  qed
  have ch: "fifo_content ?h = fifo_content g" using t1 c(3) by (simp add: fifo_content_def)
  have "f_used ?h < fifo_size ?h" using bs szh le by (cases bs) auto
  then have wr: "is_writable ?h" using c(4,5) hi by (simp add: is_writable_iff)
  have av: "length bs \<le> fifo_available ?h" using fifo_available_eq [OF hi] bs(2) szh by simp
  have room: "f_begin ?h + f_used ?h + length bs \<le> fifo_size ?h" using c(3) szh bs(2) le by simp
  obtain g' where "fifo_advance (length bs) ?h = (Ret (), g')"
    "appended ?h (take (length bs) (drop (f_begin ?h + f_used ?h) (contents (f_buffer ?h)))) g'"
    using fifo_advance_spec [OF hi _ wr av room] c(2) by auto
  moreover have "take (length bs) (drop (f_begin ?h + f_used ?h) (contents (f_buffer ?h))) = map Some bs"
    using t2 c(3) by simp
  ultimately have "fifo_advance (length bs) ?h = (Ret (), g')" "appended ?h (map Some bs) g'" by simp_all
  moreover from this(2) have "appended g (map Some bs) g'"
    using ch szh by (simp add: appended_def same_frame_def fifo_tells_def)
  ultimately show thesis using that [OF store] by blast
qed

text \<open>Everything that the two functions keep of the queue, the lock apart: it stays held when the
  run stops inside.\<close>

definition wire_ok :: "char fifo \<Rightarrow> bool" where
  "wire_ok f \<longleftrightarrow> streaming f \<and> fifo_size f < 2 ^ 31"

lemma wire_ok_mutex [simp]: "wire_ok (f\<lparr>f_mutex := locked (f_mutex f)\<rparr>) = wire_ok f"
  "m_kind m = Recursive_mutex \<Longrightarrow> wire_ok f \<Longrightarrow> wire_ok (f\<lparr>f_mutex := m\<rparr>)"
  by (auto simp: wire_ok_def streaming_def fifo_ok_def reentrant_def)

lemma wire_ok_frame: "wire_ok f \<Longrightarrow> fifo_inv g \<Longrightarrow> same_frame f g \<Longrightarrow> wire_ok g"
  by (auto simp: wire_ok_def streaming_def fifo_ok_def reentrant_def same_frame_def)

text \<open>The bytes of a compacted queue, as the kernel reads them.\<close>

lemma load_bytes_all:
  assumes inv: "fifo_inv g" and b: "f_begin g = 0" and c: "fifo_content g = map Some bs"
  shows "load_bytes 0 (f_used g) g = (Ret bs, g)"
proof (cases "f_used g = 0")
  case True
  then have "bs = []" using c fifo_content_length [OF inv] by simp
  with True show ?thesis by (simp add: load_bytes_def)
next
  case False
  have sz: "buffer_inv (f_buffer g)" "f_used g \<le> b_used (f_buffer g)"
    using inv b by (auto simp: fifo_inv_def fifo_size_def buffer_size_def)
  then obtain m where m: "b_ptr (f_buffer g) = Some m" "length m = b_capacity (f_buffer g)"
    using False buffer_inv_nonempty [of "f_buffer g"] by (auto simp: buffer_inv_def)
  have len: "f_used g \<le> length m" using sz m by (simp add: buffer_inv_def)
  have "take (f_used g) m = map Some bs"
    using c b m(1) sz(2) by (simp add: fifo_content_def contents_def min_def split: if_splits)
  then have "buffer_load 0 (f_used g) (f_buffer g) = (Ret (map Some bs), f_buffer g)"
    using m(1) len by (simp add: buffer_load_def)
  then show ?thesis using False by (simp add: load_bytes_def on_buffer_def zoom_def bnd_def)
qed

text \<open>The queue while \<open>receiveBytes\<close> and \<open>sendBytes\<close> hold its mutex.\<close>

abbreviation held :: "char fifo \<Rightarrow> char fifo" where
  "held f \<equiv> f\<lparr>f_mutex := locked (f_mutex f)\<rparr>"

abbreviation let_go :: "char fifo \<times> socket \<times> world \<Rightarrow> char fifo \<times> socket \<times> world" where
  "let_go s \<equiv> ((fst s)\<lparr>f_mutex := unlocked (f_mutex (fst s))\<rparr>, snd s)"

lemma wire_held:
  assumes "wire_ok f"
  shows "fifo_inv (held f)" "reentrant (held f)" "\<not> f_error (held f)" "\<not> f_eof (held f)" "reentrant f"
  using assms by (auto simp: wire_ok_def streaming_def fifo_ok_def)

lemma wire_compacted:
  assumes "wire_ok f" "compacted (held f) g"
  shows "fifo_inv g" "f_used g = f_used f" "fifo_content g = fifo_content f" "f_mutex g = locked (f_mutex f)"
    "fifo_size g = fifo_size f" "\<not> f_error g" "\<not> f_eof g" "wire_ok g" "can_lock (f_mutex g)"
proof -
  have g: "fifo_inv g" "same_frame (held f) g" "f_used g = f_used f" "fifo_content g = fifo_content f"
    using assms(2) by (auto simp: compacted_def)
  then show "fifo_inv g" "f_used g = f_used f" "fifo_content g = fifo_content f" by simp_all
  show m: "f_mutex g = locked (f_mutex f)" "fifo_size g = fifo_size f" "\<not> f_error g" "\<not> f_eof g"
    using g(2) wire_held [OF assms(1)] by (auto simp: same_frame_def)
  show "wire_ok g" using wire_ok_frame [OF _ g(1,2)] assms(1) by simp
  show "can_lock (f_mutex g)" using wire_held(5) [OF assms(1)] m(1) by (simp add: reentrant_def)
qed

lemma sock_receive_fifo_start:
  assumes f: "wire_ok f"
  obtains g where "compacted (held f) g" "f_begin g = 0" "sock_receive_fifo (f, sk, w) =
    on_exit (bnd (on_sock (sock_receive (int_of_size (fifo_available g)) 0)) (\<lambda>(rc, bytes).
      thn (on_queue (store_received (f_used f) bytes))
     (thn (if rc > 0 then on_queue (fifo_advance (nat rc)) else ret ()) (ret rc)))) let_go (g, sk, w)"
proof -
  note ok = wire_held [OF f]
  obtain g where g: "fifo_next (held f) = (Ret (f_used f), g)" "compacted (held f) g" "f_begin g = 0"
    using fifo_next_spec [OF ok(1,2)] by auto
  show thesis
    by (rule that [OF g(2,3)], unfold sock_receive_fifo_def queue_locked_free [OF reentrant_can_lock [OF ok(5)]])
      (simp add: on_exit_def bnd_def on_queue_apply g(1))
qed

lemma sock_send_fifo_start:
  assumes f: "wire_ok f" and c: "fifo_content f = map Some bs"
  obtains g where "compacted (held f) g" "length bs = f_used g" "sock_send_fifo (f, sk, w) =
    on_exit (bnd (on_sock (sock_send bs 0)) (\<lambda>rc.
      thn (if rc > 0 then on_queue (fifo_drain (nat rc)) else ret ()) (ret rc))) let_go (g, sk, w)"
proof -
  note ok = wire_held [OF f]
  obtain g where g: "fifo_begin (held f) = (Ret 0, g)" "compacted (held f) g" "f_begin g = 0"
    by (rule compacted_begin [OF ok(1) reentrant_can_lock [OF ok(2)]])
  note gi = wire_compacted [OF f g(2)]
  have "f_used g < 2 ^ 31" using fifo_used_le [OF gi(1)] gi(5) f by (simp add: wire_ok_def)
  then have sm: "size_of_int (int_of_size (f_used g)) = f_used g" by (simp add: size_max_def)
  have ld: "load_bytes 0 (f_used g) g = (Ret bs, g)"
    by (rule load_bytes_all [OF gi(1) g(3)]) (simp add: gi(3) c)
  have lb: "length bs = f_used g" using fifo_content_length [OF gi(1)] gi(3) c by simp
  show thesis
    by (rule that [OF g(2) lb], unfold sock_send_fifo_def queue_locked_free [OF reentrant_can_lock [OF ok(5)]])
      (simp add: on_exit_def bnd_def on_queue_apply g(1) sm ld)
qed

text \<open>How both end when nothing was transferred, and when the queue has changed.\<close>

lemma wire_unchanged:
  assumes "wire_ok f" "compacted (held f) g" "f' = g \<or> f' = g\<lparr>f_mutex := f_mutex f\<rparr>"
  shows "wire_ok f'" "fifo_content f' = fifo_content f" "fifo_size f' = fifo_size f"
  using assms(3) wire_compacted [OF assms(1,2)] wire_held(5) [OF assms(1)] by (auto simp: reentrant_def)

lemma wire_changed:
  assumes "wire_ok f" "compacted (held f) g" "same_frame g g'" "fifo_inv g'" "f' = g'\<lparr>f_mutex := unlocked (f_mutex g')\<rparr>"
  shows "wire_ok f'" "fifo_content f' = fifo_content g'" "fifo_size f' = fifo_size f" "f_mutex f' = f_mutex f"
  using assms(3-5) wire_compacted [OF assms(1,2)] wire_held(5) [OF assms(1)] wire_ok_frame [of g g']
  by (auto simp: same_frame_def reentrant_def)

text \<open>One call of \<open>receiveBytes(FIFOBuffer&)\<close> on a queue with a re-entrant mutex.\<close>

lemma sock_receive_fifo_step:
  assumes f: "wire_ok f" and run: "sock_receive_fifo (f, sk, w) = (out, (f', sk', w'))"
  obtains bs where "wire_ok f'" "fifo_content f' = fifo_content f @ map Some bs"
    "received w' = received w @ bs" "sent w' = sent w" "fifo_size f' = fifo_size f"
    "case out of Ret rc \<Rightarrow> nat rc = length bs \<and> f_mutex f' = f_mutex f | Fail e \<Rightarrow> bs = []"
proof -
  obtain g where g: "compacted (held f) g" "f_begin g = 0" and start: "sock_receive_fifo (f, sk, w) =
    on_exit (bnd (on_sock (sock_receive (int_of_size (fifo_available g)) 0)) (\<lambda>(rc, bytes).
      thn (on_queue (store_received (f_used f) bytes))
     (thn (if rc > 0 then on_queue (fifo_advance (nat rc)) else ret ()) (ret rc)))) let_go (g, sk, w)"
    by (rule sock_receive_fifo_start [OF f])
  note gi = wire_compacted [OF f g(1)] and same = wire_unchanged [OF f g(1)]
  have av: "fifo_available g = fifo_size f - f_used f" using fifo_available_eq [OF gi(1)] gi by simp
  then have small: "size_of_int (int_of_size (fifo_available g)) = fifo_available g"
    using f by (auto simp: wire_ok_def size_max_def)
  obtain ro k where r: "sock_receive (int_of_size (fifo_available g)) 0 (sk, w) = (ro, k)"
    by (rule prod.exhaust)
  obtain rw where k: "k = (sk, rw)" using r by (cases k) (metis sock_receive_bytes)
  obtain bs where bs: "received rw = received w @ bs" "sent rw = sent w"
    "length bs \<le> fifo_available g"
    "case ro of Ret (rc, xs) \<Rightarrow> xs = bs \<and> nat rc = length bs | Fail e \<Rightarrow> bs = []"
    by (rule sock_receive_bytes [OF r [unfolded k]]) (use small that in simp)
  show thesis
  proof (cases ro)
    case (Fail e)
    have "f' = g \<or> f' = g\<lparr>f_mutex := f_mutex f\<rparr>" "w' = rw" "\<exists>e. out = Fail e"
      using run Fail r k gi(4) unfolding start
      by (auto simp: on_exit_def bnd_def on_sock_apply split: failure.splits)
    then show thesis using same bs Fail by (intro that [of "[]"]) auto
  next
    case (Ret x)
    then obtain rc where x: "x = (rc, bs)" "nat rc = length bs" using bs(4) by (cases x) auto
    show thesis
    proof (cases "bs = []")
      case True
      then have out: "out = Ret rc" "f' = g\<lparr>f_mutex := f_mutex f\<rparr>" "w' = rw"
        using run Ret r k gi(4) x unfolding start
        by (simp_all add: on_exit_def bnd_def thn_def on_sock_apply on_queue_apply store_received_def)
      then show thesis using same [OF disjI2 [OF out(2)]] x bs True by (intro that [of "[]"]) auto
    next
      case False
      then have pos: "rc > 0" using x by (cases bs) auto
      have fit: "length bs \<le> fifo_size g - f_used g" using bs(3) av gi by simp
      obtain h g' where h: "store_received (f_used g) bs g = (Ret (), h)"
        "fifo_advance (length bs) h = (Ret (), g')" "appended g (map Some bs) g'"
        by (rule store_and_advance [OF gi(1,9) g(2) gi(6,7) False fit])
      have out: "out = Ret rc" "f' = g'\<lparr>f_mutex := unlocked (f_mutex g')\<rparr>" "w' = rw"
        using run Ret r k x pos h gi(2) unfolding start
        by (simp_all add: on_exit_def bnd_def thn_def on_sock_apply on_queue_apply)
      have "fifo_inv g'" "same_frame g g'" "fifo_content g' = fifo_content g @ map Some bs"
        using h(3) by (auto simp: appended_def)
      then show thesis
        using wire_changed [OF f g(1) _ _ out(2)] out x bs gi(3) by (intro that [of bs]) auto
    qed
  qed
qed

text \<open>One call of \<open>sendBytes(FIFOBuffer&)\<close> on a queue with a re-entrant mutex.\<close>

lemma sock_send_fifo_step:
  assumes f: "wire_ok f" and c: "fifo_content f = map Some bs"
    and run: "sock_send_fifo (f, sk, w) = (out, (f', sk', w'))"
  obtains n where "wire_ok f'" "fifo_content f' = map Some (drop n bs)" "n \<le> length bs"
    "received w' = received w" "sent w' = sent w @ take n bs" "fifo_size f' = fifo_size f"
    "case out of Ret rc \<Rightarrow> nat rc = n \<and> f_mutex f' = f_mutex f | Fail e \<Rightarrow> n = 0"
proof -
  obtain g where g: "compacted (held f) g" "length bs = f_used g" and start: "sock_send_fifo (f, sk, w) =
    on_exit (bnd (on_sock (sock_send bs 0)) (\<lambda>rc.
      thn (if rc > 0 then on_queue (fifo_drain (nat rc)) else ret ()) (ret rc))) let_go (g, sk, w)"
    by (rule sock_send_fifo_start [OF f c])
  note gi = wire_compacted [OF f g(1)] and same = wire_unchanged [OF f g(1)]
  obtain ro k where r: "sock_send bs 0 (sk, w) = (ro, k)" by (rule prod.exhaust)
  obtain rw where k: "k = (sk, rw)" using r by (cases k) (metis sock_send_bytes)
  obtain n where n: "received rw = received w" "sent rw = sent w @ take n bs" "n \<le> length bs"
    "case ro of Ret rc \<Rightarrow> nat rc = n | Fail e \<Rightarrow> n = 0"
    by (rule sock_send_bytes [OF r [unfolded k]])
  show thesis
  proof (cases ro)
    case (Fail e)
    have "f' = g \<or> f' = g\<lparr>f_mutex := f_mutex f\<rparr>" "w' = rw" "\<exists>e. out = Fail e"
      using run Fail r k gi(4) unfolding start
      by (auto simp: on_exit_def bnd_def on_sock_apply split: failure.splits)
    then show thesis using same n Fail c by (intro that [of 0]) auto
  next
    case (Ret rc)
    then have rc: "nat rc = n" using n(4) by simp
    show thesis
    proof (cases "n = 0")
      case True
      then have out: "out = Ret rc" "f' = g\<lparr>f_mutex := f_mutex f\<rparr>" "w' = rw"
        using run Ret r k gi(4) rc unfolding start
        by (simp_all add: on_exit_def bnd_def thn_def on_sock_apply on_queue_apply)
      then show thesis using same [OF disjI2 [OF out(2)]] rc n True c by (intro that [of 0]) auto
    next
      case False
      then have pos: "rc > 0" using rc by auto
      obtain g' where g': "fifo_drain n g = (Ret (), g')" "removed g n g'"
        using fifo_drain_spec [OF gi(1,9), of n] False n(3) g(2) by (auto simp: min_def split: if_splits)
      have out: "out = Ret rc" "f' = g'\<lparr>f_mutex := unlocked (f_mutex g')\<rparr>" "w' = rw"
        using run Ret r k rc pos g'(1) unfolding start
        by (simp_all add: on_exit_def bnd_def thn_def on_sock_apply on_queue_apply)
      have "fifo_inv g'" "same_frame g g'" "fifo_content g' = drop n (fifo_content g)"
        using g'(2) by (auto simp: removed_def)
      then show thesis
        using wire_changed [OF f g(1) _ _ out(2)] out rc n gi(3) c by (intro that [of n]) (auto simp: drop_map)
    qed
  qed
qed

text \<open>Any sequence of the two calls, over any script.\<close>

datatype wire_op = Fill | Flush

primrec wire_exec :: "wire_op \<Rightarrow> int wire_prog" where
  "wire_exec Fill = sock_receive_fifo"
| "wire_exec Flush = sock_send_fifo"

fun wire_run :: "wire_op list \<Rightarrow> char fifo \<times> socket \<times> world \<Rightarrow> char fifo \<times> socket \<times> world" where
  "wire_run [] s = s"
| "wire_run (x # xs) s = wire_run xs (snd (wire_exec x s))"

text \<open>The code of the two functions apart from the mutex is right: on a queue whose mutex were re-entrant, filled
  with \<open>receiveBytes\<close> and emptied with \<open>sendBytes\<close> in any order, whatever the kernel answers, every byte would be passed on
  once and in order. No queue of the program has such a mutex; the property below says what the functions do as declared.\<close>

theorem wire_relay:
  assumes "wire_ok f" "fifo_content f = map Some bs" "wire_run ops (f, sk, w) = (f', sk', w')"
    and "received w = []" "sent w = []"
  shows "\<exists>bs'. wire_ok f' \<and> fifo_content f' = map Some bs' \<and> sent w' @ bs' = bs @ received w'"
proof -
  have "\<exists>bs'. wire_ok f' \<and> fifo_content f' = map Some bs' \<and> sent w' @ bs' = c @ received w'"
    if "wire_ok f" "fifo_content f = map Some bs" "wire_run ops (f, sk, w) = (f', sk', w')"
      "sent w @ bs = c @ received w" for c
    using that
  proof (induction ops arbitrary: f sk w bs)
    case Nil
    then show ?case by auto
  next
    case (Cons x ops)
    obtain out g k v where s: "wire_exec x (f, sk, w) = (out, (g, k, v))" by (metis surj_pair)
    have rest: "wire_run ops (g, k, v) = (f', sk', w')" using Cons.prems(3) s by simp
    have "\<exists>bs'. wire_ok g \<and> fifo_content g = map Some bs' \<and> sent v @ bs' = c @ received v"
    proof (cases x)
      case Fill
      then obtain xs where "wire_ok g" "fifo_content g = fifo_content f @ map Some xs"
        "received v = received w @ xs" "sent v = sent w"
        using s sock_receive_fifo_step [OF Cons.prems(1)] by (metis wire_exec.simps(1))
      then show ?thesis using Cons.prems(2,4) by (intro exI [of _ "bs @ xs"]) simp
    next
      case Flush
      then obtain n where "wire_ok g" "fifo_content g = map Some (drop n bs)"
        "received v = received w" "sent v = sent w @ take n bs"
        using s sock_send_fifo_step [OF Cons.prems(1,2)] by (metis wire_exec.simps(2))
      then show ?thesis using Cons.prems(4) by (intro exI [of _ "drop n bs"]) simp
    qed
    then show ?case using Cons.IH rest by blast
  qed
  then show ?thesis using assms by simp
qed

text \<open>With the mutex that \<open>BasicFIFOBuffer\<close> declares neither function gets as far as a
  system call: both lock the mutex and call a member function that locks it again.\<close>

lemma wire_deadlock:
  assumes "plain_mutex f"
  shows "wire_exec op (f, sk, w) = (Fail Deadlock, (f\<lparr>f_mutex := locked (f_mutex f)\<rparr>, sk, w))"
proof -
  have lk: "can_lock (f_mutex f)" "\<not> can_lock (locked (f_mutex f))"
    using plain_can_lock [OF assms] plain_held [OF assms] .
  have "fifo_locked m (f\<lparr>f_mutex := locked (f_mutex f)\<rparr>) = (Fail Deadlock, f\<lparr>f_mutex := locked (f_mutex f)\<rparr>)"
    for m :: "(char fifo, nat) prog"
    using lk(2) by (simp add: fifo_locked_def with_lock_held)
  then have "fifo_next (f\<lparr>f_mutex := locked (f_mutex f)\<rparr>) = (Fail Deadlock, f\<lparr>f_mutex := locked (f_mutex f)\<rparr>)"
    "fifo_begin (f\<lparr>f_mutex := locked (f_mutex f)\<rparr>) = (Fail Deadlock, f\<lparr>f_mutex := locked (f_mutex f)\<rparr>)"
    unfolding fifo_next_def fifo_begin_def by blast+
  then show ?thesis
    by (cases op)
      (simp_all add: sock_receive_fifo_def sock_send_fifo_def queue_locked_free [OF lk(1)]
        on_exit_def bnd_def on_queue_apply)
qed

text \<open>C7. No byte is ever transferred between a socket and a byte queue. On every queue with the mutex that the class declares,
  whatever it holds, whoever has its lock, whatever the state of the socket and of the system, \<open>receiveBytes(FIFOBuffer&)\<close>
  and \<open>sendBytes(FIFOBuffer&)\<close> block for ever: no system call is made, the queue keeps its data and sends no signal, and its
  mutex stays locked, so that every later call that locks it blocks too.\<close>

theorem wire_never_transfers:
  assumes "m_kind (f_mutex f) = Std_mutex"
  shows "\<exists>g. wire_exec op (f, sk, w) = (Fail Deadlock, (g, sk, w)) \<and> \<not> can_lock (f_mutex g) \<and>
    m_kind (f_mutex g) = Std_mutex \<and> fifo_content g = fifo_content f \<and> f_used g = f_used f \<and> f_signals g = f_signals f"
proof (cases "can_lock (f_mutex f)")
  case True
  then have "plain_mutex f" using assms by (simp add: plain_mutex_def can_lock_def)
  from wire_deadlock [OF this] plain_held [OF this] assms show ?thesis by (simp add: fifo_content_def)
next
  case False
  then have "wire_exec op (f, sk, w) = (Fail Deadlock, (f, sk, w))"
    by (cases op) (simp_all add: sock_receive_fifo_def sock_send_fifo_def queue_locked_def with_lock_held)
  then show ?thesis using False assms by simp
qed

subsection \<open>Addresses and binding\<close>

lemma make_addr_with_ip_eq:
  "make_addr_with_ip ip port s =
     (if length ip \<le> 12 then (Ret (make_addr port, zero_bytes (length ip)), s)
      else (Fail (Undef Out_of_bounds), s))"
proof (cases "length ip \<le> 12")
  case True
  have "zero_bytes 4 @ zero_bytes 8 = zero_bytes 12"
    unfolding zero_bytes_def replicate_add [symmetric] by simp
  moreover have "take (length ip) (zero_bytes 12) = zero_bytes (length ip)"
    using True by (simp add: zero_bytes_def min_def)
  ultimately show ?thesis
    using True by (simp add: make_addr_with_ip_def make_addr_def bnd_def mem_read_def zero_bytes_def)
next
  case False
  then show ?thesis
    by (simp add: make_addr_with_ip_def make_addr_def bnd_def mem_read_def zero_bytes_def)
qed

text \<open>\<open>connect\<close> ignores the address it is given. It connects to the wildcard address,
  overwrites the caller's text with zero bytes and reports errors with that text; a text of more
  than twelve characters makes it read past the address structure.\<close>

theorem sock_connect_ignores_ip:
  assumes "sk_fd sk \<noteq> -1" "w_script w = is @ r # rs" "\<forall>i\<in>set is. interrupted i"
    and "status_ok r" "\<not> (rp_rc r = -1 \<and> rp_err r = EINTR)"
  shows "sock_connect ip port (sk, w) =
     (if length ip \<le> 12
      then ((if rp_rc r = 0 then Ret (zero_bytes (length ip))
             else Fail (Thrown (Runtime_error (error_msg (rp_err r) (zero_bytes (length ip)))))),
            (sk, after_retries (Connect (sk_fd sk) (make_addr port)) is r w))
      else (Fail (Undef Out_of_bounds), (sk, w)))"
proof (cases "length ip \<le> 12")
  case True
  have "fd_loop (\<lambda>_ rc. rc \<noteq> 0) (\<lambda>fd. Connect fd (make_addr port)) (sk, w) =
      (Ret r, (sk, after_retries (Connect (sk_fd sk) (make_addr port)) is r w))"
    by (rule fd_loop_interrupted [OF assms(2,3)]) (use assms in \<open>auto simp: status_ok_def\<close>)
  then show ?thesis
    using assms(1,4) True
    by (auto simp: sock_connect_def if_invalid_apply bnd_def thn_def make_addr_with_ip_eq
        last_error_apply error_code_arg_def throw_runtime_def status_ok_def)
next
  case False
  then show ?thesis
    using assms(1) by (simp add: sock_connect_def if_invalid_apply bnd_def thn_def make_addr_with_ip_eq)
qed

text \<open>When \<^verbatim>\<open>bind\<close> fails, the exception of the overload that reports failures
  names the port as the error code; \<^verbatim>\<open>errno\<close> is not consulted.\<close>

theorem sock_bind_reports_port:
  assumes "sk_fd sk \<noteq> -1" "w_script w = r # rs" "rp_rc r = -1"
  shows "fst (sock_bind_reuse port False False (sk, w)) =
     Fail (Thrown (Runtime_error (error_msg (int (unat port)) [])))"
proof -
  have "sys (Bind (sk_fd sk) (make_addr port)) w = (Ret r, answered (Bind (sk_fd sk) (make_addr port)) r w)"
    by (rule sys_reply [OF assms(2)]) (simp add: status_ok_def assms(3))
  then show ?thesis
    using assms(1,3)
    by (simp add: sock_bind_reuse_def thn_def if_invalid_apply bnd_def fd_call_apply error_code_apply)
qed

text \<open>\<open>bind6\<close> on a fresh object asks for an IPv4 socket, sets an IPv6 option on it and
  binds it to an IPv6 address.\<close>

theorem sock_bind6_family:
  assumes "sk_fd sk = -1" "w_script w = [s, p, b]" "0 \<le> rp_rc s" "rp_rc p = 0" "status_ok b"
  shows "map fst (w_trace (snd (snd (sock_bind6 port False v6only (sk, w))))) = map fst (w_trace w) @
     [Socket AF_INET SOCK_STREAM IPPROTO_TCP,
      Setsockopt (rp_rc s) IPV6_V6ONLY (Int_val (if v6only then 1 else 0)),
      Bind (rp_rc s) (make_addr_v6 port)]"
proof -
  let ?w1 = "answered (Socket AF_INET SOCK_STREAM IPPROTO_TCP) s w"
  let ?c2 = "Setsockopt (rp_rc s) IPV6_V6ONLY (Int_val (if v6only then 1 else 0))"
  let ?c3 = "Bind (rp_rc s) (make_addr_v6 port)"
  have s1: "sys (Socket AF_INET SOCK_STREAM IPPROTO_TCP) w = (Ret s, ?w1)"
    by (rule sys_reply [OF assms(2)]) (use assms(3) in simp)
  have s2: "sys ?c2 ?w1 = (Ret p, answered ?c2 p ?w1)"
    by (rule sys_reply [of _ p "[b]"]) (use assms in \<open>simp_all add: status_ok_def\<close>)
  have s3: "sys ?c3 (answered ?c2 p ?w1) = (Ret b, answered ?c3 b (answered ?c2 p ?w1))"
    by (rule sys_reply [of _ b "[]"]) (use assms in simp_all)
  have init: "sock_init AF_INET (sk, w) = (Ret (), (sk\<lparr>sk_fd := rp_rc s\<rparr>, ?w1))"
    using assms(1,3) s1
    by (simp add: sock_init_def init_socket_def bnd_def thn_def on_world_apply set_fd_def
        INVALID_SOCKET_def if_invalid_apply)
  show ?thesis
    using assms(1,3,4) s2 s3
    by (simp add: sock_bind6_def sock_bind6_full_def thn_def bnd_def if_invalid_apply init
        set_option_def set_raw_option_def fd_call_apply error_code_apply)
qed

subsection \<open>Blocking mode\<close>

lemma int_bit_mask: "bit (or (and a (not O_NONBLOCK)) O_NONBLOCK) k \<longleftrightarrow> bit a k \<or> k = 11"
  "bit (and a (not O_NONBLOCK)) k \<longleftrightarrow> bit a k \<and> k \<noteq> 11" for a :: int
proof -
  have "bit O_NONBLOCK k \<longleftrightarrow> k = 11"
    using bit_exp_iff [of 11 k, where 'a = int] by (simp add: O_NONBLOCK_def)
  then show "bit (or (and a (not O_NONBLOCK)) O_NONBLOCK) k \<longleftrightarrow> bit a k \<or> k = 11"
    "bit (and a (not O_NONBLOCK)) k \<longleftrightarrow> bit a k \<and> k \<noteq> 11"
    by (auto simp: bit_or_int_iff bit_and_int_iff bit_not_int_iff)
qed

text \<open>\<open>setBlocking\<close> reads the status flags of the descriptor and writes them back with
  \<^verbatim>\<open>O_NONBLOCK\<close> changed and every other bit as it was; the object remembers the
  mode only after the kernel has accepted it.\<close>

theorem set_blocking_flags:
  assumes "w_script w = g # s # rs" "0 \<le> rp_rc g" "-1 \<le> rp_rc s"
  shows "\<exists>v w'. set_blocking flag (sk, w) =
      (if rp_rc s = -1 then (Fail (Thrown (Runtime_error (error_msg (rp_err s) []))), (sk, w'))
       else (Ret (), (sk\<lparr>sk_blocking := flag\<rparr>, w'))) \<and>
     w_trace w' = w_trace w @ [(Fcntl (sk_fd sk) F_GETFL, g), (Fcntl (sk_fd sk) (F_SETFL v), s)] \<and>
     (\<forall>k. bit v k = (if k = 11 then \<not> flag else bit (rp_rc g) k))"
proof -
  let ?c1 = "Fcntl (sk_fd sk) F_GETFL"
  define v where "v = (if \<not> flag then or (and (rp_rc g) (not O_NONBLOCK)) O_NONBLOCK
    else and (rp_rc g) (not O_NONBLOCK))"
  let ?c2 = "Fcntl (sk_fd sk) (F_SETFL v)"
  have s1: "sys ?c1 w = (Ret g, answered ?c1 g w)"
    by (rule sys_reply [OF assms(1)]) (use assms(2) in simp)
  have s2: "sys ?c2 (answered ?c1 g w) = (Ret s, answered ?c2 s (answered ?c1 g w))"
    by (rule sys_reply [of _ s rs]) (use assms in simp_all)
  have "set_blocking flag (sk, w) =
      (if rp_rc s = -1 then (Fail (Thrown (Runtime_error (error_msg (rp_err s) []))),
          (sk, answered ?c2 s (answered ?c1 g w)))
       else (Ret (), (sk\<lparr>sk_blocking := flag\<rparr>, answered ?c2 s (answered ?c1 g w))))"
    using s1 s2 assms(2)
    by (auto simp: set_blocking_def sock_fcntl_def bnd_def thn_def fd_call_apply Let_def
        error_last_apply v_def [symmetric])
  moreover have "bit v k = (if k = 11 then \<not> flag else bit (rp_rc g) k)" for k
    by (auto simp: v_def int_bit_mask)
  ultimately show ?thesis
    by (intro exI [of _ v] exI [of _ "answered ?c2 s (answered ?c1 g w)"]) auto
qed

subsection \<open>The life of a descriptor\<close>

text \<open>
  \<open>scan_fd fd tr\<close> reads a trace with the descriptor that the object holds: a call on another
  descriptor, a second socket while one is held and a close while none is held are faults.
\<close>

fun fd_of :: "syscall \<Rightarrow> int option" where
  "fd_of (Bind fd a) = Some fd"
| "fd_of (Listen fd n) = Some fd"
| "fd_of (Accept fd) = Some fd"
| "fd_of (Connect fd a) = Some fd"
| "fd_of (Recv fd n fl) = Some fd"
| "fd_of (Send fd xs fl) = Some fd"
| "fd_of (Readv fd ns) = Some fd"
| "fd_of (Writev fd xss) = Some fd"
| "fd_of (Shutdown fd how) = Some fd"
| "fd_of (Ioctl fd req) = Some fd"
| "fd_of (Fcntl fd c) = Some fd"
| "fd_of (Setsockopt fd opt v) = Some fd"
| "fd_of (Getsockopt fd opt) = Some fd"
| "fd_of _ = None"

fun fd_step :: "int \<Rightarrow> syscall \<times> reply \<Rightarrow> int option" where
  "fd_step cur (Socket af ty proto, r) = (if cur = -1 then Some (rp_rc r) else None)"
| "fd_step cur (Close fd, r) = (if fd = cur \<and> cur \<noteq> -1 then Some (-1) else None)"
| "fd_step cur (c, r) = (if fd_of c = Some cur then Some cur else None)"

fun scan_fd :: "int \<Rightarrow> (syscall \<times> reply) list \<Rightarrow> int option" where
  "scan_fd cur [] = Some cur"
| "scan_fd cur (x # xs) = (case fd_step cur x of Some cur' \<Rightarrow> scan_fd cur' xs | None \<Rightarrow> None)"

lemma scan_fd_append:
  "scan_fd cur (xs @ ys) = (case scan_fd cur xs of Some cur' \<Rightarrow> scan_fd cur' ys | None \<Rightarrow> None)"
  by (induction xs arbitrary: cur) (auto split: option.split)

definition fd_tracked :: "int \<Rightarrow> socket \<times> world \<Rightarrow> bool" where
  "fd_tracked fd0 s \<longleftrightarrow> scan_fd fd0 (w_trace (snd s)) = Some (sk_fd (fst s))"

lemma fd_step_on: "fd_of c = Some cur \<Longrightarrow> fd_step cur (c, r) = Some cur"
  by (cases c) auto

lemma scan_fd_on: "fd_of c = Some cur \<Longrightarrow> scan_fd cur (map (Pair c) rs) = Some cur"
  by (induction rs) (auto simp: fd_step_on)

lemma keeps_fd_call [keeps_rules]:
  assumes "\<And>fd. fd_of (c fd) = Some fd"
  shows "keeps (fd_tracked fd0) (fd_call c)"
proof (rule keepsI)
  fix s assume p: "fd_tracked fd0 s"
  obtain sk w where s: "s = (sk, w)" by (rule prod.exhaust)
  show "fd_tracked fd0 (snd (fd_call c s))"
    by (rule sys_cases [of w "c (sk_fd sk)"])
      (use p assms in \<open>auto simp: s fd_call_apply fd_tracked_def scan_fd_append fd_step_on\<close>)
qed

lemma keeps_fd_loop [keeps_rules]:
  assumes "\<And>fd. fd_of (c fd) = Some fd"
  shows "keeps (fd_tracked fd0) (fd_loop again c)"
proof (rule keepsI)
  fix s assume p: "fd_tracked fd0 s"
  obtain sk w where s: "s = (sk, w)" by (rule prod.exhaust)
  obtain out w' where l: "sys_retry (again sk) (c (sk_fd sk)) w = (out, w')" by (rule prod.exhaust)
  obtain rs where "w_trace w' = w_trace w @ map (Pair (c (sk_fd sk))) rs"
  proof (cases out)
    case (Ret r)
    then obtain i where "w_trace w' = w_trace w @ map (Pair (c (sk_fd sk))) i @ [(c (sk_fd sk), r)]"
      using sys_retry_outcome [OF l] by auto
    then show thesis by (intro that [of "i @ [r]"]) simp
  next
    case (Fail e)
    then show thesis using sys_retry_outcome [OF l] that by auto
  qed
  then show "fd_tracked fd0 (snd (fd_loop again c s))"
    using p assms scan_fd_on by (simp add: s fd_loop_apply l fd_tracked_def scan_fd_append)
qed

lemma keeps_errors [keeps_rules]:
  "keeps P error_last" "keeps P last_error" "keeps P (error_code e)" "keeps P (error_code_arg e a)"
  by (simp_all add: keeps_def error_last_def last_error_def error_code_def error_code_arg_def bnd_def
      throw_runtime_def)

lemma keeps_if_invalid [keeps_rules]: "keeps P m \<Longrightarrow> keeps P n \<Longrightarrow> keeps P (if_invalid m n)"
  by (simp add: if_invalid_def keeps_cond)

lemma keeps_sock_close [keeps_rules]: "keeps (fd_tracked fd0) sock_close"
proof (rule keepsI)
  fix s assume p: "fd_tracked fd0 s"
  obtain sk w where s: "s = (sk, w)" by (rule prod.exhaust)
  show "fd_tracked fd0 (snd (sock_close s))"
    by (rule sys_cases [of w "Close (sk_fd sk)"])
      (use p in \<open>auto simp: s sock_close_def if_invalid_apply bnd_def set_fd_def INVALID_SOCKET_def
        fd_call_apply fd_tracked_def scan_fd_append\<close>)
qed

lemma keeps_sock_init [keeps_rules]: "keeps (fd_tracked fd0) (sock_init af)"
proof (rule keepsI)
  fix s assume p: "fd_tracked fd0 s"
  obtain sk w where s: "s = (sk, w)" by (rule prod.exhaust)
  show "fd_tracked fd0 (snd (sock_init af s))"
    by (rule sys_cases [of w "Socket af SOCK_STREAM IPPROTO_TCP"])
      (use p in \<open>auto simp: s sock_init_def init_socket_def bnd_def thn_def set_fd_def
        INVALID_SOCKET_def on_world_apply if_invalid_apply fd_tracked_def scan_fd_append\<close>)
qed

lemma keeps_make_addr [keeps_rules]: "keeps P (make_addr_with_ip ip port)"
  by (simp add: keeps_def make_addr_with_ip_eq)

lemma keeps_options [keeps_rules]:
  "keeps (fd_tracked fd0) (set_raw_option opt v)"
  "keeps (fd_tracked fd0) (get_raw_option opt b)"
  unfolding set_raw_option_def get_raw_option_def by (intro keeps_rules; simp)+

lemma keeps_set_option [keeps_rules]: "keeps (fd_tracked fd0) (set_option opt i)"
  unfolding set_option_def by (intro keeps_rules)

lemma keeps_reuse [keeps_rules]:
  "keeps (fd_tracked fd0) (set_reuse_address flag)" "keeps (fd_tracked fd0) (set_reuse_port flag)"
  unfolding set_reuse_address_def set_reuse_port_def set_flag_def by (intro keeps_rules)+

lemma keeps_fcntl [keeps_rules]: "keeps (fd_tracked fd0) (sock_fcntl c)"
  unfolding sock_fcntl_def by (intro keeps_rules) simp

lemma keeps_set_blocking [keeps_rules]: "keeps (fd_tracked fd0) (set_blocking flag)"
  unfolding set_blocking_def Let_def by (intro keeps_rules) (simp add: fd_tracked_def)

text \<open>The public operations of the class.\<close>

datatype sock_op = S_close | S_shutdown_receive | S_shutdown_send | S_shutdown
  | S_receive int int | S_receive_vec "nat list" | S_send string int | S_send_vec "string list"
  | S_accept | S_connect string "16 word" | S_connect_nb string "16 word"
  | S_bind "16 word" bool | S_bind_reuse "16 word" bool bool | S_bind6 "16 word" bool bool bool
  | S_listen int | S_set_raw_option sockopt optval | S_get_raw_option sockopt "optval option"
  | S_set_reuse_port bool | S_ioctl ioctl_req int | S_fcntl fcntl_cmd | S_set_blocking bool

fun sock_exec :: "sock_op \<Rightarrow> unit sock_prog" where
  "sock_exec S_close = sock_close"
| "sock_exec S_shutdown_receive = run_only sock_shutdown_receive"
| "sock_exec S_shutdown_send = run_only sock_shutdown_send"
| "sock_exec S_shutdown = run_only sock_shutdown"
| "sock_exec (S_receive n fl) = run_only (sock_receive n fl)"
| "sock_exec (S_receive_vec ns) = run_only (sock_receive_vec ns)"
| "sock_exec (S_send d fl) = run_only (sock_send d fl)"
| "sock_exec (S_send_vec ds) = run_only (sock_send_vec ds)"
| "sock_exec S_accept = run_only sock_accept"
| "sock_exec (S_connect ip port) = run_only (sock_connect ip port)"
| "sock_exec (S_connect_nb ip port) = run_only (sock_connect_nb ip port)"
| "sock_exec (S_bind port reuse) = run_only (sock_bind port reuse)"
| "sock_exec (S_bind_reuse port a b) = sock_bind_reuse port a b"
| "sock_exec (S_bind6 port a b v) = sock_bind6_full port a b v"
| "sock_exec (S_listen n) = run_only (sock_listen n)"
| "sock_exec (S_set_raw_option opt v) = set_raw_option opt v"
| "sock_exec (S_get_raw_option opt b) = run_only (get_raw_option opt b)"
| "sock_exec (S_set_reuse_port flag) = set_reuse_port flag"
| "sock_exec (S_ioctl req arg) = run_only (sock_ioctl req arg)"
| "sock_exec (S_fcntl c) = run_only (sock_fcntl c)"
| "sock_exec (S_set_blocking flag) = set_blocking flag"

text \<open>The caller catches every exception and goes on.\<close>

fun sock_run :: "sock_op list \<Rightarrow> socket \<times> world \<Rightarrow> socket \<times> world" where
  "sock_run [] s = s"
| "sock_run (x # xs) s = sock_run xs (snd (sock_exec x s))"

lemma keeps_run_only [keeps_rules]: "keeps P m \<Longrightarrow> keeps P (run_only m)"
  by (simp add: keeps_def run_only_state)

lemma sock_exec_tracked: "keeps (fd_tracked fd0) (sock_exec op)"
  by (cases op)
    (simp_all only: sock_exec.simps sock_shutdown_receive_def sock_shutdown_send_def sock_shutdown_def
      sock_receive_def sock_receive_vec_def sock_send_def sock_send_vec_def sock_accept_def
      sock_connect_def sock_connect_nb_def sock_bind_def sock_bind_reuse_def sock_bind6_full_def
      sock_listen_def sock_ioctl_def,
     (intro keeps_rules; simp)+)

text \<open>C12. Whatever operations a program calls on a \<open>ServerSocket\<close> and whatever the kernel
  answers, the object only uses the descriptor it holds, never creates a second one while it holds
  one, and closes each descriptor once; after the destructor it holds none.\<close>

theorem sock_fd_discipline:
  "scan_fd fd0 (w_trace (snd (sock_run ops (socket_of fd0, boot rs)))) =
     Some (sk_fd (fst (sock_run ops (socket_of fd0, boot rs)))) \<and>
   (case sock_destroy (sock_run ops (socket_of fd0, boot rs)) of
      (Ret _, s) \<Rightarrow> sk_fd (fst s) = -1 \<and> scan_fd fd0 (w_trace (snd s)) = Some (-1)
    | (Fail e, _) \<Rightarrow> e = Pending)"
proof -
  have run: "fd_tracked fd0 s \<Longrightarrow> fd_tracked fd0 (sock_run ops s)" for s
    by (induction ops arbitrary: s) (simp_all add: keepsD [OF sock_exec_tracked])
  obtain sk w where s: "sock_run ops (socket_of fd0, boot rs) = (sk, w)" by (rule prod.exhaust)
  have t: "scan_fd fd0 (w_trace w) = Some (sk_fd sk)"
    using run [of "(socket_of fd0, boot rs)"] s by (simp add: fd_tracked_def socket_of_def)
  show ?thesis
    by (rule sys_cases [of w "Close (sk_fd sk)"])
      (use t in \<open>auto simp: s sock_destroy_def sock_close_def if_invalid_apply bnd_def set_fd_def
        INVALID_SOCKET_def fd_call_apply scan_fd_append\<close>)
qed

subsection \<open>Witnesses\<close>

definition sample_socket :: socket where
  "sample_socket = \<lparr>sk_fd = 5, sk_blocking = True\<rparr>"

definition sample_eintr :: reply where
  "sample_eintr = \<lparr>rp_rc = -1, rp_err = 4, rp_data = No_data\<rparr>"

definition sample_recv :: reply where
  "sample_recv = \<lparr>rp_rc = 2, rp_err = 0, rp_data = Bytes ''hi''\<rparr>"

definition sample_done :: reply where
  "sample_done = \<lparr>rp_rc = 0, rp_err = 0, rp_data = No_data\<rparr>"

definition sample_failed :: reply where
  "sample_failed = \<lparr>rp_rc = -1, rp_err = 98, rp_data = No_data\<rparr>"

lemmas sample_replies = sample_socket_def sample_eintr_def sample_recv_def sample_done_def
  sample_failed_def interrupted_def EINTR_def EAGAIN_def ETIMEDOUT_def status_ok_def transfer_ok_def

theorem sock_receive_result_witness:
  "sock_receive 16 0 (sample_socket, boot [sample_eintr, sample_eintr, sample_recv]) =
     (receive_outcome True sample_recv,
      (sample_socket, after_retries (Recv 5 (size_of_int 16) 0) [sample_eintr, sample_eintr] sample_recv
        (boot [sample_eintr, sample_eintr, sample_recv])))"
  using sock_receive_result [of sample_socket "boot [sample_eintr, sample_eintr, sample_recv]"
      "[sample_eintr, sample_eintr]" sample_recv "[]" 16 0]
  by (simp add: sample_replies size_of_int_def size_max_def)

theorem sock_send_result_witness:
  "fst (sock_send ''hello'' 0 (sample_socket, boot [sample_eintr, sample_recv])) = Ret 2"
  using sock_send_result [of sample_socket "boot [sample_eintr, sample_recv]" "[sample_eintr]"
      sample_recv "[]" "''hello''" 0]
  by (simp add: sample_replies)

text \<open>A new queue with room for four bytes, and one with a byte to send.\<close>

theorem wire_never_transfers_witness:
  "(\<exists>g. wire_exec Fill (fifo_wrap (replicate 4 None) True, sample_socket, boot [sample_recv]) =
      (Fail Deadlock, (g, sample_socket, boot [sample_recv])) \<and> f_used g = 0) \<and>
   (\<exists>g. wire_exec Flush ((fifo_wrap (map Some ''abcd'') True)\<lparr>f_used := 1\<rparr>, sample_socket, boot [sample_recv]) =
      (Fail Deadlock, (g, sample_socket, boot [sample_recv])) \<and> fifo_content g = [Some (CHR ''a'')])"
  using wire_never_transfers [of "fifo_wrap (replicate 4 None) True" Fill sample_socket "boot [sample_recv]"]
    wire_never_transfers [of "(fifo_wrap (map Some ''abcd'') True)\<lparr>f_used := 1\<rparr>" Flush sample_socket "boot [sample_recv]"]
  by (fastforce simp: fifo_wrap_def fifo_make_def new_mutex_def buffer_wrap_def fifo_content_def contents_def)

theorem sock_connect_ignores_ip_witness:
  "fst (sock_connect ''10.0.0.1'' 8080 (sample_socket, boot [sample_eintr, sample_done])) = Ret (zero_bytes (length ''10.0.0.1'')) \<and>
   fst (sock_connect ''192.168.100.1'' 8080 (sample_socket, boot [sample_eintr, sample_done])) =
     Fail (Undef Out_of_bounds)"
  using sock_connect_ignores_ip [of sample_socket "boot [sample_eintr, sample_done]" "[sample_eintr]"
      sample_done "[]" "''10.0.0.1''" 8080]
    sock_connect_ignores_ip [of sample_socket "boot [sample_eintr, sample_done]" "[sample_eintr]"
      sample_done "[]" "''192.168.100.1''" 8080]
  by (simp add: sample_replies)

theorem sock_bind_reports_port_witness:
  "fst (sock_bind_reuse 8080 False False (sample_socket, boot [sample_failed])) =
     Fail (Thrown (Runtime_error (error_msg 8080 [])))"
  using sock_bind_reports_port [of sample_socket "boot [sample_failed]" sample_failed "[]" 8080]
  by (simp add: sample_replies)

theorem sock_bind6_family_witness:
  "map fst (w_trace (snd (snd (sock_bind6 8080 False True (socket_default,
      boot [sample_recv, sample_done, sample_done]))))) =
     [Socket AF_INET SOCK_STREAM IPPROTO_TCP, Setsockopt 2 IPV6_V6ONLY (Int_val 1),
      Bind 2 (make_addr_v6 8080)]"
  using sock_bind6_family [of socket_default "boot [sample_recv, sample_done, sample_done]"
      sample_recv sample_done sample_done 8080 True]
  by (simp add: sample_replies socket_default_def INVALID_SOCKET_def)

theorem set_blocking_flags_witness:
  "\<exists>v w'. set_blocking False (sample_socket, boot [sample_recv, sample_done]) =
      (Ret (), (sample_socket\<lparr>sk_blocking := False\<rparr>, w')) \<and>
     w_trace w' = [(Fcntl 5 F_GETFL, sample_recv), (Fcntl 5 (F_SETFL v), sample_done)] \<and>
     bit v 11 \<and> bit v 1"
proof -
  obtain v w' where "set_blocking False (sample_socket, boot [sample_recv, sample_done]) =
      (Ret (), (sample_socket\<lparr>sk_blocking := False\<rparr>, w'))"
    "w_trace w' = [(Fcntl 5 F_GETFL, sample_recv), (Fcntl 5 (F_SETFL v), sample_done)]"
    "\<forall>k. bit v k = (if k = 11 then True else bit (2::int) k)"
    using set_blocking_flags [of "boot [sample_recv, sample_done]" sample_recv sample_done "[]" False
        sample_socket]
    by (auto simp: sample_replies)
  moreover have "bit (2::int) 1" by (simp add: bit_iff_odd)
  ultimately show ?thesis by auto
qed

end
