(* ===== verification/Std_Map.thy ===== *)
theory Std_Map
  imports Prelude
begin

section \<open>Ordered maps\<close>

text \<open>
  \<^verbatim>\<open>std::map\<close> as the program uses it: a list of bindings in ascending order of the
  keys, which is the order in which an iterator visits them. The locale \<open>ordered_map\<close> is the
  interface that the components rely on, with the lemmas about sequences of updates; the lists
  are its implementation.
\<close>

type_synonym ('k, 'v) smap = "('k \<times> 'v) list"

definition map_find :: "'k \<Rightarrow> ('k, 'v) smap \<Rightarrow> 'v option" where
  "map_find k m = map_of m k"

text \<open>\<^verbatim>\<open>m[k] = v\<close>\<close>

fun map_put :: "'k::linorder \<Rightarrow> 'v \<Rightarrow> ('k, 'v) smap \<Rightarrow> ('k, 'v) smap" where
  "map_put k v [] = [(k, v)]"
| "map_put k v ((k', v') # m) =
     (if k < k' then (k, v) # (k', v') # m
      else if k = k' then (k, v) # m
      else (k', v') # map_put k v m)"

fun map_erase :: "'k \<Rightarrow> ('k, 'v) smap \<Rightarrow> ('k, 'v) smap" where
  "map_erase k [] = []"
| "map_erase k ((k', v') # m) = (if k = k' then m else (k', v') # map_erase k m)"

definition keys :: "('k, 'v) smap \<Rightarrow> 'k set" where
  "keys m = set (map fst m)"

definition map_ok :: "('k::linorder, 'v) smap \<Rightarrow> bool" where
  "map_ok m \<longleftrightarrow> sorted_wrt (<) (map fst m)"

lemma keys_simps [simp]: "keys [] = {}" "keys ((k, v) # m) = insert k (keys m)"
  by (simp_all add: keys_def)

lemma map_ok_simps [simp]:
  "map_ok []" "map_ok ((k, v) # m) \<longleftrightarrow> (\<forall>k'\<in>keys m. k < k') \<and> map_ok m"
  by (simp_all add: map_ok_def keys_def)

lemma map_find_simps [simp]:
  "map_find k [] = None" "map_find k ((k', v) # m) = (if k = k' then Some v else map_find k m)"
  by (simp_all add: map_find_def)

lemma keys_put [simp]: "keys (map_put k v m) = insert k (keys m)"
  by (induction k v m rule: map_put.induct) auto

lemma map_put_nonempty [simp]: "map_put k v m \<noteq> []"
  using keys_put [of k v m] by (metis insert_not_empty keys_simps(1))

lemma map_ok_put: "map_ok m \<Longrightarrow> map_ok (map_put k v m)"
  by (induction k v m rule: map_put.induct) auto

lemma keys_erase: "keys (map_erase k m) \<subseteq> keys m"
  by (induction k m rule: map_erase.induct) auto

lemma map_ok_erase: "map_ok m \<Longrightarrow> map_ok (map_erase k m)"
proof (induction k m rule: map_erase.induct)
  case (2 k k' v' m)
  then show ?case using keys_erase [of k m] by auto
qed simp

lemma map_find_None_iff: "map_find k m = None \<longleftrightarrow> k \<notin> keys m"
  by (simp add: map_find_def map_of_eq_None_iff keys_def)

lemma map_find_put: "map_ok m \<Longrightarrow> map_find k' (map_put k v m) = (if k' = k then Some v else map_find k' m)"
  by (induction k v m rule: map_put.induct) auto

lemma map_find_erase:
  "map_ok m \<Longrightarrow> map_find k' (map_erase k m) = (if k' = k then None else map_find k' m)"
proof (induction k m rule: map_erase.induct)
  case (2 k k'' v' m)
  then show ?case by (auto simp: map_find_None_iff)
qed simp

lemma map_empty_iff: "m = [] \<longleftrightarrow> (\<forall>k. map_find k m = None)"
proof (cases m)
  case (Cons p m')
  then have "map_find (fst p) m = Some (snd p)" by (cases p) simp
  then show ?thesis using Cons by force
qed simp

subsection \<open>The interface\<close>

datatype ('k, 'v) map_op = Insert 'k 'v | Erase 'k

locale ordered_map =
  fixes find :: "'k \<Rightarrow> 'm \<Rightarrow> 'v option"
    and put :: "'k \<Rightarrow> 'v \<Rightarrow> 'm \<Rightarrow> 'm"
    and erase :: "'k \<Rightarrow> 'm \<Rightarrow> 'm"
    and void :: 'm
    and ok :: "'m \<Rightarrow> bool"
  assumes ok_void: "ok void"
    and ok_put: "ok m \<Longrightarrow> ok (put k v m)"
    and ok_erase: "ok m \<Longrightarrow> ok (erase k m)"
    and find_void: "find k void = None"
    and find_put: "ok m \<Longrightarrow> find k' (put k v m) = (if k' = k then Some v else find k' m)"
    and find_erase: "ok m \<Longrightarrow> find k' (erase k m) = (if k' = k then None else find k' m)"
begin

fun apply_op :: "('k, 'v) map_op \<Rightarrow> 'm \<Rightarrow> 'm" where
  "apply_op (Insert k v) m = put k v m"
| "apply_op (Erase k) m = erase k m"

fun effect :: "'k \<Rightarrow> ('k, 'v) map_op list \<Rightarrow> 'v option \<Rightarrow> 'v option" where
  "effect k [] x = x"
| "effect k (Insert k' v # ops) x = effect k ops (if k = k' then Some v else x)"
| "effect k (Erase k' # ops) x = effect k ops (if k = k' then None else x)"

lemma ok_op: "ok m \<Longrightarrow> ok (apply_op x m)"
  by (cases x) (auto intro: ok_put ok_erase)

lemma ok_ops: "ok m \<Longrightarrow> ok (fold apply_op ops m)"
  by (induction ops arbitrary: m) (auto intro: ok_op)

text \<open>The last operation on a key decides what a lookup finds.\<close>

lemma last_op_decides: "ok m \<Longrightarrow> find k (fold apply_op ops m) = effect k ops (find k m)"
proof (induction ops arbitrary: m)
  case (Cons x ops)
  then show ?case by (cases x) (auto simp: ok_put ok_erase find_put find_erase)
qed simp

lemma insert_erase_other:
  "ok m \<Longrightarrow> k \<noteq> k' \<Longrightarrow> find k (erase k' (put k v m)) = Some v"
  by (simp add: find_erase find_put ok_put)

end

interpretation sm: ordered_map map_find map_put map_erase "[]" map_ok
  by unfold_locales (auto simp: map_ok_put map_ok_erase map_find_put map_find_erase)

end
