(* ===== verification/Poll_Set.thy ===== *)
theory Poll_Set
  imports Server_Socket Std_Map
begin

section \<open>PollSet\<close>

text \<open>
  Models \<^verbatim>\<open>src/epoll_server/poll_set.cpp\<close> and \<^verbatim>\<open>poll_set.h\<close>. The class keeps
  a \<^verbatim>\<open>std::map<void*, ServerSocket>\<close> that it indexes with a
  \<^verbatim>\<open>ServerSocket\<close>. The repository has no conversion from a socket to
  \<^verbatim>\<open>void*\<close>, so the key of a socket is an argument \<open>key\<close> of the operations; the
  address of the argument, which \<open>add\<close> registers as user data with the kernel, is an argument
  \<open>addr\<close>.

  \<^verbatim>\<open>ServerSocket\<close> has the copying operations the compiler generates and a destructor
  that closes the descriptor. A copy that is stored in a map therefore closes the descriptor when
  it is erased, and so do the keys of the map that \<open>poll\<close> returns when that map is destroyed.
\<close>

subsection \<open>Sockets as keys\<close>

text \<open>The comparison operators of \<^verbatim>\<open>ServerSocket\<close> see the descriptor only. A
  \<open>sock_id\<close> is a socket as they see it.\<close>

datatype sock_id = Sock_Id (id_fd: int)

instantiation sock_id :: linorder
begin

definition less_eq_sock_id :: "sock_id \<Rightarrow> sock_id \<Rightarrow> bool" where
  "less_eq_sock_id a b \<longleftrightarrow> id_fd a \<le> id_fd b"

definition less_sock_id :: "sock_id \<Rightarrow> sock_id \<Rightarrow> bool" where
  "less_sock_id a b \<longleftrightarrow> id_fd a < id_fd b"

instance
  by standard (auto simp: less_eq_sock_id_def less_sock_id_def sock_id.expand)

end

definition sock_key :: "socket \<Rightarrow> sock_id" where
  "sock_key s = Sock_Id (sk_fd s)"

definition sock_equal :: "socket \<Rightarrow> socket \<Rightarrow> bool" where
  "sock_equal a b \<longleftrightarrow> sk_fd a = sk_fd b"

definition sock_unequal :: "socket \<Rightarrow> socket \<Rightarrow> bool" where
  "sock_unequal a b \<longleftrightarrow> sk_fd a \<noteq> sk_fd b"

definition sock_less :: "socket \<Rightarrow> socket \<Rightarrow> bool" where
  "sock_less a b \<longleftrightarrow> sk_fd a < sk_fd b"

definition sock_less_eq :: "socket \<Rightarrow> socket \<Rightarrow> bool" where
  "sock_less_eq a b \<longleftrightarrow> sk_fd a \<le> sk_fd b"

definition sock_greater :: "socket \<Rightarrow> socket \<Rightarrow> bool" where
  "sock_greater a b \<longleftrightarrow> sk_fd a > sk_fd b"

definition sock_greater_eq :: "socket \<Rightarrow> socket \<Rightarrow> bool" where
  "sock_greater_eq a b \<longleftrightarrow> sk_fd a \<ge> sk_fd b"

lemma sock_key_order: "sock_less a b \<longleftrightarrow> sock_key a < sock_key b" "sock_equal a b \<longleftrightarrow> sock_key a = sock_key b"
  by (simp_all add: sock_less_def sock_equal_def sock_key_def less_sock_id_def)

subsection \<open>State\<close>

record pollset =
  ps_mutex :: mutex
  ps_epollfd :: int
  ps_map :: "(int, socket) smap"

definition POLL_READ :: int where "POLL_READ = 1"
definition POLL_WRITE :: int where "POLL_WRITE = 2"
definition POLL_ERROR :: int where "POLL_ERROR = 4"

definition EPOLLIN :: nat where "EPOLLIN = 1"
definition EPOLLOUT :: nat where "EPOLLOUT = 4"
definition EPOLLERR :: nat where "EPOLLERR = 8"

lemmas poll_flags = POLL_READ_def POLL_WRITE_def POLL_ERROR_def EPOLLIN_def EPOLLOUT_def EPOLLERR_def

text \<open>The size of \<^verbatim>\<open>_events\<close>.\<close>

definition events_size :: nat where
  "events_size = 1024"

type_synonym 'a poll_prog = "(pollset \<times> world, 'a) prog"

definition poll_world :: "(world, 'a) prog \<Rightarrow> 'a poll_prog" where
  "poll_world m = zoom snd (\<lambda>w s. (fst s, w)) m"

definition poll_modify :: "(pollset \<Rightarrow> pollset) \<Rightarrow> unit poll_prog" where
  "poll_modify f = modify (\<lambda>s. (f (fst s), snd s))"

definition poll_locked :: "'a poll_prog \<Rightarrow> 'a poll_prog" where
  "poll_locked body = with_lock (\<lambda>s. ps_mutex (fst s)) (\<lambda>m s. ((fst s)\<lparr>ps_mutex := m\<rparr>, snd s)) body"

definition poll_error :: "'a poll_prog" where
  "poll_error = bnd (gets (\<lambda>s. w_errno (snd s))) (\<lambda>e. throw_runtime (error_msg e []))"

text \<open>The destructor of a stored copy of a socket, and of several in order.\<close>

definition drop_socket :: "socket \<Rightarrow> (world, unit) prog" where
  "drop_socket s = (if sk_fd s = INVALID_SOCKET then ret ()
     else bnd (sys (Close (sk_fd s))) (\<lambda>_. ret ()))"

primrec drop_sockets :: "socket list \<Rightarrow> (world, unit) prog" where
  "drop_sockets [] = ret ()"
| "drop_sockets (s # ss) = thn (drop_socket s) (drop_sockets ss)"

subsection \<open>Operations\<close>

definition create_epollfd :: "unit poll_prog" where
  "create_epollfd =
     bnd (poll_world (sys (Epoll_create 1))) (\<lambda>r.
     thn (poll_modify (\<lambda>p. p\<lparr>ps_epollfd := rp_rc r\<rparr>))
         (if rp_rc r < 0 then bnd (poll_world (gets w_errno)) (\<lambda>e. throw_runtime (error_msg e [])) else ret ()))"

definition destroy_epollfd :: "unit poll_prog" where
  "destroy_epollfd = cond (\<lambda>s. ps_epollfd (fst s) \<ge> 0)
     (bnd (gets (\<lambda>s. ps_epollfd (fst s))) (\<lambda>ep.
      thn (bnd (poll_world (sys (Close ep))) (\<lambda>_. ret ()))
          (poll_modify (\<lambda>p. p\<lparr>ps_epollfd := -1\<rparr>))))
     (ret ())"

text \<open>The constructor; the object is there only when it returns.\<close>

definition pollset_new :: "(world, pollset) prog" where
  "pollset_new = (\<lambda>w. case create_epollfd (\<lparr>ps_mutex = new_mutex Std_mutex, ps_epollfd = -1, ps_map = []\<rparr>, w) of
       (Ret _, ps, w') \<Rightarrow> (Ret ps, w')
     | (Fail e, ps, w') \<Rightarrow> (Fail e, w'))"

definition poll_destroy :: "unit poll_prog" where
  "poll_destroy =
     thn destroy_epollfd
         (bnd (gets (\<lambda>s. map snd (ps_map (fst s)))) (\<lambda>ss. poll_world (drop_sockets ss)))"

definition epoll_events :: "int \<Rightarrow> nat" where
  "epoll_events mode =
     or (or (if and mode POLL_READ \<noteq> 0 then EPOLLIN else 0)
            (if and mode POLL_WRITE \<noteq> 0 then EPOLLOUT else 0))
        (if and mode POLL_ERROR \<noteq> 0 then EPOLLERR else 0)"

definition poll_ctl :: "epoll_op \<Rightarrow> int \<Rightarrow> nat \<Rightarrow> int \<Rightarrow> reply poll_prog" where
  "poll_ctl op fd events data =
     bnd (gets (\<lambda>s. ps_epollfd (fst s))) (\<lambda>ep. poll_world (sys (Epoll_ctl ep op fd events data)))"

definition poll_update :: "int \<Rightarrow> socket \<Rightarrow> int \<Rightarrow> unit poll_prog" where
  "poll_update addr s mode =
     bnd (poll_ctl EPOLL_CTL_MOD (sk_fd s) (epoll_events mode) addr) (\<lambda>r.
       if rp_rc r \<noteq> 0 then poll_error else ret ())"

definition poll_add :: "int \<Rightarrow> int \<Rightarrow> socket \<Rightarrow> int \<Rightarrow> unit poll_prog" where
  "poll_add key addr s mode = poll_locked
     (thn (bnd (poll_ctl EPOLL_CTL_ADD (sk_fd s) (epoll_events mode) addr) (\<lambda>r.
             if rp_rc r \<noteq> 0
             then bnd (gets (\<lambda>s. w_errno (snd s))) (\<lambda>e.
                    if e = EEXIST then poll_update addr s mode else poll_error)
             else ret ()))
          (cond (\<lambda>p. map_find key (ps_map (fst p)) = None)
             (poll_modify (\<lambda>p. p\<lparr>ps_map := map_put key s (ps_map p)\<rparr>))
             (ret ())))"

definition poll_remove :: "int \<Rightarrow> socket \<Rightarrow> unit poll_prog" where
  "poll_remove key s = poll_locked
     (bnd (poll_ctl EPOLL_CTL_DEL (sk_fd s) 0 0) (\<lambda>r.
        thn (if rp_rc r \<noteq> 0 then poll_error else ret ())
        (bnd (gets (\<lambda>p. map_find key (ps_map (fst p)))) (\<lambda>found.
          case found of
            None \<Rightarrow> ret ()
          | Some stored \<Rightarrow>
              thn (poll_modify (\<lambda>p. p\<lparr>ps_map := map_erase key (ps_map p)\<rparr>))
                  (poll_world (drop_socket stored))))))"

definition poll_has :: "int \<Rightarrow> bool poll_prog" where
  "poll_has key = poll_locked (gets (\<lambda>s. map_find key (ps_map (fst s)) \<noteq> None))"

definition poll_empty :: "bool poll_prog" where
  "poll_empty = poll_locked (gets (\<lambda>s. ps_map (fst s) = []))"

definition poll_clear :: "unit poll_prog" where
  "poll_clear = poll_locked
     (bnd (gets (\<lambda>s. map snd (ps_map (fst s)))) (\<lambda>ss.
      thn (poll_modify (\<lambda>p. p\<lparr>ps_map := []\<rparr>))
     (thn (poll_world (drop_sockets ss))
     (bnd (gets (\<lambda>s. ps_epollfd (fst s))) (\<lambda>ep.
      bnd (poll_world (sys (Close ep))) (\<lambda>_.
      bnd (poll_world (sys (Epoll_create 1))) (\<lambda>r.
      thn (poll_modify (\<lambda>p. p\<lparr>ps_epollfd := rp_rc r\<rparr>))
          (if rp_rc r < 0 then poll_error else ret ()))))))))"

text \<open>\<open>result[s] |= bits\<close> on a \<^verbatim>\<open>std::map<ServerSocket, int>\<close>: a new key is a
  copy of \<open>s\<close>.\<close>

type_synonym mode_map = "(sock_id, socket \<times> int) smap"

definition result_or :: "socket \<Rightarrow> int \<Rightarrow> mode_map \<Rightarrow> mode_map" where
  "result_or s bits res = (case map_find (sock_key s) res of
       None \<Rightarrow> map_put (sock_key s) (s, or 0 bits) res
     | Some (s', m) \<Rightarrow> map_put (sock_key s) (s', or m bits) res)"

definition collect_event :: "(int, socket) smap \<Rightarrow> nat \<times> int \<Rightarrow> mode_map \<Rightarrow> mode_map" where
  "collect_event socks ev res = (case map_find (snd ev) socks of
       None \<Rightarrow> res
     | Some s \<Rightarrow>
         (let res1 = (if and (fst ev) EPOLLIN \<noteq> 0 then result_or s POLL_READ res else res);
              res2 = (if and (fst ev) EPOLLOUT \<noteq> 0 then result_or s POLL_WRITE res1 else res1)
          in if and (fst ev) EPOLLERR \<noteq> 0 then result_or s POLL_ERROR res2 else res2))"

definition poll_collect :: "(int, socket) smap \<Rightarrow> (nat \<times> int) list \<Rightarrow> mode_map" where
  "poll_collect socks evs = fold (collect_event socks) evs []"

text \<open>\<open>poll\<close>; the argument is not used.\<close>

definition poll_poll :: "int \<Rightarrow> mode_map poll_prog" where
  "poll_poll timeout =
     bnd poll_empty (\<lambda>none.
       if none then ret []
       else bnd (gets (\<lambda>s. ps_epollfd (fst s))) (\<lambda>ep.
            bnd (poll_world (sys_retry (\<lambda>rc. rc < 0) (Epoll_wait ep events_size 0))) (\<lambda>r.
            thn (if rp_rc r < 0 then poll_error else ret ())
                (poll_locked (gets (\<lambda>s.
                   poll_collect (ps_map (fst s)) (take (nat (rp_rc r)) (events_of (rp_data r)))))))))"

subsection \<open>What poll reports\<close>

text \<open>The mode bits of an event, and those reported for one socket, in the order of the events.\<close>

definition event_mode :: "nat \<Rightarrow> int" where
  "event_mode ev =
     or (or (if and ev EPOLLIN \<noteq> 0 then POLL_READ else 0)
            (if and ev EPOLLOUT \<noteq> 0 then POLL_WRITE else 0))
        (if and ev EPOLLERR \<noteq> 0 then POLL_ERROR else 0)"

definition concerns :: "(int, socket) smap \<Rightarrow> sock_id \<Rightarrow> nat \<times> int \<Rightarrow> bool" where
  "concerns socks k ev \<longleftrightarrow> event_mode (fst ev) \<noteq> 0 \<and>
     (case map_find (snd ev) socks of Some s \<Rightarrow> sock_key s = k | None \<Rightarrow> False)"

definition reported :: "(int, socket) smap \<Rightarrow> sock_id \<Rightarrow> (nat \<times> int) list \<Rightarrow> int list" where
  "reported socks k evs = map (event_mode \<circ> fst) (filter (concerns socks k) evs)"

definition union_modes :: "int option \<Rightarrow> int list \<Rightarrow> int option" where
  "union_modes start ms = fold (\<lambda>m acc. Some (or (case acc of None \<Rightarrow> 0 | Some x \<Rightarrow> x) m)) ms start"

definition mode_in :: "mode_map \<Rightarrow> sock_id \<Rightarrow> int option" where
  "mode_in res k = map_option snd (map_find k res)"

lemma result_or_ok: "map_ok res \<Longrightarrow> map_ok (result_or s b res)"
  by (auto simp: result_or_def intro: map_ok_put split: option.split)

lemma mode_in_or:
  "map_ok res \<Longrightarrow> mode_in (result_or s b res) k =
     (if k = sock_key s then Some (or (case mode_in res k of None \<Rightarrow> 0 | Some m \<Rightarrow> m) b)
      else mode_in res k)"
  by (auto simp: result_or_def mode_in_def map_find_put split: option.split)

lemma collect_event_ok: "map_ok res \<Longrightarrow> map_ok (collect_event socks ev res)"
  by (auto simp: collect_event_def Let_def result_or_ok split: option.split)

lemma or_numerals: "or (or m (1::int)) 2 = or m 3" "or (or m (1::int)) 4 = or m 5"
  "or (or m (2::int)) 4 = or m 6" "or (or m (3::int)) 4 = or m 7" for m :: int
  by (simp_all add: or.assoc)

lemma collect_event_mode:
  assumes "map_ok res"
  shows "mode_in (collect_event socks ev res) k =
     (if concerns socks k ev then union_modes (mode_in res k) [event_mode (fst ev)] else mode_in res k)"
proof (cases "map_find (snd ev) socks")
  case None
  then show ?thesis by (simp add: collect_event_def concerns_def)
next
  case (Some s)
  have "mode_in (collect_event socks ev res) k =
      (if k = sock_key s \<and> event_mode (fst ev) \<noteq> 0
       then Some (or (case mode_in res k of None \<Rightarrow> 0 | Some m \<Rightarrow> m) (event_mode (fst ev)))
       else mode_in res k)"
    unfolding collect_event_def event_mode_def Some option.case Let_def poll_flags
    by (cases "and (fst ev) 1 = 0"; cases "and (fst ev) 4 = 0"; cases "and (fst ev) 8 = 0")
      (simp_all add: mode_in_or result_or_ok assms or_numerals)
  then show ?thesis using Some by (auto simp: concerns_def union_modes_def)
qed

lemma poll_collect_mode: "mode_in (poll_collect socks evs) k = union_modes None (reported socks k evs)"
proof -
  have "map_ok res \<Longrightarrow> mode_in (fold (collect_event socks) evs res) k =
      union_modes (mode_in res k) (reported socks k evs)" for res
  proof (induction evs arbitrary: res)
    case Nil
    then show ?case by (simp add: reported_def union_modes_def)
  next
    case (Cons ev evs)
    then show ?case
      by (simp add: collect_event_ok collect_event_mode reported_def union_modes_def)
  qed
  from this [of "[]"] show ?thesis by (simp add: poll_collect_def mode_in_def)
qed

lemma poll_collect_ok: "map_ok (poll_collect socks evs)"
proof -
  have "map_ok res \<Longrightarrow> map_ok (fold (collect_event socks) evs res)" for res
    by (induction evs arbitrary: res) (auto intro: collect_event_ok)
  then show ?thesis by (simp add: poll_collect_def)
qed

lemma poll_locked_free:
  assumes "can_lock (ps_mutex p)"
  shows "poll_locked m (p, w) = on_exit m (\<lambda>s. ((fst s)\<lparr>ps_mutex := unlocked (ps_mutex (fst s))\<rparr>, snd s))
     (p\<lparr>ps_mutex := locked (ps_mutex p)\<rparr>, w)"
  using assms by (simp add: poll_locked_def with_lock_free)

lemma poll_locked_gets [simp]:
  "can_lock (ps_mutex p) \<Longrightarrow> poll_locked (gets f) (p, w) = (Ret (f (p\<lparr>ps_mutex := locked (ps_mutex p)\<rparr>, w)), (p, w))"
  by (simp add: poll_locked_free on_exit_def)

text \<open>C19. \<open>poll\<close> repeats an interrupted wait, ignores its timeout (the wait returns at once),
  and reports for every registered socket the union of the mode bits of its events, and nothing
  for a socket without an event; events whose user data is no key of the map are dropped.\<close>

theorem poll_reports:
  assumes "can_lock (ps_mutex p)" "ps_map p \<noteq> []" "w_script w = is @ r # rs"
    and "\<forall>i\<in>set is. interrupted i" "reply_ok (Epoll_wait (ps_epollfd p) events_size 0) r" "0 \<le> rp_rc r"
  shows "\<exists>res. poll_poll timeout (p, w) =
      (Ret res, (p, after_retries (Epoll_wait (ps_epollfd p) events_size 0) is r w)) \<and>
     map_ok res \<and>
     (\<forall>k. mode_in res k = union_modes None (reported (ps_map p) k (events_of (rp_data r))))"
proof -
  let ?c = "Epoll_wait (ps_epollfd p) events_size 0"
  let ?w = "after_retries ?c is r w"
  let ?res = "poll_collect (ps_map p) (events_of (rp_data r))"
  have "sys_retry (\<lambda>rc. rc < 0) ?c w = (Ret r, ?w)"
    by (rule sys_retry_interrupted [OF assms(3,4,5)]) (use assms(6) in auto)
  moreover have "take (nat (rp_rc r)) (events_of (rp_data r)) = events_of (rp_data r)"
    using assms(5,6) by auto
  ultimately have "poll_poll timeout (p, w) = (Ret ?res, (p, ?w))"
    using assms(1,2,6)
    by (simp add: poll_poll_def poll_empty_def bnd_def thn_def poll_world_def zoom_def)
  then show ?thesis using poll_collect_ok poll_collect_mode by blast
qed

subsection \<open>What the set contains\<close>

lemma poll_ctl_apply [prog_simps]:
  "poll_ctl op fd ev d (p, w) = (case sys (Epoll_ctl (ps_epollfd p) op fd ev d) w of (r, w') \<Rightarrow> (r, (p, w')))"
  by (simp add: poll_ctl_def bnd_def poll_world_def zoom_def)

lemma poll_world_apply [prog_simps]:
  "poll_world m (p, w) = (case m w of (r, w') \<Rightarrow> (r, (p, w')))"
  by (simp add: poll_world_def zoom_def)

lemma poll_modify_apply [prog_simps]: "poll_modify f (p, w) = (Ret (), (f p, w))"
  by (simp add: poll_modify_def)

lemma poll_error_apply [prog_simps]:
  "poll_error (p, w) = (Fail (Thrown (Runtime_error (error_msg (w_errno w) []))), (p, w))"
  by (simp add: poll_error_def bnd_def throw_runtime_def)

text \<open>\<open>add\<close> and \<open>remove\<close> with the replies they need.\<close>

definition remember :: "int \<Rightarrow> socket \<Rightarrow> pollset \<Rightarrow> pollset" where
  "remember key s p = (if map_find key (ps_map p) = None
     then p\<lparr>ps_map := map_put key s (ps_map p)\<rparr> else p)"

lemma unlock_same [simp]: "p\<lparr>ps_mutex := ps_mutex p\<rparr> = p"
  by simp

text \<open>\<open>add\<close> registers the descriptor with the mask of its mode and remembers a copy of the
  socket. If the kernel says that the descriptor is registered already, it changes the mask
  instead; any other error is an exception that leaves the set as it was.\<close>

theorem poll_add_result:
  assumes "can_lock (ps_mutex p)" "w_script w = r # r2 # rs" "status_ok r" "status_ok r2"
  shows "poll_add key addr s mode (p, w) =
     (let add = Epoll_ctl (ps_epollfd p) EPOLL_CTL_ADD (sk_fd s) (epoll_events mode) addr;
          md = Epoll_ctl (ps_epollfd p) EPOLL_CTL_MOD (sk_fd s) (epoll_events mode) addr;
          w1 = answered add r w; w2 = answered md r2 w1
      in if rp_rc r = 0 then (Ret (), (remember key s p, w1))
         else if rp_err r = EEXIST
         then (if rp_rc r2 = 0 then (Ret (), (remember key s p, w2))
               else (Fail (Thrown (Runtime_error (error_msg (rp_err r2) []))), (p, w2)))
         else (Fail (Thrown (Runtime_error (error_msg (rp_err r) []))), (p, w1)))"
proof -
  let ?add = "Epoll_ctl (ps_epollfd p) EPOLL_CTL_ADD (sk_fd s) (epoll_events mode) addr"
  let ?md = "Epoll_ctl (ps_epollfd p) EPOLL_CTL_MOD (sk_fd s) (epoll_events mode) addr"
  have s1: "sys ?add w = (Ret r, answered ?add r w)"
    by (rule sys_reply [OF assms(2)]) (use assms(3) in simp)
  have s2: "sys ?md (answered ?add r w) = (Ret r2, answered ?md r2 (answered ?add r w))"
    by (rule sys_reply [of _ r2 rs]) (use assms in simp_all)
  show ?thesis
    using assms(3,4)
    by (auto simp: poll_add_def poll_locked_free [OF assms(1)] on_exit_def thn_def bnd_def
        poll_ctl_apply s1 s2 poll_error_apply poll_update_def poll_modify_apply remember_def
        status_ok_def Let_def)
qed

text \<open>\<open>remove\<close> of a registered socket also closes its descriptor: the copy that the set holds
  is destroyed.\<close>

theorem poll_remove_closes:
  assumes "can_lock (ps_mutex p)" "w_script w = r # c # rs" "rp_rc r = 0" "status_ok c"
    and "map_find key (ps_map p) = Some stored" "sk_fd stored \<noteq> -1"
  shows "poll_remove key s (p, w) =
     (let del = Epoll_ctl (ps_epollfd p) EPOLL_CTL_DEL (sk_fd s) 0 0
      in (Ret (), (p\<lparr>ps_map := map_erase key (ps_map p)\<rparr>,
            answered (Close (sk_fd stored)) c (answered del r w))))"
proof -
  let ?del = "Epoll_ctl (ps_epollfd p) EPOLL_CTL_DEL (sk_fd s) 0 0"
  have s1: "sys ?del w = (Ret r, answered ?del r w)"
    by (rule sys_reply [OF assms(2)]) (use assms(3) in \<open>simp add: status_ok_def\<close>)
  have s2: "sys (Close (sk_fd stored)) (answered ?del r w) =
      (Ret c, answered (Close (sk_fd stored)) c (answered ?del r w))"
    by (rule sys_reply [of _ c rs]) (use assms in simp_all)
  show ?thesis
    using assms(3,5,6) s1 s2
    by (simp add: poll_remove_def poll_locked_free [OF assms(1)] on_exit_def thn_def bnd_def
        poll_ctl_apply poll_modify_apply poll_world_apply drop_socket_def INVALID_SOCKET_def)
qed

text \<open>Sequences of operations, and what they make of a key.\<close>

datatype poll_op = P_add int int socket int | P_remove int socket | P_update int socket int | P_clear

primrec poll_exec :: "poll_op \<Rightarrow> unit poll_prog" where
  "poll_exec (P_add key addr s mode) = poll_add key addr s mode"
| "poll_exec (P_remove key s) = poll_remove key s"
| "poll_exec (P_update addr s mode) = poll_update addr s mode"
| "poll_exec P_clear = poll_clear"

fun poll_run :: "poll_op list \<Rightarrow> pollset \<times> world \<Rightarrow> (poll_op \<times> unit outcome) list \<times> (pollset \<times> world)" where
  "poll_run [] s = ([], s)"
| "poll_run (x # xs) s =
     (let (out, t) = poll_exec x s; (log, u) = poll_run xs t in ((x, out) # log, u))"

fun member_step :: "int \<Rightarrow> poll_op \<times> unit outcome \<Rightarrow> bool \<Rightarrow> bool" where
  "member_step k (P_add key addr s mode, Ret _) b \<longleftrightarrow> k = key \<or> b"
| "member_step k (P_remove key s, Ret _) b \<longleftrightarrow> k \<noteq> key \<and> b"
| "member_step k (P_clear, _) b \<longleftrightarrow> False"
| "member_step k _ b \<longleftrightarrow> b"

fun finished :: "unit outcome \<Rightarrow> bool" where
  "finished (Ret _) \<longleftrightarrow> True"
| "finished (Fail (Thrown _)) \<longleftrightarrow> True"
| "finished _ \<longleftrightarrow> False"

lemma drop_socket_outcome: "drop_socket s w = (out, w') \<Longrightarrow> out = Ret () \<or> out = Fail Pending"
  by (rule sys_cases [of w "Close (sk_fd s)"]) (auto simp: drop_socket_def bnd_def split: if_splits)

lemma drop_sockets_outcome: "drop_sockets ss w = (out, w') \<Longrightarrow> out = Ret () \<or> out = Fail Pending"
proof (induction ss arbitrary: w)
  case (Cons s ss)
  obtain o1 v where "drop_socket s w = (o1, v)" by (rule prod.exhaust)
  then show ?case using Cons drop_socket_outcome [of s w o1 v] by (auto simp: thn_def)
qed simp

definition poll_step_ok :: "pollset \<Rightarrow> poll_op \<times> unit outcome \<Rightarrow> pollset \<Rightarrow> bool" where
  "poll_step_ok p x p' \<longleftrightarrow> ps_mutex p' = ps_mutex p \<and> map_ok (ps_map p') \<and>
     (\<forall>k. (map_find k (ps_map p') \<noteq> None) = member_step k x (map_find k (ps_map p) \<noteq> None))"

lemma poll_update_step:
  assumes "map_ok (ps_map p)" "poll_update addr s mode (p, w) = (out, (p', w'))"
  shows "p' = p" "finished out \<or> out = Fail Pending"
  by (rule sys_cases [of w "Epoll_ctl (ps_epollfd p) EPOLL_CTL_MOD (sk_fd s) (epoll_events mode) addr"];
      use assms(2) in \<open>auto simp: poll_update_def bnd_def poll_ctl_apply poll_error_apply split: if_splits\<close>)+

lemma poll_add_step:
  assumes lk: "can_lock (ps_mutex p)" and m: "map_ok (ps_map p)"
    and run: "poll_add key addr s mode (p, w) = (out, (p', w'))" and fin: "finished out"
  shows "poll_step_ok p (P_add key addr s mode, out) p'"
proof -
  let ?p = "p\<lparr>ps_mutex := locked (ps_mutex p)\<rparr>"
  let ?c = "Epoll_ctl (ps_epollfd p) EPOLL_CTL_ADD (sk_fd s) (epoll_events mode) addr"
  have ok: "poll_step_ok p (P_add key addr s mode, Ret ()) (remember key s p)"
    "poll_step_ok p (P_add key addr s mode, Fail e) p" for e
    using m by (auto simp: poll_step_ok_def remember_def sm.ok_put sm.find_put)
  show ?thesis
  proof (cases ?c w rule: sys_cases [case_names reply stuck])
    case stuck
    then show ?thesis
      using run fin by (auto simp: poll_add_def poll_locked_free [OF lk] on_exit_def thn_def bnd_def poll_ctl_apply)
  next
    case (reply r rs)
    let ?w = "answered ?c r w"
    obtain uo q v where u: "poll_update addr s mode (?p, ?w) = (uo, (q, v))" by (rule prod_cases3)
    have q: "q = ?p" "finished uo \<or> uo = Fail Pending"
      using poll_update_step [OF _ u] m by auto
    show ?thesis
      using run fin reply(3) u q ok
      by (cases uo rule: finished.cases; cases "rp_rc r = 0"; cases "rp_err r = EEXIST";
          cases "map_find key (ps_map p)")
        (auto simp: poll_add_def poll_locked_free [OF lk] on_exit_def thn_def bnd_def poll_ctl_apply
          poll_error_apply poll_modify_apply remember_def reply_ok.simps status_ok_def split: if_splits)
  qed
qed

lemma poll_remove_step:
  assumes lk: "can_lock (ps_mutex p)" and m: "map_ok (ps_map p)"
    and run: "poll_remove key s (p, w) = (out, (p', w'))" and fin: "finished out"
  shows "poll_step_ok p (P_remove key s, out) p'"
proof -
  let ?c = "Epoll_ctl (ps_epollfd p) EPOLL_CTL_DEL (sk_fd s) 0 0"
  have ok: "poll_step_ok p (P_remove key s, Ret ()) (p\<lparr>ps_map := map_erase key (ps_map p)\<rparr>)"
    "poll_step_ok p (P_remove key s, Fail e) p" for e
    using m by (auto simp: poll_step_ok_def sm.ok_erase sm.find_erase)
  have gone: "map_find key (ps_map p) = None \<Longrightarrow> poll_step_ok p (P_remove key s, Ret ()) p"
    using m by (auto simp: poll_step_ok_def)
  show ?thesis
  proof (cases ?c w rule: sys_cases [case_names reply stuck])
    case stuck
    then show ?thesis
      using run fin by (auto simp: poll_remove_def poll_locked_free [OF lk] on_exit_def thn_def bnd_def poll_ctl_apply)
  next
    case (reply r rs)
    show ?thesis
    proof (cases "map_find key (ps_map p)")
      case None
      then show ?thesis
        using run fin reply(3) ok(2) gone
        by (cases "rp_rc r = 0")
          (auto simp: poll_remove_def poll_locked_free [OF lk] on_exit_def thn_def bnd_def poll_ctl_apply
            poll_error_apply)
    next
      case (Some stored)
      obtain d v where "drop_socket stored (answered ?c r w) = (d, v)" by (rule prod.exhaust)
      then show ?thesis
        using run fin reply(3) ok Some drop_socket_outcome [of stored "answered ?c r w" d v]
        by (cases "rp_rc r = 0")
          (auto simp: poll_remove_def poll_locked_free [OF lk] on_exit_def thn_def bnd_def poll_ctl_apply
            poll_error_apply poll_modify_apply poll_world_apply)
    qed
  qed
qed

lemma poll_clear_step:
  assumes lk: "can_lock (ps_mutex p)" and run: "poll_clear (p, w) = (out, (p', w'))" and fin: "finished out"
  shows "poll_step_ok p (P_clear, out) p'"
proof -
  obtain d v where d: "drop_sockets (map snd (ps_map p)) w = (d, v)" by (rule prod.exhaust)
  have ok: "poll_step_ok p (P_clear, x) (p\<lparr>ps_map := [], ps_epollfd := e\<rparr>)" for x e
    by (cases x) (simp_all add: poll_step_ok_def)
  show ?thesis
  proof (cases "d = Ret ()")
    case False
    then have "d = Fail Pending" using drop_sockets_outcome [OF d] by simp
    then show ?thesis
      using run fin d by (auto simp: poll_clear_def poll_locked_free [OF lk] on_exit_def thn_def bnd_def
          poll_modify_apply poll_world_apply)
  next
    case True
    show ?thesis
    proof (cases "Close (ps_epollfd p)" v rule: sys_cases [case_names reply stuck])
      case stuck
      then show ?thesis
        using run fin d True by (auto simp: poll_clear_def poll_locked_free [OF lk] on_exit_def thn_def bnd_def
            poll_modify_apply poll_world_apply)
    next
      case (reply r rs)
      let ?v = "answered (Close (ps_epollfd p)) r v"
      show ?thesis
      proof (cases "Epoll_create 1" ?v rule: sys_cases [case_names reply2 stuck])
        case stuck
        then show ?thesis
          using run fin d True reply(3)
          by (auto simp: poll_clear_def poll_locked_free [OF lk] on_exit_def thn_def bnd_def
              poll_modify_apply poll_world_apply)
      next
        case (reply2 r2 rs2)
        then show ?thesis
          using run d True reply(3) ok
          by (auto simp: poll_clear_def poll_locked_free [OF lk] on_exit_def thn_def bnd_def
              poll_modify_apply poll_world_apply poll_error_apply split: if_splits)
      qed
    qed
  qed
qed

lemma poll_exec_step:
  assumes "can_lock (ps_mutex p)" "map_ok (ps_map p)" "poll_exec x (p, w) = (out, (p', w'))" "finished out"
  shows "poll_step_ok p (x, out) p'"
proof (cases x)
  case (P_update addr s mode)
  then have "p' = p" using poll_update_step(1) assms by auto
  then show ?thesis using P_update assms(2) by (cases out) (simp_all add: poll_step_ok_def)
qed (use assms poll_add_step poll_remove_step poll_clear_step in auto)

text \<open>After any sequence of operations \<open>has\<close> answers by history: a socket is in the set when
  the last operation on it that succeeded was an \<open>add\<close>, with no \<open>clear\<close> after it.\<close>

theorem poll_has_by_history:
  assumes "can_lock (ps_mutex p)" "map_ok (ps_map p)" "poll_run ops (p, w) = (log, (p', w'))"
    and "\<forall>(x, out)\<in>set log. finished out"
  shows "poll_has key (p', w') =
     (Ret (fold (member_step key) log (map_find key (ps_map p) \<noteq> None)), (p', w'))"
proof -
  have "ps_mutex p' = ps_mutex p \<and>
      (map_find key (ps_map p') \<noteq> None) = fold (member_step key) log (map_find key (ps_map p) \<noteq> None)"
    using assms
  proof (induction ops arbitrary: p w log)
    case (Cons x ops)
    obtain out q v where x: "poll_exec x (p, w) = (out, (q, v))" by (rule prod_cases3)
    obtain log' u where r: "poll_run ops (q, v) = (log', u)" by (rule prod.exhaust)
    have l: "log = (x, out) # log'" "u = (p', w')" using Cons.prems(3) x r by simp_all
    have "finished out" using Cons.prems(4) l by simp
    then have s: "poll_step_ok p (x, out) q" using poll_exec_step Cons.prems x by blast
    then have q: "ps_mutex q = ps_mutex p" "map_ok (ps_map q)"
      "(map_find key (ps_map q) \<noteq> None) = member_step key (x, out) (map_find key (ps_map p) \<noteq> None)"
      by (auto simp: poll_step_ok_def)
    then show ?case using Cons.IH [of q v log'] r l Cons.prems by simp
  qed auto
  then show ?thesis using assms(1) by (simp add: poll_has_def)
qed

subsection \<open>Witnesses\<close>

definition sample_poll :: pollset where
  "sample_poll = \<lparr>ps_mutex = new_mutex Std_mutex, ps_epollfd = 3, ps_map = [(100, socket_of 7), (200, socket_of 8)]\<rparr>"

definition sample_events :: reply where
  "sample_events = \<lparr>rp_rc = 3, rp_err = 0, rp_data = Events [(1, 200), (4, 200), (1, 300)]\<rparr>"

lemma sample_poll_simps:
  "can_lock (ps_mutex sample_poll)" "ps_map sample_poll = [(100, socket_of 7), (200, socket_of 8)]"
  "ps_epollfd sample_poll = 3" "map_ok (ps_map sample_poll)"
  by (simp_all add: sample_poll_def)

theorem poll_reports_witness:
  "\<exists>res w'. poll_poll 250 (sample_poll, boot [sample_eintr, sample_events]) = (Ret res, (sample_poll, w')) \<and>
     mode_in res (Sock_Id 8) = Some 3 \<and> mode_in res (Sock_Id 7) = None"
proof -
  have "reply_ok (Epoll_wait 3 events_size 0) sample_events"
    by (simp add: sample_events_def events_size_def)
  then obtain res where res: "poll_poll 250 (sample_poll, boot [sample_eintr, sample_events]) =
      (Ret res, (sample_poll, after_retries (Epoll_wait 3 events_size 0) [sample_eintr] sample_events
         (boot [sample_eintr, sample_events])))"
    "\<forall>k. mode_in res k = union_modes None (reported (ps_map sample_poll) k (events_of (rp_data sample_events)))"
    using poll_reports [of sample_poll "boot [sample_eintr, sample_events]" "[sample_eintr]" sample_events "[]" 250]
    by (auto simp: sample_poll_simps sample_events_def sample_eintr_def interrupted_def EINTR_def)
  have "mode_in res (Sock_Id 8) = Some 3" "mode_in res (Sock_Id 7) = None"
    using res(2) by (simp_all add: sample_poll_simps sample_events_def reported_def concerns_def
        event_mode_def poll_flags sock_key_def socket_of_def union_modes_def)
  with res(1) show ?thesis by blast
qed

theorem poll_add_result_witness:
  "fst (poll_add 300 1 (socket_of 9) 1 (sample_poll, boot [sample_done, sample_done])) = Ret ()"
  using poll_add_result [of sample_poll "boot [sample_done, sample_done]" sample_done sample_done "[]" 300 1 "socket_of 9" 1]
  by (simp add: sample_poll_simps sample_done_def status_ok_def Let_def)

theorem poll_remove_closes_witness:
  "map fst (w_trace (snd (snd (poll_remove 200 (socket_of 8) (sample_poll, boot [sample_done, sample_done]))))) =
     [Epoll_ctl 3 EPOLL_CTL_DEL 8 0 0, Close 8]"
  using poll_remove_closes [of sample_poll "boot [sample_done, sample_done]" sample_done sample_done "[]" 200 "socket_of 8" "socket_of 8"]
  by (simp add: sample_poll_simps sample_done_def status_ok_def Let_def socket_of_def)

theorem poll_has_by_history_witness:
  "\<exists>log s. poll_run [P_remove 200 (socket_of 8), P_add 300 1 (socket_of 9) 1] (sample_poll, boot [sample_done, sample_done, sample_done]) = (log, s) \<and>
     fst (poll_has 300 s) = Ret True \<and> fst (poll_has 200 s) = Ret False"
proof -
  let ?w = "boot [sample_done, sample_done, sample_done]"
  let ?ops = "[P_remove 200 (socket_of 8), P_add 300 1 (socket_of 9) 1]"
  have a: "poll_remove 200 (socket_of 8) (sample_poll, ?w) =
     (Ret (), (sample_poll\<lparr>ps_map := [(100, socket_of 7)]\<rparr>,
        answered (Close 8) sample_done (answered (Epoll_ctl 3 EPOLL_CTL_DEL 8 0 0) sample_done ?w)))"
    by (simp add: poll_remove_def poll_locked_free sample_poll_simps on_exit_def thn_def bnd_def poll_ctl_apply
        sys_def sample_done_def status_ok_def poll_modify_apply poll_world_apply drop_socket_def socket_of_def
        INVALID_SOCKET_def)
  obtain q v where b: "poll_add 300 1 (socket_of 9) 1 (sample_poll\<lparr>ps_map := [(100, socket_of 7)]\<rparr>,
        answered (Close 8) sample_done (answered (Epoll_ctl 3 EPOLL_CTL_DEL 8 0 0) sample_done ?w)) = (Ret (), (q, v))"
    by (simp add: poll_add_def poll_locked_free sample_poll_simps on_exit_def thn_def bnd_def poll_ctl_apply
        sys_def sample_done_def status_ok_def poll_modify_apply)
  have run: "poll_run ?ops (sample_poll, ?w) =
     ([(P_remove 200 (socket_of 8), Ret ()), (P_add 300 1 (socket_of 9) 1, Ret ())], (q, v))"
    using a b by simp
  have "poll_has k (q, v) = (Ret (k = 300 \<or> k \<noteq> 200 \<and> map_find k (ps_map sample_poll) \<noteq> None), (q, v))" for k
    using poll_has_by_history [OF sample_poll_simps(1,4) run, of k] by simp
  then show ?thesis using run by auto
qed

end
