(* ===== verification/Poll_Kernel.thy ===== *)
theory Poll_Kernel
  imports Poll_Set Data_Refinement
begin

section \<open>The poll set and the interest list of the kernel\<close>

text \<open>
  A poll set keeps its sockets twice: in its map, and in the interest list of its
  \<^verbatim>\<open>epoll\<close> descriptor, which \<^verbatim>\<open>add\<close>, \<^verbatim>\<open>update\<close>
  and \<^verbatim>\<open>remove\<close> change by system calls and which the kernel changes by itself when a
  descriptor is closed. The interest lists are read off the trace of the calls, and the set and its list
  are compared after every sequence of operations.
\<close>

subsection \<open>The interest lists\<close>

text \<open>For every \<^verbatim>\<open>epoll\<close> descriptor the registered descriptors, with mask and user data. What a call does to
  them is documented in \<^verbatim>\<open>epoll_ctl(2)\<close> and \<^verbatim>\<open>epoll(7)\<close>: closing a
  descriptor (that was not duplicated) removes it from all lists.\<close>

type_synonym interests = "int \<Rightarrow> int \<Rightarrow> (nat \<times> int) option"

fun observe :: "syscall \<times> reply \<Rightarrow> interests \<Rightarrow> interests" where
  "observe (Epoll_create n, r) W = (if rp_rc r < 0 then W else W(rp_rc r := Map.empty))"
| "observe (Epoll_ctl ep op fd ev d, r) W = (if rp_rc r \<noteq> 0 then W
     else W(ep := (if op = EPOLL_CTL_DEL then (W ep)(fd := None) else (W ep)(fd \<mapsto> (ev, d)))))"
| "observe (Close fd, r) W = (\<lambda>ep. if ep = fd then Map.empty else (W ep)(fd := None))"
| "observe (_, r) W = W"

definition interest :: "world \<Rightarrow> interests" where
  "interest w = fold observe (w_trace w) (\<lambda>_. Map.empty)"

text \<open>What \<^verbatim>\<open>epoll_ctl(2)\<close> documents: a call that succeeds had valid descriptors, and the one it was
  about was not the \<^verbatim>\<open>epoll\<close> descriptor itself.\<close>

fun honest_reply :: "syscall \<times> reply \<Rightarrow> bool" where
  "honest_reply (Epoll_ctl ep op fd ev d, r) \<longleftrightarrow> (rp_rc r = 0 \<longrightarrow> 0 \<le> ep \<and> 0 \<le> fd \<and> fd \<noteq> ep)"
| "honest_reply _ \<longleftrightarrow> True"

definition honest :: "world \<Rightarrow> bool" where
  "honest w \<longleftrightarrow> list_all honest_reply (w_trace w)"

lemma interest_answered [simp]: "interest (answered c r w) = observe (c, r) (interest w)"
  by (simp add: interest_def)

lemma honest_answered [simp]: "honest (answered c r w) \<longleftrightarrow> honest w \<and> honest_reply (c, r)"
  by (auto simp: honest_def)

subsection \<open>The reference: the list and the members\<close>

text \<open>A use of a poll set: an operation, a question, or a \<open>poll\<close> whose result is walked through and then destroyed, as
  \<^verbatim>\<open>SocketReactor::run\<close> does. That map holds copies of the reported sockets, and the destructor of a copy closes
  its descriptor.\<close>

datatype set_use = Use_op poll_op | Use_has int | Use_empty | Use_poll int

datatype set_result = Done | Answer bool | Modes "int \<Rightarrow> int option"

definition poll_round :: "int \<Rightarrow> set_result poll_prog" where
  "poll_round timeout =
     bnd (poll_poll timeout) (\<lambda>res.
     thn (poll_world (drop_sockets (map (fst \<circ> snd) res)))
         (ret (Modes (\<lambda>fd. mode_in res (Sock_Id fd)))))"

fun set_call :: "set_use \<Rightarrow> set_result poll_prog" where
  "set_call (Use_op op) = thn (poll_exec op) (ret Done)"
| "set_call (Use_has key) = bnd (poll_has key) (\<lambda>b. ret (Answer b))"
| "set_call Use_empty = bnd poll_empty (\<lambda>b. ret (Answer b))"
| "set_call (Use_poll timeout) = poll_round timeout"

text \<open>The state of the reference: the interest list, and the members of the set, which are descriptors under keys. The
  choice of a step is what the kernel answers: the message of the exception, or the events it reports.\<close>

type_synonym watch = "(int \<Rightarrow> (nat \<times> int) option) \<times> (int \<Rightarrow> int option)"

datatype kernel_choice = Refuses string | Reports "(nat \<times> int) list"

definition modes_of :: "(int \<Rightarrow> int option) \<Rightarrow> (nat \<times> int) list \<Rightarrow> int \<Rightarrow> int option" where
  "modes_of M evs fd = union_modes None (map (event_mode \<circ> fst)
     (filter (\<lambda>ev. event_mode (fst ev) \<noteq> 0 \<and> M (snd ev) = Some fd) evs))"

fun watch_op :: "poll_op \<Rightarrow> watch \<Rightarrow> watch" where
  "watch_op (P_add key addr s mode) (V, M) =
     (V(sk_fd s \<mapsto> (epoll_events mode, addr)), if M key = None then M(key \<mapsto> sk_fd s) else M)"
| "watch_op (P_update addr s mode) (V, M) = (V(sk_fd s \<mapsto> (epoll_events mode, addr)), M)"
| "watch_op (P_remove key s) (V, M) =
     ((case M key of None \<Rightarrow> V(sk_fd s := None) | Some fd \<Rightarrow> V(sk_fd s := None, fd := None)), M(key := None))"
| "watch_op P_clear (V, M) = (Map.empty, Map.empty)"

fun watch_step :: "kernel_choice \<Rightarrow> set_use \<Rightarrow> watch \<Rightarrow> set_result outcome \<times> watch" where
  "watch_step c (Use_has key) (V, M) = (Ret (Answer (M key \<noteq> None)), (V, M))"
| "watch_step c Use_empty (V, M) = (Ret (Answer (M = Map.empty)), (V, M))"
| "watch_step (Refuses msg) (Use_op P_clear) (V, M) = (Fail (Thrown (Runtime_error msg)), (Map.empty, Map.empty))"
| "watch_step (Refuses msg) u (V, M) = (Fail (Thrown (Runtime_error msg)), (V, M))"
| "watch_step (Reports evs) (Use_op op) (V, M) = (Ret Done, watch_op op (V, M))"
| "watch_step (Reports evs) (Use_poll timeout) (V, M) =
     (Ret (Modes (modes_of M evs)), (\<lambda>fd. if modes_of M evs fd = None then V fd else None, M))"

text \<open>The view of a set and its world. The kernel is honest and answers every call.\<close>

definition members :: "pollset \<Rightarrow> int \<Rightarrow> int option" where
  "members p key = map_option sk_fd (map_find key (ps_map p))"

definition poll_view :: "pollset \<times> world \<Rightarrow> watch" where
  "poll_view s = (interest (snd s) (ps_epollfd (fst s)), members (fst s))"

definition poll_allowed :: "set_use \<Rightarrow> pollset \<times> world \<Rightarrow> bool" where
  "poll_allowed u s \<longleftrightarrow> (case set_call u s of (out, t) \<Rightarrow> out \<noteq> Fail Pending \<and> honest (snd t))"

definition sound_set :: "pollset \<Rightarrow> bool" where
  "sound_set p \<longleftrightarrow> can_lock (ps_mutex p) \<and> map_ok (ps_map p) \<and>
     (\<forall>key fd. members p key = Some fd \<longrightarrow> 0 \<le> fd \<and> fd \<noteq> ps_epollfd p)"

lemma members_put:
  "map_ok (ps_map p) \<Longrightarrow> members (remember key s p) = (if members p key = None then (members p)(key \<mapsto> sk_fd s) else members p)"
  by (auto simp: members_def remember_def sm.find_put fun_eq_iff)

lemma members_erase:
  "map_ok (ps_map p) \<Longrightarrow> members (p\<lparr>ps_map := map_erase key (ps_map p)\<rparr>) = (members p)(key := None)"
  by (auto simp: members_def sm.find_erase fun_eq_iff)

lemma members_empty: "members p = Map.empty \<longleftrightarrow> ps_map p = []"
  by (auto simp: members_def map_empty_iff fun_eq_iff)

lemma members_mutex [simp]: "members (p\<lparr>ps_mutex := m\<rparr>) = members p"
  by (simp add: members_def fun_eq_iff)

lemma sound_put:
  assumes "sound_set p" "0 \<le> sk_fd s" "sk_fd s \<noteq> ps_epollfd p"
  shows "sound_set (remember key s p)"
proof -
  have ok: "map_ok (ps_map p)" using assms(1) by (simp add: sound_set_def)
  show ?thesis
    using assms members_put [OF ok, of key s] by (auto simp: sound_set_def remember_def sm.ok_put split: if_splits)
qed

lemma sound_erase:
  assumes "sound_set p"
  shows "sound_set (p\<lparr>ps_map := map_erase key (ps_map p)\<rparr>)"
proof -
  have ok: "map_ok (ps_map p)" using assms by (simp add: sound_set_def)
  show ?thesis
    using assms members_erase [OF ok, of key] by (auto simp: sound_set_def sm.ok_erase split: if_splits)
qed

subsection \<open>Every use follows the reference\<close>

definition obeys :: "set_use \<Rightarrow> pollset \<times> world \<Rightarrow> set_result outcome \<Rightarrow> pollset \<times> world \<Rightarrow> bool" where
  "obeys u s out t \<longleftrightarrow> sound_set (fst t) \<and> (\<exists>c. watch_step c u (poll_view s) = (out, poll_view t))"

lemma obeys_Ret:
  "sound_set p' \<Longrightarrow> poll_view (p', w') = watch_op op (poll_view s) \<Longrightarrow> obeys (Use_op op) s (Ret Done) (p', w')"
  by (cases "poll_view s") (auto simp: obeys_def intro: exI [of _ "Reports []"])

lemma obeys_Fail:
  assumes "sound_set p'" "poll_view (p', w') = (if op = P_clear then (Map.empty, Map.empty) else poll_view s)"
  shows "obeys (Use_op op) s (Fail (Thrown (Runtime_error msg))) (p', w')"
  using assms by (cases "poll_view s"; cases op) (auto simp: obeys_def intro: exI [of _ "Refuses msg"])

lemma update_obeys:
  assumes m: "sound_set p" and run: "poll_update addr s mode (p, w) = (out, (p', w'))" and out: "out \<noteq> Fail Pending"
  shows "obeys (Use_op (P_update addr s mode)) (p, w) (case out of Ret _ \<Rightarrow> Ret Done | Fail e \<Rightarrow> Fail e) (p', w')"
proof -
  let ?c = "Epoll_ctl (ps_epollfd p) EPOLL_CTL_MOD (sk_fd s) (epoll_events mode) addr"
  obtain r rs where r: "sys ?c w = (Ret r, answered ?c r w)"
    using run out by (cases ?c w rule: sys_cases) (auto simp: poll_update_def bnd_def poll_ctl_apply)
  show ?thesis
  proof (cases "rp_rc r = 0")
    case True
    then have o: "out = Ret ()" "p' = p" "w' = answered ?c r w"
      using run r by (auto simp: poll_update_def bnd_def poll_ctl_apply)
    show ?thesis using True m unfolding o outcome.case by (intro obeys_Ret) (simp_all add: poll_view_def)
  next
    case False
    then have "\<exists>msg. out = Fail (Thrown (Runtime_error msg))" "p' = p" "w' = answered ?c r w"
      using run r by (auto simp: poll_update_def bnd_def poll_ctl_apply poll_error_apply)
    then show ?thesis using m False by (auto simp: poll_view_def intro!: obeys_Fail)
  qed
qed

lemma add_obeys:
  assumes m: "sound_set p" and run: "poll_add key addr s mode (p, w) = (out, (p', w'))"
    and out: "out \<noteq> Fail Pending" and hon: "honest w'"
  shows "obeys (Use_op (P_add key addr s mode)) (p, w) (case out of Ret _ \<Rightarrow> Ret Done | Fail e \<Rightarrow> Fail e) (p', w')"
proof -
  let ?add = "Epoll_ctl (ps_epollfd p) EPOLL_CTL_ADD (sk_fd s) (epoll_events mode) addr"
  let ?md = "Epoll_ctl (ps_epollfd p) EPOLL_CTL_MOD (sk_fd s) (epoll_events mode) addr"
  have lk: "can_lock (ps_mutex p)" and ok: "map_ok (ps_map p)" using m by (simp_all add: sound_set_def)
  note add_simps = poll_add_def poll_update_def poll_locked_free [OF lk] on_exit_def thn_def bnd_def poll_ctl_apply
    poll_error_apply poll_modify_apply
  have stored: "obeys (Use_op (P_add key addr s mode)) (p, w) (Ret Done) (remember key s p, v)"
    if "honest (answered c r u)" "v = answered c r u" "interest u = interest w" "rp_rc r = 0" "c = ?add \<or> c = ?md" for c r u v
  proof -
    have "ps_epollfd (remember key s p) = ps_epollfd p" by (simp add: remember_def)
    then have "poll_view (remember key s p, v) = watch_op (P_add key addr s mode) (poll_view (p, w))"
      using that members_put [OF ok, of key s] by (auto simp: poll_view_def)
    moreover have "0 \<le> sk_fd s" "sk_fd s \<noteq> ps_epollfd p" using that by auto
    ultimately show ?thesis using sound_put [OF m] by (intro obeys_Ret) simp_all
  qed
  obtain r rs where r: "w_script w = r # rs" "reply_ok ?add r" "sys ?add w = (Ret r, answered ?add r w)"
    using run out by (cases ?add w rule: sys_cases) (auto simp: add_simps)
  show ?thesis
  proof (cases "rp_rc r = 0")
    case True
    then have "out = Ret ()" "p' = remember key s p" "w' = answered ?add r w"
      using run r by (auto simp: add_simps remember_def split: if_splits)
    then show ?thesis using stored True hon by auto
  next
    case False
    then have neg: "rp_rc r = -1" using r(2) by (simp add: status_ok_def)
    have same: "interest (answered ?add r w) = interest w" using False by simp
    show ?thesis
    proof (cases "rp_err r = EEXIST")
      case no: False
      then have "out = Fail (Thrown (Runtime_error (error_msg (rp_err r) [])))" "p' = p" "w' = answered ?add r w"
        using run r(3) neg by (auto simp: add_simps)
      then show ?thesis using m same by (auto simp: poll_view_def intro!: obeys_Fail)
    next
      case True
      obtain r2 where r2: "reply_ok ?md r2" "sys ?md (answered ?add r w) = (Ret r2, answered ?md r2 (answered ?add r w))"
        using run out r(3) neg True
        by (cases ?md "answered ?add r w" rule: sys_cases) (auto simp: add_simps)
      show ?thesis
      proof (cases "rp_rc r2 = 0")
        case ok: True
        then have "out = Ret ()" "p' = remember key s p" "w' = answered ?md r2 (answered ?add r w)"
          using run r(3) neg True r2 by (auto simp: add_simps remember_def split: if_splits)
        then show ?thesis using stored [of ?md r2 "answered ?add r w"] ok hon same by auto
      next
        case no: False
        then have "\<exists>msg. out = Fail (Thrown (Runtime_error msg))" "p' = p" "w' = answered ?md r2 (answered ?add r w)"
          using run r(3) neg True r2 by (auto simp: add_simps)
        then show ?thesis using m no False by (auto simp: poll_view_def intro!: obeys_Fail)
      qed
    qed
  qed
qed

lemma remove_obeys:
  assumes m: "sound_set p" and run: "poll_remove key s (p, w) = (out, (p', w'))" and out: "out \<noteq> Fail Pending"
  shows "obeys (Use_op (P_remove key s)) (p, w) (case out of Ret _ \<Rightarrow> Ret Done | Fail e \<Rightarrow> Fail e) (p', w')"
proof -
  let ?del = "Epoll_ctl (ps_epollfd p) EPOLL_CTL_DEL (sk_fd s) 0 0"
  have lk: "can_lock (ps_mutex p)" and ok: "map_ok (ps_map p)" using m by (simp_all add: sound_set_def)
  note del_simps = poll_remove_def poll_locked_free [OF lk] on_exit_def thn_def bnd_def poll_ctl_apply
    poll_error_apply poll_modify_apply poll_world_apply drop_socket_def
  obtain r where r: "sys ?del w = (Ret r, answered ?del r w)"
    using run out by (cases ?del w rule: sys_cases) (auto simp: del_simps)
  show ?thesis
  proof (cases "rp_rc r = 0")
    case False
    then have "\<exists>msg. out = Fail (Thrown (Runtime_error msg))" "p' = p" "w' = answered ?del r w"
      using run r by (auto simp: del_simps)
    then show ?thesis using m False by (auto simp: poll_view_def intro!: obeys_Fail)
  next
    case True
    show ?thesis
    proof (cases "map_find key (ps_map p)")
      case None
      then have "out = Ret ()" "p' = p" "w' = answered ?del r w" using run r True by (auto simp: del_simps)
      moreover have "members p key = None" using None by (simp add: members_def)
      ultimately show ?thesis using m True by (auto simp: poll_view_def fun_eq_iff intro!: obeys_Ret)
    next
      case (Some stored)
      then have mem: "members p key = Some (sk_fd stored)" by (simp add: members_def)
      then have fd: "0 \<le> sk_fd stored" "sk_fd stored \<noteq> ps_epollfd p" using m by (auto simp: sound_set_def)
      let ?close = "Close (sk_fd stored)" and ?w = "answered ?del r w"
      have close: "sk_fd stored \<noteq> INVALID_SOCKET" using fd by (simp add: INVALID_SOCKET_def)
      obtain c where c: "sys ?close ?w = (Ret c, answered ?close c ?w)"
        using run r out close by (cases ?close ?w rule: sys_cases) (simp_all add: del_simps True Some)
      have o: "out = Ret ()" "p' = p\<lparr>ps_map := map_erase key (ps_map p)\<rparr>" "w' = answered ?close c ?w"
        using run r c close by (simp_all add: del_simps True Some)
      have "poll_view (p', w') = watch_op (P_remove key s) (poll_view (p, w))"
        using o True fd mem members_erase [OF ok, of key] by (simp add: poll_view_def)
      then show ?thesis unfolding o(1) outcome.case using sound_erase [OF m] o(2) by (intro obeys_Ret) simp_all
    qed
  qed
qed

lemma no_list_below_zero: "honest w \<Longrightarrow> ep < 0 \<Longrightarrow> interest w ep = Map.empty"
proof -
  have "list_all honest_reply xs \<Longrightarrow> ep < 0 \<Longrightarrow> fold observe xs (\<lambda>_. Map.empty) ep = Map.empty" for xs
  proof (induction xs rule: rev_induct)
    case (snoc x xs)
    obtain c r where x: "x = (c, r)" by (rule prod.exhaust)
    show ?case using snoc by (cases c) (auto simp: x fun_eq_iff)
  qed simp
  then show "honest w \<Longrightarrow> ep < 0 \<Longrightarrow> interest w ep = Map.empty" by (simp add: honest_def interest_def)
qed

lemma clear_obeys:
  assumes m: "sound_set p" and run: "poll_clear (p, w) = (out, (p', w'))"
    and out: "out \<noteq> Fail Pending" and hon: "honest w'"
  shows "obeys (Use_op P_clear) (p, w) (case out of Ret _ \<Rightarrow> Ret Done | Fail e \<Rightarrow> Fail e) (p', w')"
proof -
  have lk: "can_lock (ps_mutex p)" using m by (simp add: sound_set_def)
  note clear_simps = poll_clear_def poll_locked_free [OF lk] on_exit_def thn_def bnd_def
    poll_modify_apply poll_world_apply poll_error_apply
  obtain d v where "drop_sockets (map snd (ps_map p)) w = (d, v)" by (rule prod.exhaust)
  moreover from this have "d = Ret ()"
    using drop_sockets_outcome [of "map snd (ps_map p)" w d v] run out by (auto simp: clear_simps)
  ultimately have d: "drop_sockets (map snd (ps_map p)) w = (Ret (), v)" by simp
  let ?close = "Close (ps_epollfd p)"
  obtain c where c: "sys ?close v = (Ret c, answered ?close c v)"
    using run out d by (cases ?close v rule: sys_cases) (auto simp: clear_simps)
  let ?v = "answered ?close c v"
  obtain r where r: "reply_ok (Epoll_create 1) r" "sys (Epoll_create 1) ?v = (Ret r, answered (Epoll_create 1) r ?v)"
    using run out d c by (cases "Epoll_create 1" ?v rule: sys_cases) (auto simp: clear_simps)
  let ?p = "p\<lparr>ps_map := [], ps_epollfd := rp_rc r\<rparr>"
  have o: "p' = ?p" "w' = answered (Epoll_create 1) r ?v"
    "out = (if rp_rc r < 0 then Fail (Thrown (Runtime_error (error_msg (rp_err r) []))) else Ret ())"
    using run d c r(2) by (auto simp: clear_simps split: if_splits)
  have "members p' = Map.empty" using o by (simp add: members_empty)
  then have v: "poll_view (p', w') = (Map.empty, Map.empty)"
    using no_list_below_zero [OF hon, of "rp_rc r"] o by (auto simp: poll_view_def)
  have s: "sound_set p'" using m o(1) \<open>members p' = Map.empty\<close> by (simp add: sound_set_def)
  have op: "watch_op P_clear (poll_view (p, w)) = (Map.empty, Map.empty)" by (cases "poll_view (p, w)") simp
  show ?thesis
  proof (cases "rp_rc r < 0")
    case True
    then show ?thesis unfolding o(3) using s v by (simp, intro obeys_Fail) simp_all
  next
    case False
    then show ?thesis unfolding o(3) using s v op by (simp, intro obeys_Ret) simp_all
  qed
qed

text \<open>\<open>poll\<close>: the sockets it reports are the keys of its result, and the end of the result closes them.\<close>

lemma drop_sockets_interest:
  assumes "drop_sockets ss w = (Ret (), w')"
  shows "interest w' ep fd = (if \<exists>s\<in>set ss. sk_fd s \<noteq> -1 \<and> (sk_fd s = fd \<or> sk_fd s = ep) then None else interest w ep fd)"
  using assms
proof (induction ss arbitrary: w)
  case (Cons s ss)
  show ?case
  proof (cases "sk_fd s = -1")
    case True
    then show ?thesis using Cons by (simp add: thn_def drop_socket_def INVALID_SOCKET_def)
  next
    case False
    obtain r where "sys (Close (sk_fd s)) w = (Ret r, answered (Close (sk_fd s)) r w)"
      using Cons.prems False
      by (cases "Close (sk_fd s)" w rule: sys_cases) (auto simp: thn_def bnd_def drop_socket_def INVALID_SOCKET_def)
    then have "drop_sockets ss (answered (Close (sk_fd s)) r w) = (Ret (), w')"
      using Cons.prems False by (simp add: thn_def bnd_def drop_socket_def INVALID_SOCKET_def)
    from Cons.IH [OF this] show ?thesis using False by auto
  qed
qed simp

definition keyed :: "mode_map \<Rightarrow> bool" where
  "keyed res \<longleftrightarrow> (\<forall>(k, s, m) \<in> set res. k = sock_key s)"

lemma map_put_set: "set (map_put k v m) \<subseteq> insert (k, v) (set m)"
  by (induction m) (auto simp: map_put.simps split: if_splits)

lemma result_or_keyed: "keyed res \<Longrightarrow> keyed (result_or s b res)"
proof -
  assume a: "keyed res"
  show ?thesis
  proof (cases "map_find (sock_key s) res")
    case None
    then show ?thesis using a map_put_set [of "sock_key s" "(s, or 0 b)" res] by (auto simp: result_or_def keyed_def)
  next
    case (Some e)
    obtain s' m where e: "e = (s', m)" by (rule prod.exhaust)
    then have "(sock_key s, s', m) \<in> set res" using Some by (simp add: map_find_def map_of_SomeD)
    then have "sock_key s = sock_key s'" using a by (auto simp: keyed_def)
    then show ?thesis using Some e a map_put_set [of "sock_key s" "(s', or m b)" res] by (auto simp: result_or_def keyed_def)
  qed
qed

lemma poll_collect_keyed: "keyed (poll_collect socks evs)"
proof -
  have "keyed res \<Longrightarrow> keyed (collect_event socks ev res)" for res ev
    by (auto simp: collect_event_def Let_def result_or_keyed split: option.split)
  then have "keyed res \<Longrightarrow> keyed (fold (collect_event socks) evs res)" for res
    by (induction evs arbitrary: res) auto
  from this [of "[]"] show ?thesis by (simp add: poll_collect_def keyed_def)
qed

lemma reported_modes:
  "mode_in (poll_collect (ps_map p) evs) (Sock_Id fd) = modes_of (members p) evs fd"
proof -
  have "concerns (ps_map p) (Sock_Id fd) ev \<longleftrightarrow> event_mode (fst ev) \<noteq> 0 \<and> members p (snd ev) = Some fd" for ev
    by (auto simp: concerns_def members_def sock_key_def split: option.splits)
  then have "concerns (ps_map p) (Sock_Id fd) = (\<lambda>ev. event_mode (fst ev) \<noteq> 0 \<and> members p (snd ev) = Some fd)"
    by (simp add: fun_eq_iff)
  then show ?thesis by (simp add: poll_collect_mode reported_def modes_of_def)
qed

lemma keyed_fds:
  assumes "keyed res" "map_ok res"
  shows "(\<exists>s\<in>set (map (fst \<circ> snd) res). sk_fd s = fd) \<longleftrightarrow> mode_in res (Sock_Id fd) \<noteq> None"
proof -
  have "mode_in res (Sock_Id fd) \<noteq> None \<longleftrightarrow> Sock_Id fd \<in> fst ` set res"
    by (simp add: mode_in_def map_find_def map_of_eq_None_iff)
  also have "\<dots> \<longleftrightarrow> (\<exists>s\<in>set (map (fst \<circ> snd) res). sk_fd s = fd)"
    using assms(1) by (force simp: keyed_def sock_key_def)
  finally show ?thesis by simp
qed

lemma waits_interest: "fold observe (map (Pair (Epoll_wait ep n t)) rs) W = W"
  by (induction rs) simp_all

lemma sys_retry_interest:
  assumes "sys_retry again (Epoll_wait ep n t) w = (out, w')"
  shows "interest w' = interest w"
  using sys_retry_outcome [OF assms] by (cases out) (auto simp: interest_def waits_interest)

lemma sys_retry_fails: "sys_retry again c w = (Fail e, w') \<Longrightarrow> e = Pending"
  using sys_retry_outcome [of again c w "Fail e" w'] by auto

lemma poll_ends:
  assumes lk: "can_lock (ps_mutex p)" and run: "poll_poll timeout (p, w) = (out, (p', w'))" and out: "out \<noteq> Fail Pending"
  shows "p' = p \<and> interest w' = interest w \<and> ((\<exists>evs. out = Ret (poll_collect (ps_map p) evs)) \<or>
    (\<exists>msg. out = Fail (Thrown (Runtime_error msg))))"
proof (cases "ps_map p = []")
  case True
  have "poll_collect (ps_map p) [] = []" by (simp add: poll_collect_def)
  then show ?thesis using True run lk by (auto simp: poll_poll_def poll_empty_def bnd_def intro: exI [of _ "[]"])
next
  case False
  let ?c = "Epoll_wait (ps_epollfd p) events_size 0"
  obtain q v where q: "sys_retry (\<lambda>rc. rc < 0) ?c w = (q, v)" by (rule prod.exhaust)
  have "interest v = interest w" using sys_retry_interest [OF q] by simp
  then show ?thesis
    using False run lk q out sys_retry_fails [of "\<lambda>rc. rc < 0" ?c w _ v]
    by (auto simp: poll_poll_def poll_empty_def bnd_def thn_def poll_world_apply poll_error_apply split: outcome.splits if_splits)
qed

lemma poll_obeys:
  assumes m: "sound_set p" and run: "poll_round timeout (p, w) = (out, (p', w'))" and out: "out \<noteq> Fail Pending"
  shows "obeys (Use_poll timeout) (p, w) out (p', w')"
proof -
  have lk: "can_lock (ps_mutex p)" using m by (simp add: sound_set_def)
  obtain q p1 v where q: "poll_poll timeout (p, w) = (q, (p1, v))" by (metis prod.exhaust)
  have "q \<noteq> Fail Pending" using run q out by (auto simp: poll_round_def bnd_def)
  from poll_ends [OF lk q this] have p1: "p1 = p" "interest v = interest w"
    and e: "(\<exists>evs. q = Ret (poll_collect (ps_map p) evs)) \<or> (\<exists>msg. q = Fail (Thrown (Runtime_error msg)))" by auto
  from e show ?thesis
  proof (elim disjE exE)
    fix evs assume qr: "q = Ret (poll_collect (ps_map p) evs)"
    let ?res = "poll_collect (ps_map p) evs" and ?modes = "modes_of (members p) evs"
    let ?ss = "map (fst \<circ> snd) ?res"
    obtain d u where d: "drop_sockets ?ss v = (d, u)" by (rule prod.exhaust)
    have "d = Ret ()" using drop_sockets_outcome [OF d] run q qr d out by (auto simp: poll_round_def bnd_def thn_def poll_world_apply)
    then have o: "out = Ret (Modes ?modes)" "p' = p" "w' = u" and d: "drop_sockets ?ss v = (Ret (), w')"
      using run q qr d p1(1) by (auto simp: poll_round_def bnd_def thn_def poll_world_apply reported_modes)
    have rep: "(\<exists>s\<in>set ?ss. sk_fd s = fd) \<longleftrightarrow> ?modes fd \<noteq> None" for fd
      using keyed_fds [OF poll_collect_keyed poll_collect_ok, of "ps_map p" evs fd] by (simp add: reported_modes)
    have fds: "0 \<le> fd \<and> fd \<noteq> ps_epollfd p" if "?modes fd \<noteq> None" for fd
    proof -
      have "filter (\<lambda>ev. event_mode (fst ev) \<noteq> 0 \<and> members p (snd ev) = Some fd) evs \<noteq> []"
        using that by (auto simp: modes_of_def union_modes_def)
      then obtain ev where "members p (snd ev) = Some fd" by (auto simp: filter_empty_conv)
      then show ?thesis using m by (auto simp: sound_set_def)
    qed
    have "interest w' (ps_epollfd p) fd = (if ?modes fd = None then interest w (ps_epollfd p) fd else None)" for fd
    proof -
      have "(\<exists>s\<in>set ?ss. sk_fd s \<noteq> -1 \<and> (sk_fd s = fd \<or> sk_fd s = ps_epollfd p)) \<longleftrightarrow> ?modes fd \<noteq> None"
        using rep [of fd] rep [of "ps_epollfd p"] fds [of fd] fds [of "ps_epollfd p"] by force
      then show ?thesis using drop_sockets_interest [OF d, of "ps_epollfd p" fd] p1(2) by auto
    qed
    then have "poll_view (p', w') = (\<lambda>fd. if ?modes fd = None then interest w (ps_epollfd p) fd else None, members p)"
      using o by (auto simp: poll_view_def fun_eq_iff)
    then show ?thesis using m o by (auto simp: obeys_def poll_view_def intro!: exI [of _ "Reports evs"])
  next
    fix msg assume "q = Fail (Thrown (Runtime_error msg))"
    then have "out = Fail (Thrown (Runtime_error msg))" "p' = p" "w' = v"
      using run q p1(1) by (auto simp: poll_round_def bnd_def)
    then show ?thesis using m p1(2) by (auto simp: obeys_def poll_view_def intro!: exI [of _ "Refuses msg"])
  qed
qed

text \<open>So the end of a result parts the set and the list: the kernel forgets every socket that was reported, and the set
  still has it.\<close>

lemma poll_result_unwatches:
  assumes "sound_set p" "poll_round timeout (p, w) = (Ret (Modes ms), (p', w'))" "ms fd \<noteq> None"
  shows "interest w' (ps_epollfd p') fd = None" "\<exists>key. members p' key = Some fd"
proof -
  obtain c where c: "watch_step c (Use_poll timeout) (poll_view (p, w)) = (Ret (Modes ms), poll_view (p', w'))"
    using poll_obeys [OF assms(1,2)] by (auto simp: obeys_def)
  obtain evs where evs: "c = Reports evs" using c by (cases c) (simp_all add: poll_view_def)
  note e = c [unfolded evs poll_view_def watch_step.simps prod.inject outcome.inject set_result.inject fst_conv snd_conv]
  show "interest w' (ps_epollfd p') fd = None" using assms(3) conjunct1 [OF e] fun_cong [OF conjunct1 [OF conjunct2 [OF e]], of fd] by (auto split: if_splits)
  have "filter (\<lambda>ev. event_mode (fst ev) \<noteq> 0 \<and> members p (snd ev) = Some fd) evs \<noteq> []"
    using assms(3) conjunct1 [OF e] by (auto simp: modes_of_def union_modes_def)
  then show "\<exists>key. members p' key = Some fd" using e by (auto simp: filter_empty_conv)
qed

lemma op_obeys:
  assumes m: "sound_set p" and run: "poll_exec op (p, w) = (out, (p', w'))" and out: "out \<noteq> Fail Pending" and hon: "honest w'"
  shows "obeys (Use_op op) (p, w) (case out of Ret _ \<Rightarrow> Ret Done | Fail e \<Rightarrow> Fail e) (p', w')"
  using assms
  by (cases op) (auto intro: add_obeys remove_obeys update_obeys clear_obeys)

lemma use_obeys:
  assumes m: "sound_set (fst s)" and al: "poll_allowed u s" and run: "set_call u s = (out, t)"
  shows "obeys u s out t"
proof -
  obtain p w p' w' where s: "s = (p, w)" "t = (p', w')" by (metis prod.exhaust)
  have a: "out \<noteq> Fail Pending" "honest w'" using al run s by (simp_all add: poll_allowed_def)
  have lk: "can_lock (ps_mutex p)" using m s by (simp add: sound_set_def)
  show ?thesis
  proof (cases u)
    case (Use_op op)
    obtain q r where q: "poll_exec op (p, w) = (q, r)" by (rule prod.exhaust)
    then have "r = (p', w')" "out = (case q of Ret _ \<Rightarrow> Ret Done | Fail e \<Rightarrow> Fail e)"
      using run s Use_op by (auto simp: thn_def bnd_def split: outcome.splits)
    then show ?thesis using op_obeys [of p op w q p' w'] m s q a Use_op by (auto split: outcome.splits)
  next
    case (Use_has key)
    then show ?thesis using run s lk m
      by (auto simp: poll_has_def obeys_def poll_view_def members_def)
  next
    case Use_empty
    then show ?thesis using run s lk m members_empty [of p]
      by (auto simp: poll_empty_def obeys_def poll_view_def)
  next
    case (Use_poll timeout)
    then show ?thesis using poll_obeys [of p timeout w out p' w'] run s m a by simp
  qed
qed

interpretation pk: data_refinement set_call watch_step poll_view "\<lambda>s. sound_set (fst s)" poll_allowed
  by unfold_locales (use use_obeys in \<open>auto simp: obeys_def\<close>)

lemma new_set_empty:
  assumes "pollset_new (boot script) = (Ret p, w)"
  shows "sound_set p" "poll_view (p, w) = (Map.empty, Map.empty)"
proof -
  obtain r where r: "sys (Epoll_create 1) (boot script) = (Ret r, answered (Epoll_create 1) r (boot script))"
    using assms by (cases "Epoll_create 1" "boot script" rule: sys_cases)
      (auto simp: pollset_new_def create_epollfd_def bnd_def poll_world_apply)
  then have "p = \<lparr>ps_mutex = new_mutex Std_mutex, ps_epollfd = rp_rc r, ps_map = []\<rparr>"
    "w = answered (Epoll_create 1) r (boot script)" "0 \<le> rp_rc r"
    using assms by (auto simp: pollset_new_def create_epollfd_def bnd_def thn_def poll_world_apply
        poll_modify_apply throw_runtime_def split: if_splits)
  then show "poll_view (p, w) = (Map.empty, Map.empty)" "sound_set p"
    by (auto simp: poll_view_def interest_def sound_set_def members_def)
qed

text \<open>C4. From its constructor on, whatever calls succeed or fail, a poll set and the kernel go through the states of the
  reference \<open>watch_step\<close>. The members are what \<^verbatim>\<open>add\<close> (of a new key), \<^verbatim>\<open>remove\<close> and
  \<^verbatim>\<open>clear\<close> make of them, and \<^verbatim>\<open>has\<close> and \<^verbatim>\<open>empty\<close> answer by
  them. The interest list of the current \<^verbatim>\<open>epoll\<close> descriptor is what the successful
  \<^verbatim>\<open>add\<close>, \<^verbatim>\<open>update\<close>, \<^verbatim>\<open>remove\<close> and all \<^verbatim>\<open>clear\<close> make of it (each descriptor with the
  mask and the user data given last), less the descriptors that are closed: that of the member under the key that \<^verbatim>\<open>remove\<close>
  erases, and those that a \<^verbatim>\<open>poll\<close> has reported, which the end of its result closes while they stay members. A \<^verbatim>\<open>poll\<close> reports
  the members whose keys are the user data of the kernel's events. A failed call is an exception and changes nothing, \<^verbatim>\<open>clear\<close> apart. The
  key of a socket is any number; the kernel answers each call as documented.\<close>

theorem poll_mirrors_kernel:
  assumes "pollset_new (boot script) = (Ret p, w)"
    and "calls_allowed set_call poll_allowed us (p, w)" "run_calls set_call us (p, w) = (rs, (p', w'))"
  shows "\<exists>steps. map snd steps = us \<and>
      run_steps watch_step steps (Map.empty, Map.empty) = (rs, (interest w' (ps_epollfd p'), members p'))"
proof -
  have "sound_set (fst (p, w))" using new_set_empty(1) [OF assms(1)] by simp
  from pk.run_refines [OF this assms(2,3)] show ?thesis
    using new_set_empty(2) [OF assms(1)] by (simp add: poll_view_def)
qed

subsection \<open>Witness\<close>

text \<open>Two sockets are added, the first one again with another mask; a poll reports the second one, then it is removed
  from the set, which fails, since the kernel has forgotten it; the set still has it.\<close>

definition reply_fd :: "int \<Rightarrow> reply" where
  "reply_fd n = \<lparr>rp_rc = n, rp_err = 0, rp_data = No_data\<rparr>"

definition reply_exists :: reply where
  "reply_exists = \<lparr>rp_rc = -1, rp_err = EEXIST, rp_data = No_data\<rparr>"

definition reply_events :: reply where
  "reply_events = \<lparr>rp_rc = 1, rp_err = 0, rp_data = Events [(1, 88)]\<rparr>"

definition reply_no_entry :: reply where
  "reply_no_entry = \<lparr>rp_rc = -1, rp_err = 2, rp_data = No_data\<rparr>"

definition watch_script :: "reply list" where
  "watch_script = [reply_fd 3, sample_done, sample_done, reply_exists, sample_done, reply_events, sample_done, reply_no_entry]"

definition watch_uses :: "set_use list" where
  "watch_uses = [Use_op (P_add 77 77 (socket_of 7) 1), Use_op (P_add 88 88 (socket_of 8) 1), Use_op (P_add 77 77 (socket_of 7) 3),
     Use_poll 0, Use_op (P_remove 88 (socket_of 8)), Use_has 88]"

lemmas watch_simps = poll_locked_free on_exit_def thn_def bnd_def poll_ctl_apply poll_error_apply poll_modify_apply
  poll_world_apply sys_def sample_done_def reply_fd_def reply_exists_def reply_events_def reply_no_entry_def status_ok_def
  socket_of_def INVALID_SOCKET_def poll_add_def poll_update_def poll_remove_def drop_socket_def poll_has_def poll_empty_def
  poll_round_def poll_poll_def poll_collect_def collect_event_def result_or_def sock_key_def sys_retry.simps

definition watch_state :: "pollset \<times> world" where
  "watch_state = (\<lparr>ps_mutex = new_mutex Std_mutex, ps_epollfd = 3, ps_map = []\<rparr>,
     answered (Epoll_create 1) (reply_fd 3) (boot watch_script))"

lemma watch_constructed: "pollset_new (boot watch_script) = (Ret (fst watch_state), snd watch_state)"
  by (simp add: pollset_new_def create_epollfd_def watch_state_def watch_script_def watch_simps)

lemma watch_run:
  "\<exists>p' w' m. run_calls set_call watch_uses watch_state = ([Ret Done, Ret Done, Ret Done, m,
       Fail (Thrown (Runtime_error (error_msg 2 []))), Ret (Answer True)], (p', w')) \<and>
     calls_allowed set_call poll_allowed watch_uses watch_state \<and> ps_epollfd p' = 3 \<and> interest w' 3 = [7 \<mapsto> (5, 77)]"
  by (simp add: watch_uses_def watch_state_def watch_script_def watch_simps poll_allowed_def interest_def honest_def
      EEXIST_def epoll_events_def poll_flags events_size_def)

theorem poll_mirrors_kernel_witness:
  "\<exists>p w rs p' w' steps. pollset_new (boot watch_script) = (Ret p, w) \<and> run_calls set_call watch_uses (p, w) = (rs, (p', w')) \<and>
     run_steps watch_step steps (Map.empty, Map.empty) = (rs, ([7 \<mapsto> (5, 77)], members p')) \<and>
     length rs = 6 \<and> rs ! 4 = Fail (Thrown (Runtime_error (error_msg 2 []))) \<and> rs ! 5 = Ret (Answer True)"
proof -
  obtain p w where s: "watch_state = (p, w)" by (rule prod.exhaust)
  obtain p' w' m where run: "run_calls set_call watch_uses (p, w) = ([Ret Done, Ret Done, Ret Done, m,
       Fail (Thrown (Runtime_error (error_msg 2 []))), Ret (Answer True)], (p', w'))"
    and ok: "calls_allowed set_call poll_allowed watch_uses (p, w)" and i: "ps_epollfd p' = 3" "interest w' 3 = [7 \<mapsto> (5, 77)]"
    using watch_run s by auto
  have new: "pollset_new (boot watch_script) = (Ret p, w)" using watch_constructed by (simp add: s)
  obtain steps where st: "run_steps watch_step steps (Map.empty, Map.empty) = ([Ret Done, Ret Done, Ret Done, m,
       Fail (Thrown (Runtime_error (error_msg 2 []))), Ret (Answer True)], ([7 \<mapsto> (5, 77)], members p'))"
    using poll_mirrors_kernel [OF new ok run] i by auto
  show ?thesis using new run by (intro exI conjI) (assumption, assumption, rule st, simp_all)
qed

end
