(* ===== verification/Sync_Event.thy ===== *)
theory Sync_Event
  imports Prelude
begin

section \<open>CEvent: a synchronisation event\<close>

text \<open>
  Models \<^verbatim>\<open>src/epoll_server/event.cpp\<close> and \<^verbatim>\<open>event.h\<close> for any number of threads.
  The members are shared; every thread is outside of the class, waits for the mutex, holds it, or
  sleeps on the condition variable. Between \<open>Locking\<close> and the release of the mutex a member
  function runs without interference, so a step is: call a function, take the mutex, run to the
  next release of the mutex, wake up. A sleeping thread wakes up when it is notified, when its time
  is over, or for no reason. The log records the calls that have returned, in the order in which they
  left the critical section.

  Other than in \<open>Prelude\<close>, where one thread sees the mutexes it locks, the mutex has an owner here.
\<close>

datatype event_op = Op_set | Op_reset | Op_wait | Op_wait_for | Op_try_wait

datatype event_result = Done | Answer bool | Raised exn

text \<open>The flag says that the last \<^verbatim>\<open>wait_until\<close> timed out.\<close>

datatype place = Outside | Locking event_op bool | Inside event_op bool | Sleeping event_op

record cevent =
  ce_auto :: bool
  ce_ready :: bool
  ce_owner :: "nat option"
  ce_place :: "nat \<Rightarrow> place"
  ce_log :: "(nat \<times> event_op \<times> event_result) list"

definition event_init :: "bool \<Rightarrow> cevent" where
  "event_init auto = \<lparr>ce_auto = auto, ce_ready = False, ce_owner = None, ce_place = (\<lambda>_. Outside), ce_log = []\<rparr>"

text \<open>Leaving a function (the lock goes out of scope), sleeping (the lock is released),
  \<^verbatim>\<open>notify_all\<close>.\<close>

definition leave :: "nat \<Rightarrow> event_op \<Rightarrow> event_result \<Rightarrow> cevent \<Rightarrow> cevent" where
  "leave t f r s = s\<lparr>ce_owner := None, ce_place := (ce_place s)(t := Outside), ce_log := ce_log s @ [(t, f, r)]\<rparr>"

definition sleep :: "nat \<Rightarrow> event_op \<Rightarrow> cevent \<Rightarrow> cevent" where
  "sleep t f s = s\<lparr>ce_owner := None, ce_place := (ce_place s)(t := Sleeping f)\<rparr>"

definition notify_sleepers :: "cevent \<Rightarrow> cevent" where
  "notify_sleepers s = s\<lparr>ce_place := (\<lambda>t. case ce_place s t of Sleeping f \<Rightarrow> Locking f False | p \<Rightarrow> p)\<rparr>"

definition consume :: "cevent \<Rightarrow> cevent" where
  "consume s = (if ce_auto s then s\<lparr>ce_ready := False\<rparr> else s)"

definition event_set :: "nat \<Rightarrow> cevent \<Rightarrow> cevent" where
  "event_set t s = leave t Op_set Done (notify_sleepers (s\<lparr>ce_ready := True\<rparr>))"

definition event_reset :: "nat \<Rightarrow> cevent \<Rightarrow> cevent" where
  "event_reset t s = leave t Op_reset Done (s\<lparr>ce_ready := False\<rparr>)"

text \<open>From the test of the predicate to the return or to the next sleep.\<close>

definition event_wait :: "nat \<Rightarrow> cevent \<Rightarrow> cevent" where
  "event_wait t s = (if ce_ready s then leave t Op_wait Done (consume s) else sleep t Op_wait s)"

definition wait_failed_msg :: string where
  "wait_failed_msg = ''wait for event failed''"

text \<open>\<open>wait(long)\<close> makes an exception of the answer of \<open>tryWait\<close>.\<close>

definition wait_answer :: "event_op \<Rightarrow> bool \<Rightarrow> event_result" where
  "wait_answer f b = (if f = Op_wait_for
     then if b then Done else Raised (Runtime_error wait_failed_msg) else Answer b)"

definition event_try_wait :: "nat \<Rightarrow> event_op \<Rightarrow> bool \<Rightarrow> cevent \<Rightarrow> cevent" where
  "event_try_wait t f timed_out s =
     (if timed_out then leave t f (wait_answer f False) s
      else if ce_ready s then leave t f (wait_answer f True) (consume s)
      else sleep t f s)"

fun event_body :: "nat \<Rightarrow> event_op \<Rightarrow> bool \<Rightarrow> cevent \<Rightarrow> cevent" where
  "event_body t Op_set timed_out s = event_set t s"
| "event_body t Op_reset timed_out s = event_reset t s"
| "event_body t Op_wait timed_out s = event_wait t s"
| "event_body t f timed_out s = event_try_wait t f timed_out s"

subsection \<open>Steps\<close>

datatype event_action = Call event_op | Acquire | Run | Wake | Expire

text \<open>A timed call runs out of time while it sleeps. A thread that was notified in time counts as notified, also when its time
  is over before it has the mutex; the library may report a timeout to such a thread. In the log that is the
  call of a thread that timed out, which \<open>flag_step\<close> allows at any time.\<close>

fun event_step :: "nat \<Rightarrow> event_action \<Rightarrow> cevent \<Rightarrow> cevent option" where
  "event_step t (Call f) s = (case ce_place s t of
     Outside \<Rightarrow> Some (s\<lparr>ce_place := (ce_place s)(t := Locking f False)\<rparr>) | _ \<Rightarrow> None)"
| "event_step t Acquire s = (case ce_place s t of
     Locking f b \<Rightarrow> if ce_owner s = None
       then Some (s\<lparr>ce_owner := Some t, ce_place := (ce_place s)(t := Inside f b)\<rparr>) else None
   | _ \<Rightarrow> None)"
| "event_step t Run s = (case ce_place s t of Inside f b \<Rightarrow> Some (event_body t f b s) | _ \<Rightarrow> None)"
| "event_step t Wake s = (case ce_place s t of
     Sleeping f \<Rightarrow> Some (s\<lparr>ce_place := (ce_place s)(t := Locking f False)\<rparr>) | _ \<Rightarrow> None)"
| "event_step t Expire s = (case ce_place s t of
     Sleeping f \<Rightarrow> if f = Op_wait then None else Some (s\<lparr>ce_place := (ce_place s)(t := Locking f True)\<rparr>)
   | _ \<Rightarrow> None)"

fun event_run :: "(nat \<times> event_action) list \<Rightarrow> cevent \<Rightarrow> cevent option" where
  "event_run [] s = Some s"
| "event_run ((t, a) # xs) s = (case event_step t a s of None \<Rightarrow> None | Some u \<Rightarrow> event_run xs u)"

inductive event_reach :: "bool \<Rightarrow> cevent \<Rightarrow> bool" for auto where
  init: "event_reach auto (event_init auto)"
| step: "event_reach auto s \<Longrightarrow> event_step t a s = Some u \<Longrightarrow> event_reach auto u"

lemma event_run_reach: "event_reach auto s \<Longrightarrow> event_run xs s = Some u \<Longrightarrow> event_reach auto u"
proof (induction xs s rule: event_run.induct)
  case (2 t a xs s)
  then show ?case by (auto split: option.splits intro: event_reach.step)
qed simp

text \<open>A reading of the steps by the place of the thread.\<close>

lemma event_step_cases:
  assumes "event_step t a s = Some u"
  obtains (call) f where "ce_place s t = Outside" "u = s\<lparr>ce_place := (ce_place s)(t := Locking f False)\<rparr>"
  | (acquire) f b where "ce_place s t = Locking f b" "ce_owner s = None"
      "u = s\<lparr>ce_owner := Some t, ce_place := (ce_place s)(t := Inside f b)\<rparr>"
  | (run) f b where "ce_place s t = Inside f b" "u = event_body t f b s"
  | (wake) f where "ce_place s t = Sleeping f" "u = s\<lparr>ce_place := (ce_place s)(t := Locking f False)\<rparr>"
  | (expire) f where "ce_place s t = Sleeping f" "f \<noteq> Op_wait"
      "u = s\<lparr>ce_place := (ce_place s)(t := Locking f True)\<rparr>"
  using assms by (cases a) (auto split: place.splits if_splits)

lemma event_body_cases:
  obtains (set) "f = Op_set" "event_body t f b s = event_set t s"
  | (reset) "f = Op_reset" "event_body t f b s = event_reset t s"
  | (wait) "f = Op_wait" "event_body t f b s = event_wait t s"
  | (timed) "f = Op_wait_for \<or> f = Op_try_wait" "event_body t f b s = event_try_wait t f b s"
  by (cases f) auto

subsection \<open>The specification: a flag with atomic operations\<close>

text \<open>\<open>tryWait\<close> may fail at any time.\<close>

fun flag_step :: "bool \<Rightarrow> bool \<Rightarrow> event_op \<Rightarrow> event_result \<Rightarrow> bool option" where
  "flag_step auto x Op_set r = (if r = Done then Some True else None)"
| "flag_step auto x Op_reset r = (if r = Done then Some False else None)"
| "flag_step auto x Op_wait r = (if r = Done \<and> x then Some (\<not> auto) else None)"
| "flag_step auto x f r =
     (if r = wait_answer f True then if x then Some (\<not> auto) else None
      else if r = wait_answer f False then Some x else None)"

fun flag_run :: "bool \<Rightarrow> bool \<Rightarrow> (nat \<times> event_op \<times> event_result) list \<Rightarrow> bool option" where
  "flag_run auto x [] = Some x"
| "flag_run auto x ((t, f, r) # log) = (case flag_step auto x f r of None \<Rightarrow> None | Some y \<Rightarrow> flag_run auto y log)"

lemma flag_run_snoc:
  "flag_run auto x (log @ [(t, f, r)]) = (case flag_run auto x log of None \<Rightarrow> None | Some y \<Rightarrow> flag_step auto y f r)"
  by (induction auto x log rule: flag_run.induct) (auto split: option.splits)

lemma wait_answer_neq [simp]:
  "wait_answer f True \<noteq> wait_answer f False" "wait_answer f False \<noteq> wait_answer f True"
  by (simp_all add: wait_answer_def)

subsection \<open>The invariant\<close>

text \<open>The mutex has the owner that is inside; nobody sleeps while the event is set.\<close>

fun is_inside :: "place \<Rightarrow> bool" where
  "is_inside (Inside f b) = True"
| "is_inside _ = False"

definition event_inv :: "bool \<Rightarrow> cevent \<Rightarrow> bool" where
  "event_inv auto s \<longleftrightarrow> ce_auto s = auto \<and>
     (\<forall>t. is_inside (ce_place s t) \<longleftrightarrow> ce_owner s = Some t) \<and>
     (ce_ready s \<longrightarrow> (\<forall>t f. ce_place s t \<noteq> Sleeping f)) \<and>
     flag_run auto False (ce_log s) = Some (ce_ready s)"

lemma event_inv_init: "event_inv auto (event_init auto)"
  by (simp add: event_inv_def event_init_def)

lemma notify_place:
  "ce_place (notify_sleepers s) t = (case ce_place s t of Sleeping f \<Rightarrow> Locking f False | p \<Rightarrow> p)"
  by (simp add: notify_sleepers_def)

lemmas event_ops = event_set_def event_reset_def event_wait_def event_try_wait_def leave_def sleep_def
  consume_def notify_sleepers_def

lemma event_body_inv:
  assumes inv: "event_inv auto s" and t: "ce_place s t = Inside f b"
  shows "event_inv auto (event_body t f b s)"
proof -
  have own: "ce_owner s = Some t" using assms by (metis event_inv_def is_inside.simps(1))
  have others: "is_inside (ce_place s u) \<longleftrightarrow> u = t" for u
    using inv own by (auto simp: event_inv_def)
  have notified: "is_inside (case ce_place s u of Sleeping f \<Rightarrow> Locking f False | p \<Rightarrow> p) \<longleftrightarrow> u = t" for u
    using others [of u] by (cases "ce_place s u") auto
  have awake: "(case p of Sleeping f \<Rightarrow> Locking f False | q \<Rightarrow> q) \<noteq> Sleeping g" for p g
    by (cases p) auto
  show ?thesis
  proof (cases rule: event_body_cases [of f t b s])
    case set
    then show ?thesis
      using inv own notified awake by (auto simp: event_inv_def event_ops flag_run_snoc)
  next
    case reset
    then show ?thesis using inv own others by (auto simp: event_inv_def event_ops flag_run_snoc)
  next
    case wait
    then show ?thesis using inv own others by (auto simp: event_inv_def event_ops flag_run_snoc)
  next
    case timed
    then show ?thesis using inv own others by (auto simp: event_inv_def event_ops flag_run_snoc)
  qed
qed

lemma event_step_inv:
  assumes "event_step t a s = Some u" and "event_inv auto s"
  shows "event_inv auto u"
proof -
  have own: "is_inside (ce_place s t) \<longleftrightarrow> ce_owner s = Some t" using assms(2) by (simp add: event_inv_def)
  from assms(1) show ?thesis
  proof (cases rule: event_step_cases)
    case (run f b)
    then show ?thesis using assms(2) by (simp add: event_body_inv)
  qed (use assms(2) own in \<open>auto simp: event_inv_def\<close>)
qed

lemma event_reach_inv: "event_reach auto s \<Longrightarrow> event_inv auto s"
  by (induction rule: event_reach.induct) (auto intro: event_inv_init event_step_inv)


subsection \<open>Properties\<close>

text \<open>C9. \<open>CEvent\<close> is linearizable: however the threads interleave, the calls that have returned, taken in
  the order in which they left the critical section, are a run of a flag with atomic operations that ends
  in the present value of the event. In particular an auto-reset event releases at most one waiting
  call per \<open>set\<close>, and no two threads are ever inside.\<close>

theorem event_linearizable:
  assumes "event_reach auto s"
  shows "flag_run auto False (ce_log s) = Some (ce_ready s) \<and>
    (is_inside (ce_place s t) \<and> is_inside (ce_place s u) \<longrightarrow> t = u)"
  using event_reach_inv [OF assms] by (auto simp: event_inv_def)

text \<open>C10. No wake-up is lost: while the event is set nobody sleeps, and any call of \<open>wait\<close>, \<open>wait(long)\<close> or
  \<open>tryWait\<close> that has not run out of time succeeds as soon as it gets the mutex.\<close>

theorem event_no_lost_wakeup:
  assumes "event_reach auto s" "ce_ready s"
  shows "(\<forall>t f. ce_place s t \<noteq> Sleeping f) \<and>
    (ce_place s t = Locking f False \<and> ce_owner s = None \<and> f \<in> {Op_wait, Op_wait_for, Op_try_wait} \<longrightarrow>
      (\<exists>u. event_run [(t, Acquire), (t, Run)] s = Some u \<and>
        ce_log u = ce_log s @ [(t, f, if f = Op_try_wait then Answer True else Done)] \<and> ce_ready u = (\<not> auto)))"
proof (intro conjI impI allI)
  show "ce_place s t \<noteq> Sleeping f" for t f
    using event_reach_inv [OF assms(1)] assms(2) by (simp add: event_inv_def)
  have "ce_auto s = auto" using event_reach_inv [OF assms(1)] by (simp add: event_inv_def)
  then show "\<exists>u. event_run [(t, Acquire), (t, Run)] s = Some u \<and>
        ce_log u = ce_log s @ [(t, f, if f = Op_try_wait then Answer True else Done)] \<and> ce_ready u = (\<not> auto)"
    if "ce_place s t = Locking f False \<and> ce_owner s = None \<and> f \<in> {Op_wait, Op_wait_for, Op_try_wait}"
    using that assms(2) by (auto simp: event_ops wait_answer_def)
qed

text \<open>A call whose time runs out just before the event is set fails although the event is set when it
  returns: after a timeout \<open>tryWait\<close> does not look at the event again.\<close>

lemma try_wait_misses_set:
  "\<exists>s. event_reach True s \<and> ce_ready s \<and> ce_log s = [(1, Op_set, Done), (0, Op_try_wait, Answer False)]"
proof -
  let ?run = "[(0, Call Op_try_wait), (0, Acquire), (0, Run), (0, Expire),
     (1, Call Op_set), (1, Acquire), (1, Run), (0, Acquire), (0, Run)]"
  obtain s where s: "event_run ?run (event_init True) = Some s" "ce_ready s"
      "ce_log s = [(1, Op_set, Done), (0, Op_try_wait, Answer False)]"
    by (simp add: event_init_def event_ops wait_answer_def)
  then show ?thesis using event_run_reach [OF event_reach.init s(1)] by blast
qed

subsection \<open>Witnesses\<close>

text \<open>Two threads wait, one sets: the first to get the mutex is released, the other sleeps again.\<close>

definition sample_schedule :: "(nat \<times> event_action) list" where
  "sample_schedule = [(0, Call Op_wait), (0, Acquire), (0, Run), (1, Call Op_wait_for), (1, Acquire), (1, Run),
     (2, Call Op_set), (2, Acquire), (2, Run)]"

lemma event_linearizable_witness:
  "\<exists>s. event_run (sample_schedule @ [(1, Acquire), (1, Run), (0, Acquire), (0, Run)]) (event_init True) = Some s \<and>
     ce_log s = [(2, Op_set, Done), (1, Op_wait_for, Done)] \<and> ce_place s 0 = Sleeping Op_wait \<and>
     flag_run True False (ce_log s) = Some (ce_ready s)"
proof -
  obtain s where s: "event_run (sample_schedule @ [(1, Acquire), (1, Run), (0, Acquire), (0, Run)]) (event_init True) = Some s"
     "ce_log s = [(2, Op_set, Done), (1, Op_wait_for, Done)]" "ce_place s 0 = Sleeping Op_wait"
    by (simp add: sample_schedule_def event_init_def event_ops wait_answer_def)
  show ?thesis using event_linearizable [OF event_run_reach [OF event_reach.init s(1)]] s by blast
qed

lemma event_no_lost_wakeup_witness:
  "\<exists>s u. event_run sample_schedule (event_init True) = Some s \<and> ce_ready s \<and>
     event_run [(0, Acquire), (0, Run)] s = Some u \<and> ce_log u = [(2, Op_set, Done), (0, Op_wait, Done)]"
proof -
  obtain s where s: "event_run sample_schedule (event_init True) = Some s" "ce_ready s"
     "ce_log s = [(2, Op_set, Done)]" "ce_place s 0 = Locking Op_wait False" "ce_owner s = None"
    by (simp add: sample_schedule_def event_init_def event_ops)
  obtain u where "event_run [(0, Acquire), (0, Run)] s = Some u" "ce_log u = ce_log s @ [(0, Op_wait, Done)]"
    using event_no_lost_wakeup [OF event_run_reach [OF event_reach.init s(1)] s(2), of 0 Op_wait] s(4,5) by auto
  then show ?thesis using s by auto
qed

end
