(* ===== verification/Stop_Watch.thy ===== *)
theory Stop_Watch
  imports Prelude "HOL-Library.Signed_Division"
begin

section \<open>StopWatch\<close>

text \<open>
  Models \<^verbatim>\<open>src/epoll_server/stopwatch.h\<close>. The readings of the steady clock, in its ticks since the
  clock's epoch, come from a list. \<open>duration_cast\<close> is modelled for a 64-bit signed \<^verbatim>\<open>T\<close>.
\<close>

record watch =
  sw_last :: int
  sw_clock :: "int list"

type_synonym 'a watch_prog = "(watch, 'a) prog"

definition clock_now :: "int watch_prog" where
  "clock_now = (\<lambda>s. case sw_clock s of x # xs \<Rightarrow> (Ret x, s\<lparr>sw_clock := xs\<rparr>) | [] \<Rightarrow> (Fail Pending, s))"

definition watch_new :: "unit watch_prog" where
  "watch_new = bnd clock_now (\<lambda>now. modify (\<lambda>s. s\<lparr>sw_last := now\<rparr>))"

definition watch_reset :: "unit watch_prog" where
  "watch_reset = watch_new"

definition watch_elapsed :: "int watch_prog" where
  "watch_elapsed = bnd clock_now (\<lambda>now. bnd (gets sw_last) (\<lambda>l. ret (now - l)))"

definition watch_tick :: "int watch_prog" where
  "watch_tick = bnd clock_now (\<lambda>now. bnd (gets (\<lambda>s. now - sw_last s)) (\<lambda>elapsed.
     thn (modify (\<lambda>s. s\<lparr>sw_last := now\<rparr>)) (ret elapsed)))"

text \<open>The period is a fraction \<open>num / den\<close> of a second.\<close>

definition watch_duration_cast :: "int \<Rightarrow> int \<Rightarrow> int \<Rightarrow> ('s, int) prog" where
  "watch_duration_cast count num den =
     (if \<bar>count * num\<bar> < 2 ^ 63 then ret ((count * num) sdiv den) else fail (Undef Int_overflow))"

subsection \<open>Properties\<close>

text \<open>The ticks of a watch, one after another.\<close>

primrec watch_ticks :: "nat \<Rightarrow> int list watch_prog" where
  "watch_ticks 0 = ret []"
| "watch_ticks (Suc n) = bnd watch_tick (\<lambda>d. bnd (watch_ticks n) (\<lambda>ds. ret (d # ds)))"

text \<open>The ticks add up to the time between the last one and the start, and none is negative when the clock
  never goes back.\<close>

lemma watch_ticks_sum:
  assumes "length xs = n" "sorted (sw_last s # xs)" "sw_clock s = xs @ ys"
  shows "\<exists>ds. watch_ticks n s = (Ret ds, s\<lparr>sw_last := last (sw_last s # xs), sw_clock := ys\<rparr>) \<and>
    length ds = n \<and> sum_list ds = last (sw_last s # xs) - sw_last s \<and> (\<forall>d \<in> set ds. 0 \<le> d)"
  using assms
proof (induction n arbitrary: s xs)
  case (Suc n)
  then obtain x zs where xs: "xs = x # zs" "length zs = n" by (cases xs) auto
  let ?u = "s\<lparr>sw_clock := zs @ ys, sw_last := x\<rparr>"
  have "\<exists>ds. watch_ticks n ?u = (Ret ds, ?u\<lparr>sw_last := last (sw_last ?u # zs), sw_clock := ys\<rparr>) \<and>
      length ds = n \<and> sum_list ds = last (sw_last ?u # zs) - sw_last ?u \<and> (\<forall>d \<in> set ds. 0 \<le> d)"
    by (rule Suc.IH) (use Suc.prems xs in auto)
  then obtain ds where ds: "watch_ticks n ?u = (Ret ds, s\<lparr>sw_last := last (x # zs), sw_clock := ys\<rparr>)"
      "length ds = n" "sum_list ds = last (x # zs) - x" "\<forall>d \<in> set ds. 0 \<le> d" by auto
  have "watch_tick s = (Ret (x - sw_last s), ?u)"
    using Suc.prems(3) xs by (simp add: watch_tick_def clock_now_def bnd_apply thn_apply)
  then show ?case
    using ds xs Suc.prems(2) by (intro exI [of _ "(x - sw_last s) # ds"]) (auto simp: bnd_apply)
qed (auto simp: ret_def)

text \<open>A duration in nanoseconds becomes whole seconds.\<close>

lemma duration_cast_seconds:
  assumes "0 \<le> c" "c < 2 ^ 63"
  shows "watch_duration_cast c 1 1000000000 s = (Ret (c div 1000000000), s)"
  using assms by (cases "c = 0") (simp_all add: watch_duration_cast_def ret_def signed_divide_int_def)

end
