(* ===== verification/Singleton.thy ===== *)
theory Singleton
  imports Prelude
begin

section \<open>Singleton\<close>

text \<open>
  Models \<^verbatim>\<open>src/epoll_server/singleton.h\<close>, the class template that makes one object on the first call of
  \<^verbatim>\<open>get\<close>. \<^verbatim>\<open>boost::call_once\<close> with its flag and the constructor of \<^verbatim>\<open>T\<close>
  are arguments: \<open>co\<close> runs a program at most once, \<open>ctor\<close> is the constructor, which works on an outer state and may throw.
  What the documentation of \<^verbatim>\<open>call_once\<close> promises is \<open>once_law\<close>.
\<close>

record ('t, 'f, 'w) single =
  sg_pointer :: "nat option"
  sg_flag :: 'f
  sg_objects :: "nat \<Rightarrow> 't option"
  sg_next :: nat
  sg_outer :: 'w

type_synonym ('t, 'f, 'w, 'a) single_prog = "(('t, 'f, 'w) single, 'a) prog"

text \<open>\<^verbatim>\<open>m_pointer.reset(p)\<close> deletes the object that it held.\<close>

definition scoped_reset :: "nat \<Rightarrow> ('t, 'f, 'w, unit) single_prog" where
  "scoped_reset p = modify (\<lambda>s. s\<lparr>sg_pointer := Some p, sg_objects := (case sg_pointer s of
       None \<Rightarrow> sg_objects s
     | Some q \<Rightarrow> if q = p then sg_objects s else (sg_objects s)(q := None))\<rparr>)"

definition single_initialize :: "('w, 't) prog \<Rightarrow> ('t, 'f, 'w, unit) single_prog" where
  "single_initialize ctor = bnd (zoom sg_outer (\<lambda>w s. s\<lparr>sg_outer := w\<rparr>) ctor) (\<lambda>x.
     bnd (gets sg_next) (\<lambda>p.
     thn (modify (\<lambda>s. s\<lparr>sg_objects := (sg_objects s)(p := Some x), sg_next := Suc p\<rparr>)) (scoped_reset p)))"

definition single_get ::
  "(('t, 'f, 'w, unit) single_prog \<Rightarrow> ('t, 'f, 'w, unit) single_prog) \<Rightarrow> ('w, 't) prog \<Rightarrow> ('t, 'f, 'w, nat option) single_prog" where
  "single_get co ctor = thn (co (single_initialize ctor)) (gets sg_pointer)"

definition single_start :: "'f \<Rightarrow> 'w \<Rightarrow> ('t, 'f, 'w) single" where
  "single_start fl w = \<lparr>sg_pointer = None, sg_flag = fl, sg_objects = Map.empty, sg_next = 0, sg_outer = w\<rparr>"

subsection \<open>The promise of \<open>call_once\<close>\<close>

text \<open>A program that has returned once is not run again; one that throws has not run.\<close>

definition once_law ::
  "(('t, 'f, 'w, unit) single_prog \<Rightarrow> ('t, 'f, 'w, unit) single_prog) \<Rightarrow> ('f \<Rightarrow> bool) \<Rightarrow> bool" where
  "once_law co fired \<longleftrightarrow> (\<forall>m s. if fired (sg_flag s) then co m s = (Ret (), s)
     else (case m s of (out, t) \<Rightarrow> \<exists>fl. co m s = (out, t\<lparr>sg_flag := fl\<rparr>) \<and> (fired fl \<longleftrightarrow> out = Ret ())))"

text \<open>Several calls of \<open>get\<close> one after the other, whose exceptions the callers catch.\<close>

primrec gets_in_turn :: "(('t, 'f, 'w, unit) single_prog \<Rightarrow> ('t, 'f, 'w, unit) single_prog) \<Rightarrow> ('w, 't) prog \<Rightarrow> nat \<Rightarrow>
    ('t, 'f, 'w) single \<Rightarrow> nat option outcome list \<times> ('t, 'f, 'w) single" where
  "gets_in_turn co ctor 0 s = ([], s)"
| "gets_in_turn co ctor (Suc n) s = (case single_get co ctor s of
     (out, t) \<Rightarrow> (case gets_in_turn co ctor n t of (outs, u) \<Rightarrow> (out # outs, u)))"

definition single_ok :: "('f \<Rightarrow> bool) \<Rightarrow> ('t, 'f, 'w) single \<Rightarrow> bool" where
  "single_ok fired s \<longleftrightarrow> (case sg_pointer s of
       None \<Rightarrow> \<not> fired (sg_flag s) \<and> sg_next s = 0 \<and> sg_objects s = Map.empty
     | Some p \<Rightarrow> fired (sg_flag s) \<and> p = 0 \<and> (\<exists>x. sg_objects s = [0 \<mapsto> x]))"

lemma single_initialize_apply:
  assumes "sg_pointer s = None" "sg_next s = 0" "sg_objects s = Map.empty"
  shows "single_initialize ctor s = (case ctor (sg_outer s) of
      (Ret x, w) \<Rightarrow> (Ret (), s\<lparr>sg_pointer := Some 0, sg_objects := [0 \<mapsto> x], sg_next := 1, sg_outer := w\<rparr>)
    | (Fail e, w) \<Rightarrow> (Fail e, s\<lparr>sg_outer := w\<rparr>))"
  using assms
  by (cases s) (simp add: single_initialize_def scoped_reset_def bnd_apply thn_apply zoom_apply split: prod.split outcome.split)

lemma single_get_ran:
  assumes "once_law co fired" "single_ok fired s" "sg_pointer s = Some p"
  shows "single_get co ctor s = (Ret (Some p), s)"
proof -
  have "fired (sg_flag s)" using assms(2,3) by (simp add: single_ok_def)
  then have "co (single_initialize ctor) s = (Ret (), s)" using assms(1) by (simp add: once_law_def)
  then show ?thesis using assms(3) by (simp add: single_get_def)
qed

lemma once_law_first:
  assumes "once_law co fired" "\<not> fired (sg_flag s)" "m s = (out, t)"
  shows "\<exists>fl. co m s = (out, t\<lparr>sg_flag := fl\<rparr>) \<and> (fired fl \<longleftrightarrow> out = Ret ())"
proof -
  have "if fired (sg_flag s) then co m s = (Ret (), s)
     else (case m s of (out, t) \<Rightarrow> \<exists>fl. co m s = (out, t\<lparr>sg_flag := fl\<rparr>) \<and> (fired fl \<longleftrightarrow> out = Ret ()))"
    using assms(1) unfolding once_law_def by blast
  then show ?thesis using assms(2,3) by simp
qed

lemma single_get_first:
  assumes "once_law co fired" "single_ok fired s" "sg_pointer s = None"
  shows "\<exists>t. single_ok fired t \<and> (case ctor (sg_outer s) of
      (Ret x, w) \<Rightarrow> single_get co ctor s = (Ret (Some 0), t) \<and> sg_pointer t = Some 0 \<and> sg_objects t = [0 \<mapsto> x] \<and> sg_outer t = w
    | (Fail e, w) \<Rightarrow> single_get co ctor s = (Fail e, t) \<and> sg_pointer t = None \<and> sg_outer t = w)"
proof -
  have s: "\<not> fired (sg_flag s)" "sg_next s = 0" "sg_objects s = Map.empty" using assms(2,3) by (simp_all add: single_ok_def)
  note i = single_initialize_apply [OF assms(3) s(2,3), of ctor]
  obtain out w where m: "ctor (sg_outer s) = (out, w)" by (rule prod.exhaust)
  show ?thesis
  proof (cases out)
    case (Ret x)
    let ?u = "s\<lparr>sg_pointer := Some 0, sg_objects := [0 \<mapsto> x], sg_next := 1, sg_outer := w\<rparr>"
    obtain fl where fl: "co (single_initialize ctor) s = (Ret (), ?u\<lparr>sg_flag := fl\<rparr>)" "fired fl"
      using once_law_first [OF assms(1) s(1), of "single_initialize ctor" "Ret ()" ?u] i m Ret by auto
    then have "single_get co ctor s = (Ret (Some 0), ?u\<lparr>sg_flag := fl\<rparr>)" by (simp add: single_get_def)
    moreover have "single_ok fired (?u\<lparr>sg_flag := fl\<rparr>)" using fl(2) by (auto simp: single_ok_def)
    ultimately show ?thesis using m Ret by (intro exI [of _ "?u\<lparr>sg_flag := fl\<rparr>"]) simp
  next
    case (Fail e)
    let ?u = "s\<lparr>sg_outer := w\<rparr>"
    obtain fl where fl: "co (single_initialize ctor) s = (Fail e, ?u\<lparr>sg_flag := fl\<rparr>)" "\<not> fired fl"
      using once_law_first [OF assms(1) s(1), of "single_initialize ctor" "Fail e" ?u] i m Fail by auto
    then have "single_get co ctor s = (Fail e, ?u\<lparr>sg_flag := fl\<rparr>)" by (simp add: single_get_def)
    moreover have "single_ok fired (?u\<lparr>sg_flag := fl\<rparr>)" using fl(2) s assms(3) by (simp add: single_ok_def)
    ultimately show ?thesis using m Fail assms(3) by (intro exI [of _ "?u\<lparr>sg_flag := fl\<rparr>"]) simp
  qed
qed

text \<open>The calls after the first that returns, and the calls on an object that was not made yet.\<close>

lemma gets_in_turn_ran:
  assumes "once_law co fired" "single_ok fired s" "sg_pointer s = Some 0"
  shows "gets_in_turn co ctor n s = (replicate n (Ret (Some 0)), s)"
  using single_get_ran [OF assms] by (induction n) simp_all

definition thrown_then_same :: "nat \<Rightarrow> nat option outcome list \<Rightarrow> ('t, 'f, 'w) single \<Rightarrow> bool" where
  "thrown_then_same n outs s \<longleftrightarrow> (\<exists>k \<le> n. outs = take k outs @ replicate (n - k) (Ret (Some 0)) \<and>
     (\<forall>out \<in> set (take k outs). \<exists>e. out = Fail e) \<and> (k < n \<longrightarrow> (\<exists>x. sg_objects s = [0 \<mapsto> x])))"

lemma thrown_then_same_Fail:
  assumes "thrown_then_same n outs s"
  shows "thrown_then_same (Suc n) (Fail e # outs) s"
proof -
  obtain k where k: "k \<le> n" "outs = take k outs @ replicate (n - k) (Ret (Some 0))"
      "\<forall>out \<in> set (take k outs). \<exists>e. out = Fail e" "k < n \<longrightarrow> (\<exists>x. sg_objects s = [0 \<mapsto> x])"
    using assms unfolding thrown_then_same_def by blast
  have "Fail e # outs = take (Suc k) (Fail e # outs) @ replicate (Suc n - Suc k) (Ret (Some 0))"
    unfolding take_Suc_Cons append_Cons diff_Suc_Suc using k(2) by (rule arg_cong [of _ _ "(#) (Fail e)"])
  then show ?thesis unfolding thrown_then_same_def using k(1,3,4) by (intro exI [of _ "Suc k"]) simp
qed

lemma gets_in_turn_fresh:
  assumes "once_law co fired" "single_ok fired t" "sg_pointer t = None" "gets_in_turn co ctor n t = (outs, s)"
  shows "thrown_then_same n outs s"
  using assms(2-)
proof (induction n arbitrary: t outs)
  case 0
  then show ?case by (simp add: thrown_then_same_def)
next
  case (Suc n)
  obtain out w where m: "ctor (sg_outer t) = (out, w)" by (rule prod.exhaust)
  obtain u where u: "single_ok fired u" "case ctor (sg_outer t) of
      (Ret x, w) \<Rightarrow> single_get co ctor t = (Ret (Some 0), u) \<and> sg_pointer u = Some 0 \<and> sg_objects u = [0 \<mapsto> x] \<and> sg_outer u = w
    | (Fail e, w) \<Rightarrow> single_get co ctor t = (Fail e, u) \<and> sg_pointer u = None \<and> sg_outer u = w"
    using single_get_first [OF assms(1) Suc.prems(1,2), of ctor] by (elim exE conjE) (rule that)
  show ?case
  proof (cases out)
    case (Ret x)
    then have "single_get co ctor t = (Ret (Some 0), u)" "sg_pointer u = Some 0" "sg_objects u = [0 \<mapsto> x]" using u(2) m by simp_all
    then have "outs = replicate (Suc n) (Ret (Some 0)) \<and> s = u"
      using Suc.prems(3) gets_in_turn_ran [OF assms(1) u(1), of ctor n] by simp
    then show ?thesis using \<open>sg_objects u = [0 \<mapsto> x]\<close> by (auto simp: thrown_then_same_def intro!: exI [of _ 0])
  next
    case (Fail e)
    then have f: "single_get co ctor t = (Fail e, u)" "sg_pointer u = None" using u(2) m by simp_all
    obtain outs' where "gets_in_turn co ctor n u = (outs', s)" "outs = Fail e # outs'"
      using Suc.prems(3) f(1) by (auto split: prod.splits)
    then show ?thesis using Suc.IH [OF u(1) f(2)] thrown_then_same_Fail by simp
  qed
qed

text \<open>C40. The singleton: however often \<open>get\<close> is called, and however often the constructor throws, every call that returns
  gives the same pointer to the one object that was ever made, and after the first such call no other
  call throws or runs the constructor again. The hypothesis is the promise of \<^verbatim>\<open>call_once\<close>.\<close>

theorem single_get_once:
  assumes "once_law co fired" "\<not> fired fl" "gets_in_turn co ctor n (single_start fl w) = (outs, s)"
  shows "\<exists>k. outs = take k outs @ replicate (n - k) (Ret (Some 0)) \<and> k \<le> n \<and> (\<forall>out \<in> set (take k outs). \<exists>e. out = Fail e) \<and>
    (k < n \<longrightarrow> (\<exists>x. sg_objects s = [0 \<mapsto> x]))"
proof -
  have "thrown_then_same n outs s"
    using assms(2) by (intro gets_in_turn_fresh [OF assms(1) _ _ assms(3)]) (simp_all add: single_ok_def single_start_def)
  then show ?thesis unfolding thrown_then_same_def by blast
qed

subsection \<open>Witnesses\<close>

text \<open>A flag that is a truth value, and a constructor that throws the first time.\<close>

definition simple_once :: "('t, bool, 'w, unit) single_prog \<Rightarrow> ('t, bool, 'w, unit) single_prog" where
  "simple_once m = (\<lambda>s. if sg_flag s then (Ret (), s)
     else (case m s of (Ret x, t) \<Rightarrow> (Ret x, t\<lparr>sg_flag := True\<rparr>) | (Fail e, t) \<Rightarrow> (Fail e, t\<lparr>sg_flag := False\<rparr>)))"

definition second_time :: "(nat, nat) prog" where
  "second_time = bnd (gets id) (\<lambda>n. thn (modify Suc) (if n = 0 then throw_runtime ''first'' else ret n))"

lemma simple_once_law: "once_law simple_once (\<lambda>b. b)"
  unfolding once_law_def simple_once_def by (auto split: prod.split outcome.split)

lemma single_get_once_witness:
  "\<exists>outs s k. gets_in_turn simple_once second_time 3 (single_start False 0) = (outs, s) \<and>
     outs = take k outs @ replicate (3 - k) (Ret (Some 0)) \<and> sg_objects s = [0 \<mapsto> 1] \<and> sg_outer s = 2"
proof -
  let ?g = "gets_in_turn simple_once second_time 3 (single_start False 0)"
  have run: "fst ?g = [Fail (Thrown (Runtime_error ''first'')), Ret (Some 0), Ret (Some 0)] \<and>
      sg_objects (snd ?g) = [0 \<mapsto> 1] \<and> sg_outer (snd ?g) = 2"
    by (simp add: numeral_3_eq_3 single_start_def single_get_def simple_once_def single_initialize_def scoped_reset_def
        second_time_def thn_apply bnd_apply zoom_apply)
  obtain outs s where g: "?g = (outs, s)" by (rule prod.exhaust)
  obtain k where "outs = take k outs @ replicate (3 - k) (Ret (Some 0))"
    using single_get_once [OF simple_once_law _ g] by auto
  then show ?thesis using run unfolding g by (intro exI [of _ outs] exI [of _ s] exI [of _ k]) simp
qed

end
