(* ===== verification/Socket_Options.thy ===== *)
theory Socket_Options
  imports Server_Socket
begin

section \<open>The options of a socket\<close>

text \<open>
  The setters and getters of \<^verbatim>\<open>src/epoll_server/server_socket.cpp\<close> are made of one call of
  \<^verbatim>\<open>setsockopt\<close> or \<^verbatim>\<open>getsockopt\<close> each. The kernel keeps the options;
  what was set is read from the trace. This theory shows that the getter of a flag returns what its setter was given, whatever
  the program does with the socket in between, unless it sets the option again or closes the socket. The other options are not
  like that: Linux doubles the sizes of the buffers, for one.
\<close>

fun option_step :: "int \<Rightarrow> sockopt \<Rightarrow> syscall \<times> reply \<Rightarrow> optval option \<Rightarrow> optval option" where
  "option_step fd opt (Setsockopt f o' x, r) v = (if f = fd \<and> o' = opt \<and> rp_rc r = 0 then Some x else v)"
| "option_step fd opt (Close f, r) v = (if f = fd then None else v)"
| "option_step fd opt (Socket af ty pr, r) v = (if rp_rc r = fd then None else v)"
| "option_step fd opt (c, r) v = v"

definition option_set :: "int \<Rightarrow> sockopt \<Rightarrow> (syscall \<times> reply) list \<Rightarrow> optval option" where
  "option_set fd opt tr = fold (option_step fd opt) tr None"

text \<open>The options that are flags. What \<^verbatim>\<open>setsockopt(2)\<close> documents of them: a value other than 0 enables the option and
  0 disables it; so a successful \<^verbatim>\<open>getsockopt\<close> reads a value other than 0 exactly when the value set last was not 0.\<close>

definition flag_options :: "sockopt set" where
  "flag_options = {SO_REUSEADDR, SO_REUSEPORT, SO_KEEPALIVE, SO_OOBINLINE, SO_BROADCAST, TCP_NODELAY}"

fun enabled :: "optval option \<Rightarrow> bool option" where
  "enabled (Some (Int_val i)) = Some (i \<noteq> 0)"
| "enabled _ = None"

fun honest_reads :: "int \<Rightarrow> sockopt \<Rightarrow> optval option \<Rightarrow> (syscall \<times> reply) list \<Rightarrow> bool" where
  "honest_reads fd opt v [] \<longleftrightarrow> True"
| "honest_reads fd opt v (x # xs) \<longleftrightarrow>
     (fst x = Getsockopt fd opt \<and> rp_rc (snd x) = 0 \<and> v \<noteq> None \<longrightarrow> enabled (value_of (rp_data (snd x))) = enabled v) \<and>
     honest_reads fd opt (option_step fd opt x v) xs"

text \<open>The operations that set the option or end the socket.\<close>

fun changes_option :: "sockopt \<Rightarrow> sock_op \<Rightarrow> bool" where
  "changes_option opt S_close \<longleftrightarrow> True"
| "changes_option opt (S_set_raw_option o' v) \<longleftrightarrow> o' = opt"
| "changes_option opt (S_set_reuse_port flag) \<longleftrightarrow> opt = SO_REUSEPORT"
| "changes_option opt (S_bind port a) \<longleftrightarrow> a \<and> opt \<in> {SO_REUSEADDR, SO_REUSEPORT}"
| "changes_option opt (S_bind_reuse port a b) \<longleftrightarrow> a \<and> opt = SO_REUSEADDR \<or> b \<and> opt = SO_REUSEPORT"
| "changes_option opt (S_bind6 port a b v) \<longleftrightarrow> a \<and> opt = SO_REUSEADDR \<or> b \<and> opt = SO_REUSEPORT \<or> opt = IPV6_V6ONLY"
| "changes_option opt _ \<longleftrightarrow> False"

definition option_is :: "int \<Rightarrow> sockopt \<Rightarrow> optval \<Rightarrow> socket \<times> world \<Rightarrow> bool" where
  "option_is fd opt x s \<longleftrightarrow> fd \<noteq> INVALID_SOCKET \<and> sk_fd (fst s) = fd \<and> option_set fd opt (w_trace (snd s)) = Some x"

lemma option_set_append [simp]: "option_set fd opt (tr @ xs) = fold (option_step fd opt) xs (option_set fd opt tr)"
  by (simp add: option_set_def)

lemma honest_reads_append:
  "honest_reads fd opt v (xs @ ys) \<longleftrightarrow> honest_reads fd opt v xs \<and> honest_reads fd opt (fold (option_step fd opt) xs v) ys"
  by (induction xs arbitrary: v) auto

subsection \<open>Operations that leave the option\<close>

named_theorems option_rules \<open>programs that leave the option alone\<close>

definition quiet_call :: "sockopt \<Rightarrow> (int \<Rightarrow> syscall) \<Rightarrow> bool" where
  "quiet_call opt c \<longleftrightarrow> (\<forall>fd r v. option_step fd opt (c fd, r) v = v)"

lemma quiet_fold: "quiet_call opt c \<Longrightarrow> fold (option_step fd opt) (map (Pair (c fd)) rs) v = v"
  by (induction rs arbitrary: v) (auto simp: quiet_call_def)

lemma fd_call_option: "quiet_call opt c \<Longrightarrow> keeps (option_is fd opt x) (fd_call c)"
proof (rule keepsI)
  fix s assume p: "quiet_call opt c" "option_is fd opt x s"
  obtain sk w where s: "s = (sk, w)" by (rule prod.exhaust)
  show "option_is fd opt x (snd (fd_call c s))"
    by (rule sys_cases [of w "c (sk_fd sk)"])
      (use p in \<open>auto simp: s fd_call_apply option_is_def quiet_call_def\<close>)
qed

lemma fd_loop_option: "quiet_call opt c \<Longrightarrow> keeps (option_is fd opt x) (fd_loop again c)"
proof (rule keepsI)
  fix s assume p: "quiet_call opt c" "option_is fd opt x s"
  obtain sk w where s: "s = (sk, w)" by (rule prod.exhaust)
  obtain out w' where l: "sys_retry (again sk) (c (sk_fd sk)) w = (out, w')" by (rule prod.exhaust)
  obtain rs where "w_trace w' = w_trace w @ map (Pair (c (sk_fd sk))) rs"
  proof (cases out)
    case (Ret r)
    then obtain i where "w_trace w' = w_trace w @ map (Pair (c (sk_fd sk))) i @ [(c (sk_fd sk), r)]"
      using sys_retry_outcome [OF l] by auto
    then show thesis by (intro that [of "i @ [r]"]) simp
  next
    case (Fail e)
    then show thesis using sys_retry_outcome [OF l] that by auto
  qed
  then show "option_is fd opt x (snd (fd_loop again c s))"
    using p quiet_fold [OF p(1)] by (auto simp: s fd_loop_apply l option_is_def)
qed

lemma quiet_calls [simp]:
  "quiet_call opt (\<lambda>fd. Bind fd a)" "quiet_call opt (\<lambda>fd. Listen fd n)" "quiet_call opt Accept"
  "quiet_call opt (\<lambda>fd. Connect fd a)" "quiet_call opt (\<lambda>fd. Recv fd k fl)" "quiet_call opt (\<lambda>fd. Send fd xs fl)"
  "quiet_call opt (\<lambda>fd. Readv fd ns)" "quiet_call opt (\<lambda>fd. Writev fd xss)" "quiet_call opt (\<lambda>fd. Shutdown fd how)"
  "quiet_call opt (\<lambda>fd. Ioctl fd req)" "quiet_call opt (\<lambda>fd. Fcntl fd cmd)" "quiet_call opt (\<lambda>fd. Getsockopt fd p)"
  "quiet_call opt (\<lambda>fd. Setsockopt fd p y) = (p \<noteq> opt)"
  by (auto simp: quiet_call_def intro: exI [of _ "\<lparr>rp_rc = 0, rp_err = 0, rp_data = No_data\<rparr>"] exI [of _ None])

lemmas option_structure = keeps_ret keeps_fail keeps_throw keeps_gets keeps_bnd keeps_thn keeps_cond keeps_if keeps_catch
  keeps_prod keeps_option keeps_defined keeps_errors keeps_if_invalid keeps_make_addr keeps_run_only

lemma sock_init_option: "keeps (option_is fd opt x) (sock_init af)"
  by (rule keepsI) (auto simp: sock_init_def init_socket_def bnd_apply option_is_def)

lemma raw_option_option:
  "p \<noteq> opt \<Longrightarrow> keeps (option_is fd opt x) (set_raw_option p v)" "keeps (option_is fd opt x) (get_raw_option q b)"
  by (auto simp: set_raw_option_def get_raw_option_def intro!: option_structure fd_call_option)

lemma set_option_option:
  "p \<noteq> opt \<Longrightarrow> keeps (option_is fd opt x) (set_option p i)"
  "opt \<noteq> SO_REUSEADDR \<Longrightarrow> keeps (option_is fd opt x) (set_reuse_address flag)"
  "opt \<noteq> SO_REUSEPORT \<Longrightarrow> keeps (option_is fd opt x) (set_reuse_port flag)"
  by (auto simp: set_option_def set_reuse_address_def set_reuse_port_def set_flag_def intro!: option_structure raw_option_option)

lemma fcntl_option: "keeps (option_is fd opt x) (sock_fcntl c)"
  by (auto simp: sock_fcntl_def intro!: option_structure fd_call_option)

lemma set_blocking_option: "keeps (option_is fd opt x) (set_blocking flag)"
  by (auto simp: set_blocking_def Let_def option_is_def intro!: keeps_rules fcntl_option)

lemmas option_keeps = option_structure fd_call_option fd_loop_option sock_init_option raw_option_option set_option_option
  fcntl_option set_blocking_option

lemma bind_option:
  "\<not> changes_option opt (S_bind port a) \<Longrightarrow> keeps (option_is fd opt x) (sock_bind port a)"
  "\<not> changes_option opt (S_bind_reuse port a b) \<Longrightarrow> keeps (option_is fd opt x) (sock_bind_reuse port a b)"
  "\<not> changes_option opt (S_bind6 port a b v) \<Longrightarrow> keeps (option_is fd opt x) (sock_bind6_full port a b v)"
  by (auto simp: sock_bind_def sock_bind_reuse_def sock_bind6_full_def intro!: option_keeps)

lemma sock_exec_option: "\<not> changes_option opt op \<Longrightarrow> keeps (option_is fd opt x) (sock_exec op)"
  by (cases op)
    (auto simp: sock_shutdown_receive_def sock_shutdown_send_def sock_shutdown_def sock_receive_def sock_receive_vec_def
      sock_send_def sock_send_vec_def sock_accept_def sock_connect_def sock_connect_nb_def sock_listen_def sock_ioctl_def
      intro!: option_keeps bind_option split: option.split)

lemma sock_run_option: "\<forall>op \<in> set ops. \<not> changes_option opt op \<Longrightarrow> option_is fd opt x s \<Longrightarrow> option_is fd opt x (sock_run ops s)"
  by (induction ops arbitrary: s) (simp_all add: keepsD [OF sock_exec_option])

subsection \<open>Setting and reading\<close>

lemma set_raw_option_is:
  assumes "set_raw_option opt x s = (Ret (), t)" "sk_fd (fst s) \<noteq> INVALID_SOCKET"
  shows "option_is (sk_fd (fst s)) opt x t"
proof -
  obtain sk w where s: "s = (sk, w)" by (rule prod.exhaust)
  show ?thesis
    by (rule sys_cases [of w "Setsockopt (sk_fd sk) opt x"])
      (use assms in \<open>auto simp: s set_raw_option_def if_invalid_apply bnd_apply fd_call_apply option_is_def status_ok_def
        error_last_apply INVALID_SOCKET_def split: if_splits\<close>)
qed

lemma get_flag_reads:
  assumes "get_flag opt t = (Ret c, u)" "option_is fd opt x t"
  shows "\<exists>r i. w_trace (snd u) = w_trace (snd t) @ [(Getsockopt fd opt, r)] \<and> rp_rc r = 0 \<and>
     value_of (rp_data r) = Some (Int_val i) \<and> c = (i \<noteq> 0)"
proof -
  obtain sk w where t: "t = (sk, w)" by (rule prod.exhaust)
  have i: "sk_fd sk \<noteq> INVALID_SOCKET" "sk_fd sk = fd" using assms(2) by (auto simp: t option_is_def)
  have got: "\<exists>j. v = Some (Int_val j) \<and> c = (j \<noteq> 0)" if "defined Uninit_read (int_of_val v) z = (Ret j, z')" "c = (j \<noteq> 0)"
    for v j and z z' :: "socket \<times> world"
    using that by (cases v rule: int_of_val.cases) auto
  show ?thesis
  proof (rule sys_cases [of w "Getsockopt fd opt"])
    fix r rs assume r: "w_script w = r # rs" "reply_ok (Getsockopt fd opt) r"
        "sys (Getsockopt fd opt) w = (Ret r, answered (Getsockopt fd opt) r w)"
    let ?u = "(sk, answered (Getsockopt fd opt) r w)"
    have rc: "rp_rc r = 0"
      using assms(1) i r
      by (auto simp: t get_flag_def get_option_def get_raw_option_def if_invalid_apply bnd_apply fd_call_apply status_ok_def
          error_last_apply INVALID_SOCKET_def split: if_splits)
    then have "bnd (defined Uninit_read (int_of_val (value_of (rp_data r)))) (\<lambda>v. ret (v \<noteq> 0)) ?u = (Ret c, u)"
      using assms(1) i r
      by (auto simp: t get_flag_def get_option_def get_raw_option_def if_invalid_apply bnd_apply fd_call_apply INVALID_SOCKET_def)
    then obtain j where "value_of (rp_data r) = Some (Int_val j)" "c = (j \<noteq> 0)" "u = ?u"
      by (cases "value_of (rp_data r)" rule: int_of_val.cases) (auto simp: bnd_apply)
    then show ?thesis using rc t by simp
  next
    assume "sys (Getsockopt fd opt) w = (Fail Pending, w)"
    then show ?thesis
      using assms(1) i
      by (simp add: t get_flag_def get_option_def get_raw_option_def if_invalid_apply bnd_apply fd_call_apply INVALID_SOCKET_def)
  qed
qed

text \<open>C37. Round trip of the flags of a socket (reuse of the address and the port, keep alive, out of band data in line, broadcast, no
  delay): on a socket that holds a descriptor, when a flag was set and the call succeeded, and the program then runs any operations
  on the socket that neither set this option nor close the socket, however they end, and reads the flag: the value that
  was set last on the descriptor is still the one the setter was given, 1 or 0, the getter makes one call and returns whether it read a value other
  than 0, and that is the flag that was set if the kernel keeps flags as documented (\<open>honest_reads\<close>).\<close>

theorem option_roundtrip:
  assumes "sk_fd (fst s) \<noteq> INVALID_SOCKET" "opt \<in> flag_options" "\<forall>op \<in> set ops. \<not> changes_option opt op"
    and "set_flag opt flag s = (Ret (), t)" "get_flag opt (sock_run ops t) = (Ret c, u)"
  shows "\<exists>tr r i. w_trace (snd u) = tr @ [(Getsockopt (sk_fd (fst s)) opt, r)] \<and>
      option_set (sk_fd (fst s)) opt tr = Some (Int_val (if flag then 1 else 0)) \<and>
      value_of (rp_data r) = Some (Int_val i) \<and> c = (i \<noteq> 0) \<and>
      (honest_reads (sk_fd (fst s)) opt None (w_trace (snd u)) \<longrightarrow> c = flag)"
proof -
  let ?fd = "sk_fd (fst s)" and ?x = "Int_val (if flag then 1 else 0)" and ?v = "sock_run ops t"
  have "set_raw_option opt ?x s = (Ret (), t)" using assms(4) by (simp add: set_flag_def set_option_def)
  then have v: "option_is ?fd opt ?x ?v" using sock_run_option [OF assms(3) set_raw_option_is [OF _ assms(1)]] by blast
  obtain r i where r: "w_trace (snd u) = w_trace (snd ?v) @ [(Getsockopt ?fd opt, r)]" "rp_rc r = 0"
    "value_of (rp_data r) = Some (Int_val i)" "c = (i \<noteq> 0)"
    using get_flag_reads [OF assms(5) v] by blast
  have o: "option_set ?fd opt (w_trace (snd ?v)) = Some ?x" using v by (simp add: option_is_def)
  have "c = flag" if "honest_reads ?fd opt None (w_trace (snd u))"
    using that r o by (auto simp: honest_reads_append option_set_def split: if_splits)
  then show ?thesis using r o by blast
qed

subsection \<open>Witnesses\<close>

definition sample_option_replies :: "reply list" where
  "sample_option_replies = map (\<lambda>d. \<lparr>rp_rc = 0, rp_err = 0, rp_data = d\<rparr>) [No_data, No_data, No_data, Value (Int_val 4)]"

lemma option_roundtrip_witness:
  "\<exists>t u c. set_flag TCP_NODELAY True (socket_of 5, boot sample_option_replies) = (Ret (), t) \<and>
     get_flag TCP_NODELAY (sock_run [S_listen 20, S_set_raw_option SO_KEEPALIVE (Int_val 0)] t) = (Ret c, u) \<and> c"
proof -
  let ?s = "(socket_of 5, boot sample_option_replies)" and ?ops = "[S_listen 20, S_set_raw_option SO_KEEPALIVE (Int_val 0)]"
  let ?r = "\<lambda>d. \<lparr>rp_rc = 0, rp_err = 0, rp_data = d\<rparr>"
  let ?w = "answered (Setsockopt 5 TCP_NODELAY (Int_val 1)) (?r No_data) (boot sample_option_replies)"
  let ?v = "answered (Setsockopt 5 SO_KEEPALIVE (Int_val 0)) (?r No_data) (answered (Listen 5 20) (?r No_data) ?w)"
  let ?u = "answered (Getsockopt 5 TCP_NODELAY) (?r (Value (Int_val 4))) ?v"
  note run = if_invalid_apply bnd_apply fd_call_apply sys_reply status_ok_def INVALID_SOCKET_def socket_of_def sample_option_replies_def
  have t: "set_flag TCP_NODELAY True ?s = (Ret (), (socket_of 5, ?w))"
    by (simp add: set_flag_def set_option_def set_raw_option_def run)
  have v: "sock_run ?ops (socket_of 5, ?w) = (socket_of 5, ?v)"
    by (simp add: run_only_state sock_listen_def set_raw_option_def run)
  have "\<exists>c. get_flag TCP_NODELAY (socket_of 5, ?v) = (Ret c, (socket_of 5, ?u))"
    by (auto simp: get_flag_def get_option_def get_raw_option_def run)
  then obtain c where u: "get_flag TCP_NODELAY (socket_of 5, ?v) = (Ret c, (socket_of 5, ?u))" by blast
  have "honest_reads (sk_fd (fst ?s)) TCP_NODELAY None (w_trace ?u)" by (simp add: socket_of_def)
  moreover have "honest_reads (sk_fd (fst ?s)) TCP_NODELAY None (w_trace (snd (socket_of 5, ?u))) \<longrightarrow> c = True"
    using option_roundtrip [OF _ _ _ t u [folded v]] by (auto simp: socket_of_def INVALID_SOCKET_def flag_options_def)
  ultimately have c by simp
  then show ?thesis using t u v by (intro exI [of _ "(socket_of 5, ?w)"] exI [of _ "(socket_of 5, ?u)"] exI [of _ c]) simp
qed

end
