(* ===== verification/Observers.thy ===== *)
theory Observers
  imports Server_Socket
begin

section \<open>Notifications, observers and the notification center\<close>

text \<open>
  Models \<^verbatim>\<open>src/epoll_server/observer.h\<close>, \<^verbatim>\<open>notification.h\<close>,
  \<^verbatim>\<open>socket_notification.h\<close> and \<^verbatim>\<open>notification_center.cpp\<close>. Notifications and
  observers are objects on the heap: the environment \<open>env\<close> maps addresses to them, and a null
  pointer is \<open>None\<close>. A notification whose memory was freed is absent. Observers are held by
  \<^verbatim>\<open>shared_ptr\<close> and have trivial destructors, so the model does not free them.

  The member function that an observer calls is a parameter \<open>cb\<close>: given the object, the method
  and the notification it is a program on the whole environment, so that a callback may add and
  remove observers. \<open>observer_clone\<close> is what \<^verbatim>\<open>clone\<close> means to do; as written, its
  conversion of a plain pointer to a \<^verbatim>\<open>shared_ptr\<close> does not compile.
\<close>

subsection \<open>The classes of notifications\<close>

datatype note_kind = Plain_Note | Socket_Note | Readable_Note | Writable_Note | Error_Note
  | Timeout_Note | Idle_Note | Shutdown_Note

text \<open>\<^verbatim>\<open>dynamic_cast<N*>\<close> of an object of class \<open>k\<close> succeeds.\<close>

definition is_a :: "note_kind \<Rightarrow> note_kind \<Rightarrow> bool" where
  "is_a k n \<longleftrightarrow> n = k \<or> n = Plain_Note \<or> n = Socket_Note \<and> k \<noteq> Plain_Note"

record notification =
  nt_kind :: note_kind
  nt_socket :: socket

text \<open>The constructors, one for each class; the pointer to the reactor is never read. \<open>socket()\<close> returns
  a copy.\<close>

definition socket_note :: "note_kind \<Rightarrow> notification" where
  "socket_note k = \<lparr>nt_kind = k, nt_socket = socket_default\<rparr>"

definition readable_note :: notification where "readable_note = socket_note Readable_Note"
definition writable_note :: notification where "writable_note = socket_note Writable_Note"
definition error_note :: notification where "error_note = socket_note Error_Note"
definition timeout_note :: notification where "timeout_note = socket_note Timeout_Note"
definition idle_note :: notification where "idle_note = socket_note Idle_Note"
definition shutdown_note :: notification where "shutdown_note = socket_note Shutdown_Note"

definition note_socket :: "notification \<Rightarrow> socket" where
  "note_socket nt = nt_socket nt"

text \<open>\<open>ob_class\<close> stands for the template instance: \<^verbatim>\<open>Observer\<close> or
  \<^verbatim>\<open>NObserver\<close> and the class of the object.\<close>

record observer =
  ob_class :: nat
  ob_note :: note_kind
  ob_object :: "nat option"
  ob_method :: nat
  ob_mutex :: mutex

record center =
  nc_observers :: "nat list"
  nc_mutex :: mutex

record env =
  ev_notes :: "nat \<Rightarrow> notification option"
  ev_observers :: "nat \<Rightarrow> observer option"
  ev_next :: nat
  ev_centers :: "nat \<Rightarrow> center option"

type_synonym 'z callback = "nat \<Rightarrow> nat \<Rightarrow> nat \<Rightarrow> ('z env_scheme, unit) prog"

definition get_note :: "nat \<Rightarrow> ('z env_scheme, notification) prog" where
  "get_note p = bnd (gets (\<lambda>s. ev_notes s p)) (defined Use_after_free)"

definition get_observer :: "nat \<Rightarrow> ('z env_scheme, observer) prog" where
  "get_observer a = bnd (gets (\<lambda>s. ev_observers s a)) (defined Use_after_free)"

definition get_center :: "nat \<Rightarrow> ('z env_scheme, center) prog" where
  "get_center c = bnd (gets (\<lambda>s. ev_centers s c)) (defined Use_after_free)"

definition set_observer :: "nat \<Rightarrow> observer \<Rightarrow> 'z env_scheme \<Rightarrow> 'z env_scheme" where
  "set_observer a ob s = s\<lparr>ev_observers := (ev_observers s)(a := Some ob)\<rparr>"

definition set_center :: "nat \<Rightarrow> center \<Rightarrow> 'z env_scheme \<Rightarrow> 'z env_scheme" where
  "set_center c k s = s\<lparr>ev_centers := (ev_centers s)(c := Some k)\<rparr>"

subsection \<open>Observers\<close>

definition observer_of :: "nat \<Rightarrow> note_kind \<Rightarrow> nat \<Rightarrow> nat \<Rightarrow> observer" where
  "observer_of cls n obj method = \<lparr>ob_class = cls, ob_note = n, ob_object = Some obj,
     ob_method = method, ob_mutex = new_mutex Std_mutex\<rparr>"

text \<open>The copy constructor copies the members but not the mutex.\<close>

definition observer_copy :: "observer \<Rightarrow> observer" where
  "observer_copy ob = ob\<lparr>ob_mutex := new_mutex Std_mutex\<rparr>"

definition observer_assign :: "bool \<Rightarrow> observer \<Rightarrow> observer \<Rightarrow> observer" where
  "observer_assign same other this =
     (if \<not> same then this\<lparr>ob_object := ob_object other, ob_method := ob_method other\<rparr> else this)"

definition observer_clone :: "observer \<Rightarrow> ('z env_scheme, nat) prog" where
  "observer_clone ob =
     bnd (gets ev_next) (\<lambda>a.
     thn (modify (\<lambda>s. (set_observer a (observer_copy ob) s)\<lparr>ev_next := Suc a\<rparr>))
         (ret a))"

definition observer_equals :: "observer \<Rightarrow> observer \<Rightarrow> bool" where
  "observer_equals x y \<longleftrightarrow> ob_class x = ob_class y \<and> ob_note x = ob_note y \<and>
     ob_object x = ob_object y \<and> ob_method x = ob_method y"

text \<open>\<open>accepts\<close>; every call leaves the second parameter null.\<close>

definition observer_accepts :: "observer \<Rightarrow> nat option \<Rightarrow> ('z env_scheme, bool) prog" where
  "observer_accepts ob p = (case p of
       None \<Rightarrow> ret False
     | Some n \<Rightarrow> bnd (get_note n) (\<lambda>nt. ret (is_a (nt_kind nt) (ob_note ob))))"

definition observer_locked :: "nat \<Rightarrow> ('z env_scheme, 'a) prog \<Rightarrow> ('z env_scheme, 'a) prog" where
  "observer_locked a body = with_lock
     (\<lambda>s. case ev_observers s a of Some ob \<Rightarrow> ob_mutex ob | None \<Rightarrow> new_mutex Std_mutex)
     (\<lambda>m s. case ev_observers s a of Some ob \<Rightarrow> set_observer a (ob\<lparr>ob_mutex := m\<rparr>) s | None \<Rightarrow> s)
     body"

text \<open>\<open>notify\<close> holds the observer's mutex while the callback runs.\<close>

definition observer_notify :: "'z callback \<Rightarrow> nat \<Rightarrow> nat option \<Rightarrow> ('z env_scheme, unit) prog" where
  "observer_notify cb a p = observer_locked a
     (bnd (get_observer a) (\<lambda>ob. case ob_object ob of
        None \<Rightarrow> ret ()
      | Some obj \<Rightarrow> (case p of
            None \<Rightarrow> ret ()
          | Some n \<Rightarrow> bnd (observer_accepts ob (Some n)) (\<lambda>castable.
              if castable then cb obj (ob_method ob) n else ret ()))))"

definition observer_disable :: "nat \<Rightarrow> ('z env_scheme, unit) prog" where
  "observer_disable a = observer_locked a
     (bnd (get_observer a) (\<lambda>ob. modify (set_observer a (ob\<lparr>ob_object := None\<rparr>))))"

text \<open>The second template. Its \<open>notify\<close> wraps the notification in a \<^verbatim>\<open>shared_ptr\<close> with the deleter
  \<^verbatim>\<open>true\<close>, which does not compile; it is taken to hand on the pointer as \<open>observer_notify\<close> does.\<close>

definition nobserver_of :: "nat \<Rightarrow> note_kind \<Rightarrow> nat \<Rightarrow> nat \<Rightarrow> observer" where
  "nobserver_of cls n obj method = \<lparr>ob_class = cls, ob_note = n, ob_object = Some obj,
     ob_method = method, ob_mutex = new_mutex Std_mutex\<rparr>"

definition nobserver_copy :: "observer \<Rightarrow> observer" where
  "nobserver_copy ob = ob\<lparr>ob_mutex := new_mutex Std_mutex\<rparr>"

definition nobserver_assign :: "bool \<Rightarrow> observer \<Rightarrow> observer \<Rightarrow> observer" where
  "nobserver_assign same other this =
     (if \<not> same then this\<lparr>ob_object := ob_object other, ob_method := ob_method other\<rparr> else this)"

definition nobserver_equals :: "observer \<Rightarrow> observer \<Rightarrow> bool" where
  "nobserver_equals x y \<longleftrightarrow> ob_class x = ob_class y \<and> ob_note x = ob_note y \<and>
     ob_object x = ob_object y \<and> ob_method x = ob_method y"

definition nobserver_accepts :: "observer \<Rightarrow> nat option \<Rightarrow> ('z env_scheme, bool) prog" where
  "nobserver_accepts ob p = (case p of
       None \<Rightarrow> ret False
     | Some n \<Rightarrow> bnd (get_note n) (\<lambda>nt. ret (is_a (nt_kind nt) (ob_note ob))))"

definition nobserver_disable :: "nat \<Rightarrow> ('z env_scheme, unit) prog" where
  "nobserver_disable a = observer_locked a
     (bnd (get_observer a) (\<lambda>ob. modify (set_observer a (ob\<lparr>ob_object := None\<rparr>))))"

text \<open>So one record and one set of operations stand for both templates.\<close>

lemma nobserver_same:
  "nobserver_of = observer_of" "nobserver_copy = observer_copy" "nobserver_assign = observer_assign"
  "nobserver_equals = observer_equals" "nobserver_accepts = observer_accepts" "nobserver_disable = observer_disable"
  by (intro ext; simp add: nobserver_of_def observer_of_def nobserver_copy_def observer_copy_def nobserver_assign_def
      observer_assign_def nobserver_equals_def observer_equals_def nobserver_accepts_def observer_accepts_def
      nobserver_disable_def observer_disable_def)+

subsection \<open>NotificationCenter\<close>

definition center_new :: center where
  "center_new = \<lparr>nc_observers = [], nc_mutex = new_mutex Std_mutex\<rparr>"

definition center_locked :: "nat \<Rightarrow> ('z env_scheme, 'a) prog \<Rightarrow> ('z env_scheme, 'a) prog" where
  "center_locked c body = with_lock
     (\<lambda>s. case ev_centers s c of Some k \<Rightarrow> nc_mutex k | None \<Rightarrow> new_mutex Std_mutex)
     (\<lambda>m s. case ev_centers s c of Some k \<Rightarrow> set_center c (k\<lparr>nc_mutex := m\<rparr>) s | None \<Rightarrow> s)
     body"

definition set_observers :: "nat \<Rightarrow> nat list \<Rightarrow> ('z env_scheme, unit) prog" where
  "set_observers c as = bnd (get_center c) (\<lambda>k. modify (set_center c (k\<lparr>nc_observers := as\<rparr>)))"

definition nc_add :: "nat \<Rightarrow> observer \<Rightarrow> ('z env_scheme, unit) prog" where
  "nc_add c ob = center_locked c
     (bnd (observer_clone ob) (\<lambda>a.
      bnd (get_center c) (\<lambda>k. set_observers c (nc_observers k @ [a]))))"

text \<open>The loop of \<open>removeObserver\<close>, over the part of the list that is left; \<open>seen\<close> is the part
  before it.\<close>

primrec remove_loop :: "nat \<Rightarrow> observer \<Rightarrow> nat list \<Rightarrow> nat list \<Rightarrow> ('z env_scheme, unit) prog" where
  "remove_loop c ob seen [] = ret ()"
| "remove_loop c ob seen (a # as) =
     bnd (get_observer a) (\<lambda>x.
       if observer_equals ob x
       then thn (observer_disable a) (set_observers c (seen @ as))
       else remove_loop c ob (seen @ [a]) as)"

definition nc_remove :: "nat \<Rightarrow> observer \<Rightarrow> ('z env_scheme, unit) prog" where
  "nc_remove c ob = center_locked c
     (bnd (get_center c) (\<lambda>k. remove_loop c ob [] (nc_observers k)))"

primrec has_loop :: "observer \<Rightarrow> nat list \<Rightarrow> ('z env_scheme, bool) prog" where
  "has_loop ob [] = ret False"
| "has_loop ob (a # as) =
     bnd (get_observer a) (\<lambda>x. if observer_equals ob x then ret True else has_loop ob as)"

definition nc_has :: "nat \<Rightarrow> observer \<Rightarrow> ('z env_scheme, bool) prog" where
  "nc_has c ob = center_locked c (bnd (get_center c) (\<lambda>k. has_loop ob (nc_observers k)))"

definition nc_has_any :: "nat \<Rightarrow> ('z env_scheme, bool) prog" where
  "nc_has_any c = center_locked c (bnd (get_center c) (\<lambda>k. ret (nc_observers k \<noteq> [])))"

definition nc_count :: "nat \<Rightarrow> ('z env_scheme, nat) prog" where
  "nc_count c = center_locked c (bnd (get_center c) (\<lambda>k. ret (length (nc_observers k))))"

primrec notify_all :: "'z callback \<Rightarrow> nat option \<Rightarrow> nat list \<Rightarrow> ('z env_scheme, unit) prog" where
  "notify_all cb p [] = ret ()"
| "notify_all cb p (a # as) = thn (observer_notify cb a p) (notify_all cb p as)"

definition nc_post :: "'z callback \<Rightarrow> nat \<Rightarrow> nat option \<Rightarrow> ('z env_scheme, unit) prog" where
  "nc_post cb c p =
     bnd (center_locked c (bnd (get_center c) (\<lambda>k. ret (nc_observers k)))) (\<lambda>as. notify_all cb p as)"

subsection \<open>Well-formed centers\<close>

lemma set_simps [simp]:
  "ev_centers (set_center c k s) = (ev_centers s)(c := Some k)"
  "ev_observers (set_center c k s) = ev_observers s"
  "ev_next (set_center c k s) = ev_next s"
  "ev_notes (set_center c k s) = ev_notes s"
  "env.more (set_center c k s) = env.more s"
  "ev_centers (set_observer a ob s) = ev_centers s"
  "ev_observers (set_observer a ob s) = (ev_observers s)(a := Some ob)"
  "ev_next (set_observer a ob s) = ev_next s"
  "ev_notes (set_observer a ob s) = ev_notes s"
  "env.more (set_observer a ob s) = env.more s"
  by (simp_all add: set_center_def set_observer_def)

definition observer_id :: "observer \<Rightarrow> nat \<times> note_kind \<times> nat option \<times> nat" where
  "observer_id ob = (ob_class ob, ob_note ob, ob_object ob, ob_method ob)"

lemma observer_equals_id: "observer_equals x y \<longleftrightarrow> observer_id x = observer_id y"
  by (simp add: observer_equals_def observer_id_def)

lemma observer_id_copy [simp]: "observer_id (observer_copy ob) = observer_id ob"
  "observer_id (ob\<lparr>ob_mutex := m\<rparr>) = observer_id ob"
  by (simp_all add: observer_id_def observer_copy_def)

text \<open>The observers of a center are distinct objects whose mutexes are free.\<close>

definition free_observer :: "'z env_scheme \<Rightarrow> nat \<Rightarrow> bool" where
  "free_observer s a \<longleftrightarrow> a < ev_next s \<and> (\<exists>ob. ev_observers s a = Some ob \<and> m_depth (ob_mutex ob) = 0)"

definition center_ok :: "'z env_scheme \<Rightarrow> nat \<Rightarrow> bool" where
  "center_ok s c \<longleftrightarrow> (\<exists>k. ev_centers s c = Some k \<and> m_depth (nc_mutex k) = 0 \<and>
     distinct (nc_observers k) \<and> (\<forall>a\<in>set (nc_observers k). free_observer s a))"

definition nc_list :: "'z env_scheme \<Rightarrow> nat \<Rightarrow> nat list" where
  "nc_list s c = (case ev_centers s c of Some k \<Rightarrow> nc_observers k | None \<Rightarrow> [])"

definition id_at :: "'z env_scheme \<Rightarrow> nat \<Rightarrow> nat \<times> note_kind \<times> nat option \<times> nat" where
  "id_at s a = (case ev_observers s a of Some ob \<Rightarrow> observer_id ob | None \<Rightarrow> (0, Plain_Note, None, 0))"

text \<open>The abstract value of a center: the identities of its observers, in order.\<close>

definition nc_ids :: "'z env_scheme \<Rightarrow> nat \<Rightarrow> (nat \<times> note_kind \<times> nat option \<times> nat) list" where
  "nc_ids s c = map (id_at s) (nc_list s c)"

lemma free_depth [simp]: "m_depth m = 0 \<Longrightarrow> can_lock m"
  by (simp add: can_lock_def)

lemma center_locked_Ret:
  assumes "ev_centers s c = Some k" "can_lock (nc_mutex k)"
    and "m (set_center c (k\<lparr>nc_mutex := locked (nc_mutex k)\<rparr>) s) = (Ret x, t)"
    and "ev_centers t c = Some k'" "nc_mutex k' = locked (nc_mutex k)"
  shows "center_locked c m s = (Ret x, set_center c (k'\<lparr>nc_mutex := nc_mutex k\<rparr>) t)"
  using assms by (simp add: center_locked_def with_lock_free)

lemma get_center_apply [simp]:
  "ev_centers s c = Some k \<Longrightarrow> get_center c s = (Ret k, s)"
  by (simp add: get_center_def bnd_def)

lemma get_observer_apply [simp]:
  "ev_observers s a = Some ob \<Longrightarrow> get_observer a s = (Ret ob, s)"
  by (simp add: get_observer_def bnd_def)

text \<open>What a change of a center leaves alone.\<close>

definition env_frame :: "nat \<Rightarrow> 'z env_scheme \<Rightarrow> 'z env_scheme \<Rightarrow> bool" where
  "env_frame c s t \<longleftrightarrow> ev_notes t = ev_notes s \<and> env.more t = env.more s \<and>
     (\<forall>d. d \<noteq> c \<longrightarrow> ev_centers t d = ev_centers s d)"

lemma nc_add_spec:
  assumes "center_ok s c"
  obtains t where "nc_add c ob s = (Ret (), t)" "center_ok t c"
    "nc_ids t c = nc_ids s c @ [observer_id ob]" "env_frame c s t"
    "nc_list t c = nc_list s c @ [ev_next s]" "ev_next t = Suc (ev_next s)"
    "\<And>a. a \<noteq> ev_next s \<Longrightarrow> ev_observers t a = ev_observers s a"
proof -
  obtain k where k: "ev_centers s c = Some k" "m_depth (nc_mutex k) = 0" "distinct (nc_observers k)"
    "\<forall>a\<in>set (nc_observers k). free_observer s a"
    using assms by (auto simp: center_ok_def)
  let ?kl = "k\<lparr>nc_mutex := locked (nc_mutex k)\<rparr>"
  let ?a = "ev_next s"
  let ?t1 = "(set_observer ?a (observer_copy ob) (set_center c ?kl s))\<lparr>ev_next := Suc ?a\<rparr>"
  let ?k' = "?kl\<lparr>nc_observers := nc_observers k @ [?a]\<rparr>"
  let ?t = "set_center c (?k'\<lparr>nc_mutex := nc_mutex k\<rparr>) (set_center c ?k' ?t1)"
  have run: "nc_add c ob s = (Ret (), ?t)"
    unfolding nc_add_def
    by (rule center_locked_Ret [OF k(1)])
      (use k(2) in \<open>simp_all add: bnd_def observer_clone_def thn_def set_observers_def\<close>)
  have fresh: "?a \<notin> set (nc_observers k)" using k(4) by (auto simp: free_observer_def)
  have ids: "id_at ?t a = id_at s a" if "a \<in> set (nc_observers k)" for a
    using that fresh by (auto simp: id_at_def)
  have "nc_ids ?t c = nc_ids s c @ [observer_id ob]"
    using ids k(1) by (simp add: nc_ids_def nc_list_def) (simp add: id_at_def)
  moreover have "center_ok ?t c"
    using k fresh by (auto simp: center_ok_def free_observer_def observer_copy_def new_mutex_def)
  ultimately show thesis
    using that [OF run] k(1) by (simp add: env_frame_def nc_list_def)
qed

lemma set_observer_twice [simp]: "set_observer a x (set_observer a y s) = set_observer a x s"
  by (simp add: set_observer_def)

lemma set_center_twice [simp]: "set_center c x (set_center c y s) = set_center c x s"
  by (simp add: set_center_def)

lemma observer_disable_spec:
  "ev_observers s a = Some ob \<Longrightarrow> m_depth (ob_mutex ob) = 0 \<Longrightarrow>
     observer_disable a s = (Ret (), set_observer a (ob\<lparr>ob_object := None\<rparr>) s)"
  by (simp add: observer_disable_def observer_locked_def with_lock_free on_exit_def bnd_def)

lemma find_Some_in: "find P xs = Some a \<Longrightarrow> a \<in> set xs \<and> P a"
  by (induction xs) (auto split: if_splits)

lemma remove_loop_spec:
  assumes "ev_centers s c = Some k" "\<forall>a\<in>set as. free_observer s a"
  shows "remove_loop c ob seen as s = (Ret (),
     case find (\<lambda>a. id_at s a = observer_id ob) as of
       None \<Rightarrow> s
     | Some a \<Rightarrow> set_center c (k\<lparr>nc_observers := seen @ remove1 a as\<rparr>)
         (set_observer a ((the (ev_observers s a))\<lparr>ob_object := None\<rparr>) s))"
  using assms
proof (induction as arbitrary: seen)
  case (Cons a as)
  obtain x where x: "ev_observers s a = Some x" "m_depth (ob_mutex x) = 0"
    using Cons.prems(2) by (auto simp: free_observer_def)
  have ida: "id_at s a = observer_id x" using x(1) by (simp add: id_at_def)
  show ?case
  proof (cases "observer_equals ob x")
    case True
    then show ?thesis
      using x ida Cons.prems(1)
      by (simp add: bnd_def thn_def observer_disable_spec set_observers_def observer_equals_id)
  next
    case False
    then have ne: "id_at s a \<noteq> observer_id ob" using ida by (simp add: observer_equals_id)
    have "remove_loop c ob seen (a # as) s = remove_loop c ob (seen @ [a]) as s"
      using x False by (simp add: bnd_def)
    also have "\<dots> = (Ret (), case find (\<lambda>a. id_at s a = observer_id ob) as of
       None \<Rightarrow> s
     | Some b \<Rightarrow> set_center c (k\<lparr>nc_observers := (seen @ [a]) @ remove1 b as\<rparr>)
         (set_observer b ((the (ev_observers s b))\<lparr>ob_object := None\<rparr>) s))"
      using Cons.IH [of "seen @ [a]"] Cons.prems by simp
    finally have run: "remove_loop c ob seen (a # as) s = \<dots>" .
    show ?thesis
    proof (cases "find (\<lambda>a. id_at s a = observer_id ob) as")
      case None
      then show ?thesis using run ne by (simp del: remove_loop.simps)
    next
      case (Some b)
      then have "b \<noteq> a" using find_Some_in [OF Some] ne by auto
      then show ?thesis using run ne Some by (simp del: remove_loop.simps)
    qed
  qed
qed simp

lemma find_remove1_map:
  "distinct as \<Longrightarrow> find (\<lambda>a. f a = v) as = Some a \<Longrightarrow> map f (remove1 a as) = remove1 v (map f as)"
  by (induction as) (auto split: if_splits dest: find_Some_in)

lemma find_None_remove1: "find (\<lambda>a. f a = v) as = None \<Longrightarrow> remove1 v (map f as) = map f as"
  by (induction as) (auto split: if_splits)

lemma nc_remove_spec:
  assumes "center_ok s c"
  obtains t where "nc_remove c ob s = (Ret (), t)" "center_ok t c"
    "nc_ids t c = remove1 (observer_id ob) (nc_ids s c)" "env_frame c s t" "ev_next t = ev_next s"
    "\<And>a x. ev_observers t a = Some x \<Longrightarrow> a \<in> set (nc_list t c) \<Longrightarrow> ev_observers s a = Some x"
    "length (nc_list t c) = (if observer_id ob \<in> set (nc_ids s c) then length (nc_list s c) - 1 else length (nc_list s c))"
    "\<And>a. find (\<lambda>a. id_at s a = observer_id ob) (nc_list s c) = Some a \<Longrightarrow>
       ev_observers t a = Some ((the (ev_observers s a))\<lparr>ob_object := None\<rparr>)"
proof -
  obtain k where k: "ev_centers s c = Some k" "m_depth (nc_mutex k) = 0" "distinct (nc_observers k)"
    "\<forall>a\<in>set (nc_observers k). free_observer s a"
    using assms by (auto simp: center_ok_def)
  let ?kl = "k\<lparr>nc_mutex := locked (nc_mutex k)\<rparr>"
  let ?s = "set_center c ?kl s"
  have idl: "id_at ?s = id_at s" by (simp add: fun_eq_iff id_at_def)
  have fl: "\<forall>a\<in>set (nc_observers k). free_observer ?s a" using k(4) by (simp add: free_observer_def)
  let ?f = "find (\<lambda>a. id_at s a = observer_id ob) (nc_observers k)"
  have loop: "bnd (get_center c) (\<lambda>k. remove_loop c ob [] (nc_observers k)) ?s = (Ret (),
     case ?f of None \<Rightarrow> ?s
     | Some a \<Rightarrow> set_center c (?kl\<lparr>nc_observers := remove1 a (nc_observers k)\<rparr>)
         (set_observer a ((the (ev_observers s a))\<lparr>ob_object := None\<rparr>) ?s))"
    using remove_loop_spec [of ?s c ?kl "nc_observers k" ob "[]"] fl idl
    by (simp add: bnd_def split: option.split)
  have lst: "nc_list s c = nc_observers k" using k(1) by (simp add: nc_list_def)
  show thesis
  proof (cases ?f)
    case None
    have "nc_remove c ob s = (Ret (), set_center c (?kl\<lparr>nc_mutex := nc_mutex k\<rparr>) ?s)"
      unfolding nc_remove_def by (rule center_locked_Ret [OF k(1)]) (use k(2) loop None in auto)
    moreover have "set_center c (?kl\<lparr>nc_mutex := nc_mutex k\<rparr>) ?s = s"
      using k(1) by (simp add: set_center_def fun_upd_idem)
    ultimately have run: "nc_remove c ob s = (Ret (), s)" by simp
    have "observer_id ob \<notin> set (nc_ids s c)"
      using None lst by (auto simp: nc_ids_def find_None_iff)
    then show thesis
      using that [OF run] assms None lst
      by (auto simp: remove1_idem env_frame_def)
  next
    case (Some a)
    have a: "a \<in> set (nc_observers k)" "id_at s a = observer_id ob"
      using Some by (auto simp: find_Some_iff)
    obtain x where x: "ev_observers s a = Some x" "m_depth (ob_mutex x) = 0" "a < ev_next s"
      using a(1) k(4) by (auto simp: free_observer_def)
    let ?t = "set_center c (k\<lparr>nc_observers := remove1 a (nc_observers k)\<rparr>)
      (set_observer a (x\<lparr>ob_object := None\<rparr>) ?s)"
    let ?l = "set_center c (?kl\<lparr>nc_observers := remove1 a (nc_observers k)\<rparr>)
         (set_observer a (x\<lparr>ob_object := None\<rparr>) ?s)"
    have "nc_remove c ob s = (Ret (), set_center c
        (?kl\<lparr>nc_observers := remove1 a (nc_observers k), nc_mutex := nc_mutex k\<rparr>) ?l)"
      unfolding nc_remove_def
      by (rule center_locked_Ret [OF k(1), where t = ?l]) (use loop k(2) Some x in auto)
    then have run: "nc_remove c ob s = (Ret (), ?t)" by simp
    have in1: "b \<in> set (remove1 a (nc_observers k)) \<longleftrightarrow> b \<in> set (nc_observers k) \<and> b \<noteq> a" for b
      using k(3) by simp
    have ids: "map (id_at ?t) (remove1 a (nc_observers k)) = map (id_at s) (remove1 a (nc_observers k))"
      using in1 by (auto simp: id_at_def)
    have "nc_ids ?t c = remove1 (observer_id ob) (nc_ids s c)"
      using ids find_remove1_map [OF k(3) Some] lst by (simp add: nc_ids_def nc_list_def)
    moreover have "center_ok ?t c"
      using k in1 by (auto simp: center_ok_def free_observer_def)
    moreover have "observer_id ob \<in> set (nc_ids s c)"
      using a lst by (auto simp: nc_ids_def intro: rev_image_eqI)
    ultimately show thesis
      using that [OF run] x a in1 lst Some k(1)
      by (auto simp: env_frame_def nc_list_def length_remove1)
  qed
qed

lemma has_loop_spec:
  "\<forall>a\<in>set as. free_observer s a \<Longrightarrow>
     has_loop ob as s = (Ret (observer_id ob \<in> set (map (id_at s) as)), s)"
proof (induction as)
  case (Cons a as)
  then obtain x where x: "ev_observers s a = Some x" by (auto simp: free_observer_def)
  have "id_at s a = observer_id x" using x by (simp add: id_at_def)
  then show ?case using x Cons by (simp add: bnd_def observer_equals_id)
qed simp

lemma center_locked_pure:
  assumes "center_ok s c" "ev_centers s c = Some k"
    and "m (set_center c (k\<lparr>nc_mutex := locked (nc_mutex k)\<rparr>) s) =
      (Ret x, set_center c (k\<lparr>nc_mutex := locked (nc_mutex k)\<rparr>) s)"
  shows "center_locked c m s = (Ret x, s)"
proof -
  have "can_lock (nc_mutex k)" using assms(1,2) by (auto simp: center_ok_def)
  from center_locked_Ret [where m = m, OF assms(2) this assms(3)] have
    "center_locked c m s = (Ret x, set_center c (k\<lparr>nc_mutex := locked (nc_mutex k), nc_mutex := nc_mutex k\<rparr>)
      (set_center c (k\<lparr>nc_mutex := locked (nc_mutex k)\<rparr>) s))"
    by simp
  then show ?thesis using assms(2) by (simp add: set_center_def fun_upd_idem)
qed

lemma nc_queries:
  assumes "center_ok s c"
  shows "nc_has c ob s = (Ret (observer_id ob \<in> set (nc_ids s c)), s)"
    "nc_has_any c s = (Ret (nc_ids s c \<noteq> []), s)"
    "nc_count c s = (Ret (length (nc_ids s c)), s)"
proof -
  obtain k where k: "ev_centers s c = Some k" "\<forall>a\<in>set (nc_observers k). free_observer s a"
    using assms by (auto simp: center_ok_def)
  let ?s = "set_center c (k\<lparr>nc_mutex := locked (nc_mutex k)\<rparr>) s"
  have fl: "\<forall>a\<in>set (nc_observers k). free_observer ?s a" using k(2) by (simp add: free_observer_def)
  have idl: "id_at ?s = id_at s" by (simp add: fun_eq_iff id_at_def)
  have lst: "nc_list s c = nc_observers k" using k(1) by (simp add: nc_list_def)
  show "nc_has c ob s = (Ret (observer_id ob \<in> set (nc_ids s c)), s)"
    unfolding nc_has_def
    by (rule center_locked_pure [OF assms k(1)])
      (simp add: bnd_def has_loop_spec [OF fl] idl nc_ids_def lst)
  show "nc_has_any c s = (Ret (nc_ids s c \<noteq> []), s)"
    unfolding nc_has_any_def
    by (rule center_locked_pure [OF assms k(1)]) (simp add: bnd_def nc_ids_def lst)
  show "nc_count c s = (Ret (length (nc_ids s c)), s)"
    unfolding nc_count_def
    by (rule center_locked_pure [OF assms k(1)]) (simp add: bnd_def nc_ids_def lst)
qed

subsection \<open>The contract of a registry\<close>

text \<open>
  What the clients of \<open>NotificationCenter\<close> rely on: adding appends an identity, removing takes
  away the first equal one.
\<close>

datatype 'o registry_op = Register 'o | Unregister 'o

fun registry_run ::
  "('o \<Rightarrow> ('s, unit) prog) \<Rightarrow> ('o \<Rightarrow> ('s, unit) prog) \<Rightarrow> 'o registry_op list \<Rightarrow> ('s, unit) prog" where
  "registry_run add rm [] = ret ()"
| "registry_run add rm (Register x # ops) = thn (add x) (registry_run add rm ops)"
| "registry_run add rm (Unregister x # ops) = thn (rm x) (registry_run add rm ops)"

fun registry_step :: "('o \<Rightarrow> 'i) \<Rightarrow> 'o registry_op \<Rightarrow> 'i list \<Rightarrow> 'i list" where
  "registry_step ident (Register x) l = l @ [ident x]"
| "registry_step ident (Unregister x) l = remove1 (ident x) l"

locale registry =
  fixes add :: "'o \<Rightarrow> ('s, unit) prog"
    and rm :: "'o \<Rightarrow> ('s, unit) prog"
    and ids :: "'s \<Rightarrow> 'i list"
    and ident :: "'o \<Rightarrow> 'i"
    and valid :: "'s \<Rightarrow> bool"
  assumes add_law: "valid s \<Longrightarrow> \<exists>t. add x s = (Ret (), t) \<and> valid t \<and> ids t = ids s @ [ident x]"
    and rm_law: "valid s \<Longrightarrow> \<exists>t. rm x s = (Ret (), t) \<and> valid t \<and> ids t = remove1 (ident x) (ids s)"
begin

lemma run_refines:
  "valid s \<Longrightarrow> \<exists>t. registry_run add rm ops s = (Ret (), t) \<and> valid t \<and>
     ids t = fold (registry_step ident) ops (ids s)"
proof (induction ops arbitrary: s)
  case (Cons x ops)
  then show ?case
  proof (cases x)
    case (Register y)
    then show ?thesis using add_law [OF Cons.prems, of y] Cons.IH by fastforce
  next
    case (Unregister y)
    then show ?thesis using rm_law [OF Cons.prems, of y] Cons.IH by fastforce
  qed
qed simp

lemma add_then_remove:
  assumes "valid s" "ident x \<notin> set (ids s)"
  obtains t where "registry_run add rm [Register x, Unregister x] s = (Ret (), t)" "valid t" "ids t = ids s"
  using run_refines [OF assms(1), of "[Register x, Unregister x]"] assms(2) that
  by (auto simp: remove1_append)

end

interpretation nc: registry "nc_add c" "nc_remove c" "\<lambda>s. nc_ids s c" observer_id "\<lambda>s. center_ok s c"
  for c
proof (unfold_locales, goal_cases)
  case (1 s x)
  then show ?case by (metis nc_add_spec)
next
  case (2 s x)
  then show ?case by (metis nc_remove_spec)
qed

text \<open>C25. A notification center implements a list of observer identities: \<open>addObserver\<close> appends,
  \<open>removeObserver\<close> takes the first equal one away, \<open>hasObserver\<close> and \<open>countObservers\<close> answer
  for that list, after any sequence of operations.\<close>

theorem nc_refines_list:
  assumes "center_ok s c"
  shows "\<exists>t. registry_run (nc_add c) (nc_remove c) ops s = (Ret (), t) \<and>
     nc_count c t = (Ret (length (fold (registry_step observer_id) ops (nc_ids s c))), t) \<and>
     (\<forall>ob. nc_has c ob t = (Ret (observer_id ob \<in> set (fold (registry_step observer_id) ops (nc_ids s c))), t))"
  using nc.run_refines [OF assms, of ops] nc_queries by fastforce

subsection \<open>Posting\<close>

definition delivery :: "'z env_scheme \<Rightarrow> nat \<Rightarrow> nat \<Rightarrow> (nat \<times> nat) list" where
  "delivery s n a = (case (ev_observers s a, ev_notes s n) of
       (Some ob, Some nt) \<Rightarrow> (case ob_object ob of
            Some obj \<Rightarrow> if is_a (nt_kind nt) (ob_note ob) then [(obj, ob_method ob)] else []
          | None \<Rightarrow> [])
     | _ \<Rightarrow> [])"

lemma more_update_simps [simp]:
  "ev_observers (env.more_update f s) = ev_observers s" "ev_notes (env.more_update f s) = ev_notes s"
  "ev_next (env.more_update f s) = ev_next s" "ev_centers (env.more_update f s) = ev_centers s"
  by (cases s; simp)+

lemma set_observer_more: "set_observer a ob (env.more_update f s) = env.more_update f (set_observer a ob s)"
  by (cases s) (simp add: set_observer_def)

lemma set_observer_same: "ev_observers s a = Some ob \<Longrightarrow> set_observer a ob s = s"
  by (cases s) (simp add: set_observer_def fun_upd_idem)

text \<open>A callback that changes only the state of the client.\<close>

definition client_only :: "'z callback \<Rightarrow> (nat \<Rightarrow> nat \<Rightarrow> nat \<Rightarrow> 'z \<Rightarrow> 'z) \<Rightarrow> bool" where
  "client_only cb f \<longleftrightarrow> (\<forall>obj m n s. cb obj m n s = (Ret (), env.more_update (f obj m n) s))"

definition run_deliveries ::
  "(nat \<Rightarrow> nat \<Rightarrow> nat \<Rightarrow> 'z \<Rightarrow> 'z) \<Rightarrow> nat \<Rightarrow> (nat \<times> nat) list \<Rightarrow> 'z \<Rightarrow> 'z" where
  "run_deliveries f n ds = fold (\<lambda>(obj, m). f obj m n) ds"

lemma observer_notify_client:
  assumes cb: "client_only cb f" and a: "ev_observers s a = Some ob" "m_depth (ob_mutex ob) = 0"
    and n: "ev_notes s n = Some nt"
  shows "observer_notify cb a (Some n) s = (Ret (), env.more_update (run_deliveries f n (delivery s n a)) s)"
proof -
  let ?s = "set_observer a (ob\<lparr>ob_mutex := locked (ob_mutex ob)\<rparr>) s"
  have same: "set_observer a ob s = s" using a(1) by (rule set_observer_same)
  have id: "env.more_update (\<lambda>x. x) s = s" by (cases s) simp
  have acc: "observer_accepts ob' (Some n) ?s = (Ret (is_a (nt_kind nt) (ob_note ob')), ?s)" for ob'
    using n by (simp add: observer_accepts_def get_note_def bnd_def)
  show ?thesis
    using a n cb acc same id
    by (cases "ob_object ob"; cases "is_a (nt_kind nt) (ob_note ob)")
      (simp_all add: observer_notify_def observer_locked_def with_lock_free on_exit_def bnd_def delivery_def
        run_deliveries_def client_only_def set_observer_more)
qed

lemma notify_all_client:
  assumes "client_only cb f" "ev_notes s n = Some nt" "\<forall>a\<in>set as. free_observer s a"
  shows "notify_all cb (Some n) as s =
     (Ret (), env.more_update (run_deliveries f n (concat (map (delivery s n) as))) s)"
  using assms(2,3)
proof (induction as arbitrary: s)
  case Nil
  then show ?case by (cases s) (simp add: run_deliveries_def)
next
  case (Cons a as)
  obtain ob where a: "ev_observers s a = Some ob" "m_depth (ob_mutex ob) = 0"
    using Cons.prems(2) by (auto simp: free_observer_def)
  let ?t = "env.more_update (run_deliveries f n (delivery s n a)) s"
  have "observer_notify cb a (Some n) s = (Ret (), ?t)"
    by (rule observer_notify_client [OF assms(1) a Cons.prems(1)])
  then have "notify_all cb (Some n) (a # as) s = notify_all cb (Some n) as ?t" by simp
  also have "\<dots> = (Ret (), env.more_update (run_deliveries f n (concat (map (delivery ?t n) as))) ?t)"
    using Cons.prems by (intro Cons.IH) (simp_all add: free_observer_def)
  also have "delivery ?t n = delivery s n" by (simp add: fun_eq_iff delivery_def)
  finally show ?case by (cases s) (simp add: run_deliveries_def comp_def)
qed

text \<open>C26. \<open>postNotification\<close> calls, in the order of registration and once per registration, the
  methods of the enabled observers whose notification class the notification has, and no other;
  it leaves the center and its observers as they were (callbacks that register or remove
  observers apart).\<close>

theorem nc_post_delivers:
  assumes "client_only cb f" "center_ok s c" "ev_notes s n = Some nt"
  shows "nc_post cb c (Some n) s =
     (Ret (), env.more_update (run_deliveries f n (concat (map (delivery s n) (nc_list s c)))) s)"
proof -
  obtain k where k: "ev_centers s c = Some k" "\<forall>a\<in>set (nc_observers k). free_observer s a"
    using assms(2) by (auto simp: center_ok_def)
  have "center_locked c (bnd (get_center c) (\<lambda>k. ret (nc_observers k))) s = (Ret (nc_observers k), s)"
    by (rule center_locked_pure [OF assms(2) k(1)]) (simp add: bnd_def)
  then show ?thesis
    using notify_all_client [OF assms(1,3) k(2)] k(1) by (simp add: nc_post_def bnd_def nc_list_def)
qed

text \<open>C27. An observer that was removed is no longer called, even by a post that was under way and
  still has it in its copy of the list.\<close>

theorem nc_removed_is_silent:
  assumes "center_ok s c" "find (\<lambda>a. id_at s a = observer_id ob) (nc_list s c) = Some a"
  shows "\<exists>t. nc_remove c ob s = (Ret (), t) \<and> observer_notify cb a p t = (Ret (), t)"
proof -
  obtain t where t: "nc_remove c ob s = (Ret (), t)"
    "ev_observers t a = Some ((the (ev_observers s a))\<lparr>ob_object := None\<rparr>)"
    using nc_remove_spec [OF assms(1), of ob] assms(2) by metis
  have "a \<in> set (nc_list s c)" using find_Some_in [OF assms(2)] by simp
  then have "free_observer s a" using assms(1) by (auto simp: center_ok_def nc_list_def)
  then have "m_depth (ob_mutex (the (ev_observers s a))) = 0" by (auto simp: free_observer_def)
  then have "observer_notify cb a p t = (Ret (), t)"
    using t(2) set_observer_same [OF t(2)]
    by (simp add: observer_notify_def observer_locked_def with_lock_free on_exit_def bnd_def)
  then show ?thesis using t(1) by blast
qed

text \<open>A callback that removes the observer it is called by never returns: \<open>notify\<close> holds the
  observer's mutex, and \<open>removeObserver\<close> disables the observer under the same mutex.\<close>

theorem nc_self_removal_deadlocks:
  assumes "center_ok s c" "nc_list s c = a # as" "ev_observers s a = Some x"
    and "m_kind (ob_mutex x) = Std_mutex" "ob_object x = Some obj" "ev_notes s n = Some nt"
    and "is_a (nt_kind nt) (ob_note x)" "observer_equals y x"
    and "cb obj (ob_method x) n = nc_remove c y"
  shows "fst (nc_post cb c (Some n) s) = Fail Deadlock"
proof -
  obtain k where k: "ev_centers s c = Some k" "nc_observers k = a # as" "m_depth (nc_mutex k) = 0"
    using assms(1,2) by (auto simp: center_ok_def nc_list_def)
  have d: "m_depth (ob_mutex x) = 0" using assms(1-3) by (auto simp: center_ok_def nc_list_def free_observer_def)
  have lst: "center_locked c (bnd (get_center c) (\<lambda>k. ret (nc_observers k))) s = (Ret (a # as), s)"
    by (rule center_locked_pure [OF assms(1) k(1)]) (simp add: bnd_def k(2))
  let ?x = "x\<lparr>ob_mutex := locked (ob_mutex x)\<rparr>"
  let ?s = "set_observer a ?x s"
  let ?u = "set_center c (k\<lparr>nc_mutex := locked (nc_mutex k)\<rparr>) ?s"
  have eq: "observer_equals y ?x" using assms(8) by (simp add: observer_equals_def)
  have held: "\<not> can_lock (ob_mutex ?x)" using assms(4) d by simp
  have "observer_disable a ?u = (Fail Deadlock, ?u)"
    using held by (simp add: observer_disable_def observer_locked_def with_lock_held) 
  then have "nc_remove c y ?s = (Fail Deadlock, ?u)"
    using k eq by (simp add: nc_remove_def center_locked_def with_lock_free on_exit_def bnd_def thn_def)
  then have "fst (observer_notify cb a (Some n) s) = Fail Deadlock"
    using assms d by (simp add: observer_notify_def observer_locked_def with_lock_free on_exit_def bnd_def
        observer_accepts_def get_note_def)
  then show ?thesis
    using lst by (auto simp: nc_post_def bnd_def thn_def split: outcome.splits prod.splits)
qed

subsection \<open>Witnesses\<close>

definition sample_env :: "(nat \<times> nat) list env_scheme" where
  "sample_env = \<lparr>ev_notes = [9 \<mapsto> \<lparr>nt_kind = Readable_Note, nt_socket = socket_of 5\<rparr>],
     ev_observers = [0 \<mapsto> observer_of 1 Readable_Note 100 7, 1 \<mapsto> observer_of 1 Writable_Note 100 8,
       2 \<mapsto> observer_of 2 Plain_Note 200 3],
     ev_next = 3, ev_centers = [0 \<mapsto> \<lparr>nc_observers = [0, 1, 2], nc_mutex = new_mutex Std_mutex\<rparr>],
     \<dots> = []\<rparr>"

definition sample_callback :: "(nat \<times> nat) list callback" where
  "sample_callback obj m n = modify (env.more_update (\<lambda>l. l @ [(obj, m)]))"

lemma sample_env_simps:
  "center_ok sample_env 0" "nc_list sample_env 0 = [0, 1, 2]"
  "ev_notes sample_env 9 = Some \<lparr>nt_kind = Readable_Note, nt_socket = socket_of 5\<rparr>"
  "ev_observers sample_env 0 = Some (observer_of 1 Readable_Note 100 7)"
  "ev_observers sample_env (Suc 0) = Some (observer_of 1 Writable_Note 100 8)"
  "ev_observers sample_env 2 = Some (observer_of 2 Plain_Note 200 3)"
  by (auto simp: sample_env_def center_ok_def free_observer_def nc_list_def new_mutex_def observer_of_def)

theorem nc_refines_list_witness:
  "\<exists>t. registry_run (nc_add 0) (nc_remove 0)
       [Register (observer_of 1 Error_Note 100 4), Unregister (observer_of 1 Readable_Note 100 7)] sample_env = (Ret (), t) \<and>
     nc_count 0 t = (Ret 3, t)"
proof -
  have ids: "nc_ids sample_env 0 = [(1, Readable_Note, Some 100, 7), (1, Writable_Note, Some 100, 8), (2, Plain_Note, Some 200, 3)]"
    by (simp add: nc_ids_def sample_env_simps id_at_def observer_id_def observer_of_def)
  show ?thesis
    using nc_refines_list [OF sample_env_simps(1), of "[Register (observer_of 1 Error_Note 100 4),
        Unregister (observer_of 1 Readable_Note 100 7)]"]
    by (auto simp: ids observer_id_def observer_of_def)
qed

theorem nc_post_delivers_witness:
  "\<exists>t. nc_post sample_callback 0 (Some 9) sample_env = (Ret (), t) \<and> env.more t = [(100, 7), (200, 3)]"
proof -
  have cb: "client_only sample_callback (\<lambda>obj m n l. l @ [(obj, m)])"
    by (simp add: client_only_def sample_callback_def)
  have ds: "concat (map (delivery sample_env 9) (nc_list sample_env 0)) = [(100, 7), (200, 3)]"
    by (simp add: sample_env_simps delivery_def) (simp add: observer_of_def is_a_def)
  have "env.more sample_env = []" by (simp add: sample_env_def)
  then show ?thesis
    using nc_post_delivers [OF cb sample_env_simps(1,3)] ds
    by (cases sample_env) (auto simp: run_deliveries_def)
qed

theorem nc_removed_is_silent_witness:
  "\<exists>t. nc_remove 0 (observer_of 1 Writable_Note 100 8) sample_env = (Ret (), t) \<and>
     observer_notify sample_callback 1 (Some 9) t = (Ret (), t)"
  by (rule nc_removed_is_silent [OF sample_env_simps(1)])
    (simp add: sample_env_simps id_at_def observer_id_def observer_of_def)

theorem nc_self_removal_deadlocks_witness:
  "fst (nc_post (\<lambda>obj m n. nc_remove 0 (observer_of 1 Readable_Note 100 7)) 0 (Some 9) sample_env) = Fail Deadlock"
  by (rule nc_self_removal_deadlocks [OF sample_env_simps(1,2,4) _ _ sample_env_simps(3)])
    (simp_all add: observer_of_def new_mutex_def is_a_def observer_equals_def)

end
