(* ===== verification/Socket_Reactor.thy ===== *)
theory Socket_Reactor
  imports Observers Poll_Set "HOL-Library.Multiset"
begin

section \<open>SocketNotifier and SocketReactor\<close>

text \<open>
  Models \<^verbatim>\<open>src/epoll_server/socket_notifier.cpp\<close>, \<^verbatim>\<open>socket_notifier.h\<close>,
  \<^verbatim>\<open>socket_reactor.cpp\<close> and \<^verbatim>\<open>socket_reactor.h\<close>. The environment of the
  observers is extended with the notifiers and the members of the reactor. A notifier is shared:
  \<open>nf_refs\<close> is the count of its \<^verbatim>\<open>shared_ptr\<close>; its \<^verbatim>\<open>NotificationCenter\<close>
  has the same address. Destructors run where the code destroys an object: a
  \<^verbatim>\<open>ServerSocket\<close> that goes away closes its descriptor, also as a key of a map, as the
  member of a notifier and as the member of a notification.

  \<open>as_key\<close> is the conversion of a socket to a key of the poll set that the repository does not
  have (see \<open>Poll_Set\<close>), \<open>cb\<close> the member function that an observer calls. The calls
  \<^verbatim>\<open>sleep_for\<close>, \<^verbatim>\<open>onBusy\<close> and \<^verbatim>\<open>wakeUp\<close> have no effect.
\<close>

subsection \<open>State\<close>

record notifier =
  nf_events :: "nat option multiset"
  nf_socket :: socket
  nf_mutex :: mutex
  nf_refs :: nat

record reactor = env +
  rx_notifiers :: "nat \<Rightarrow> notifier option"
  rx_handlers :: "(sock_id, socket \<times> nat) smap"
  rx_mutex :: mutex
  rx_stop :: bool
  rx_interval :: int
  rx_readable :: "nat option"
  rx_writable :: "nat option"
  rx_error :: "nat option"
  rx_timeout :: "nat option"
  rx_idle :: "nat option"
  rx_shutdown :: "nat option"
  rx_poll :: pollset
  rx_world :: world

type_synonym ('z, 'a) rx_prog = "('z reactor_scheme, 'a) prog"

definition rx_os :: "(world, 'a) prog \<Rightarrow> ('z, 'a) rx_prog" where
  "rx_os m = zoom rx_world (\<lambda>w s. s\<lparr>rx_world := w\<rparr>) m"

definition on_poll :: "'a poll_prog \<Rightarrow> ('z, 'a) rx_prog" where
  "on_poll m = zoom (\<lambda>s. (rx_poll s, rx_world s)) (\<lambda>(p, w) s. s\<lparr>rx_poll := p, rx_world := w\<rparr>) m"

definition get_notifier_at :: "nat \<Rightarrow> ('z, notifier) rx_prog" where
  "get_notifier_at p = bnd (gets (\<lambda>s. rx_notifiers s p)) (defined Use_after_free)"

definition put_notifier :: "nat \<Rightarrow> notifier \<Rightarrow> 'z reactor_scheme \<Rightarrow> 'z reactor_scheme" where
  "put_notifier p n s = s\<lparr>rx_notifiers := (rx_notifiers s)(p := Some n)\<rparr>"

definition notifier_locked :: "nat \<Rightarrow> ('z, 'a) rx_prog \<Rightarrow> ('z, 'a) rx_prog" where
  "notifier_locked p body = with_lock
     (\<lambda>s. case rx_notifiers s p of Some n \<Rightarrow> nf_mutex n | None \<Rightarrow> new_mutex Std_mutex)
     (\<lambda>m s. case rx_notifiers s p of Some n \<Rightarrow> put_notifier p (n\<lparr>nf_mutex := m\<rparr>) s | None \<Rightarrow> s)
     body"

definition reactor_locked :: "('z, 'a) rx_prog \<Rightarrow> ('z, 'a) rx_prog" where
  "reactor_locked body = with_lock rx_mutex (\<lambda>m s. s\<lparr>rx_mutex := m\<rparr>) body"

subsection \<open>SocketNotifier\<close>

definition notifier_of :: "socket \<Rightarrow> notifier" where
  "notifier_of sock = \<lparr>nf_events = {#}, nf_socket = sock, nf_mutex = new_mutex Std_mutex, nf_refs = 1\<rparr>"

text \<open>\<^verbatim>\<open>std::make_shared<SocketNotifier>(socket)\<close>\<close>

definition notifier_new :: "socket \<Rightarrow> ('z, nat) rx_prog" where
  "notifier_new sock =
     bnd (gets ev_next) (\<lambda>p.
     thn (modify (\<lambda>s. set_center p center_new (put_notifier p (notifier_of sock) (s\<lparr>ev_next := Suc p\<rparr>))))
         (ret p))"

text \<open>The chain of \<^verbatim>\<open>else if\<close>: the first notification of the reactor that the observer
  accepts.\<close>

primrec first_accepted :: "observer \<Rightarrow> nat option list \<Rightarrow> ('z, nat option option) rx_prog" where
  "first_accepted ob [] = ret None"
| "first_accepted ob (p # ps) =
     bnd (observer_accepts ob p) (\<lambda>yes. if yes then ret (Some p) else first_accepted ob ps)"

definition event_pointers :: "'z reactor_scheme \<Rightarrow> nat option list" where
  "event_pointers s = [rx_readable s, rx_writable s, rx_error s, rx_timeout s]"

definition change_events ::
  "nat \<Rightarrow> (nat option multiset \<Rightarrow> nat option multiset) \<Rightarrow> ('z, unit) rx_prog" where
  "change_events p f = bnd (get_notifier_at p) (\<lambda>n.
     modify (put_notifier p (n\<lparr>nf_events := f (nf_events n)\<rparr>)))"

definition notifier_add :: "nat \<Rightarrow> observer \<Rightarrow> ('z, unit) rx_prog" where
  "notifier_add p ob =
     thn (nc_add p ob)
         (notifier_locked p
           (bnd (gets event_pointers) (\<lambda>ps.
            bnd (first_accepted ob ps) (\<lambda>found. case found of
               None \<Rightarrow> ret ()
             | Some e \<Rightarrow> change_events p (add_mset e)))))"

text \<open>\<^verbatim>\<open>_events.erase(it)\<close> takes one occurrence away, if there is one.\<close>

definition notifier_remove :: "nat \<Rightarrow> observer \<Rightarrow> ('z, unit) rx_prog" where
  "notifier_remove p ob =
     thn (nc_remove p ob)
         (notifier_locked p
           (bnd (gets event_pointers) (\<lambda>ps.
            bnd (first_accepted ob ps) (\<lambda>found. case found of
               None \<Rightarrow> ret ()
             | Some e \<Rightarrow> change_events p (\<lambda>es. if e \<in># es then es - {#e#} else es)))))"

definition notifier_accepts :: "nat \<Rightarrow> nat option \<Rightarrow> ('z, bool) rx_prog" where
  "notifier_accepts p e = notifier_locked p (bnd (get_notifier_at p) (\<lambda>n. ret (e \<in># nf_events n)))"

text \<open>The notifier hands the questions about its observers on to its center.\<close>

definition notifier_has :: "nat \<Rightarrow> observer \<Rightarrow> ('z, bool) rx_prog" where
  "notifier_has p ob = nc_has p ob"

definition notifier_has_any :: "nat \<Rightarrow> ('z, bool) rx_prog" where
  "notifier_has_any p = nc_has_any p"

definition notifier_count :: "nat \<Rightarrow> ('z, nat) rx_prog" where
  "notifier_count p = nc_count p"

text \<open>\<open>setSocket\<close>, through a pointer; the assignment does not close the old descriptor.\<close>

definition set_note_socket :: "nat option \<Rightarrow> socket \<Rightarrow> ('z, unit) rx_prog" where
  "set_note_socket p sock =
     bnd (defined Null_deref p) (\<lambda>n.
     bnd (get_note n) (\<lambda>nt. modify (\<lambda>s. s\<lparr>ev_notes := (ev_notes s)(n := Some (nt\<lparr>nt_socket := sock\<rparr>))\<rparr>)))"

text \<open>The end of the \<^verbatim>\<open>unique_ptr\<close>: the notification and its socket are destroyed.\<close>

definition delete_note :: "nat option \<Rightarrow> ('z, unit) rx_prog" where
  "delete_note p = (case p of
       None \<Rightarrow> ret ()
     | Some n \<Rightarrow> bnd (get_note n) (\<lambda>nt.
         thn (modify (\<lambda>s. s\<lparr>ev_notes := (ev_notes s)(n := None)\<rparr>))
             (rx_os (drop_socket (nt_socket nt)))))"

definition catch_rethrow :: "('s, 'a) prog \<Rightarrow> ('s, unit) prog \<Rightarrow> ('s, 'a) prog" where
  "catch_rethrow m h = (\<lambda>s. case m s of
      (Fail (Thrown e), t) \<Rightarrow> thn h (fail (Thrown e)) t
    | r \<Rightarrow> r)"

definition notifier_dispatch :: "'z reactor_ext callback \<Rightarrow> nat \<Rightarrow> nat option \<Rightarrow> ('z, unit) rx_prog" where
  "notifier_dispatch cb p note =
     bnd (get_notifier_at p) (\<lambda>n.
     thn (set_note_socket note (nf_socket n))
    (thn (catch_rethrow (finally_run (nc_post cb p note) (delete_note note))
                        (set_note_socket note socket_default))
         (set_note_socket note socket_default)))"

subsection \<open>SocketReactor: handlers\<close>

definition DEFAULT_TIMEOUT :: int where "DEFAULT_TIMEOUT = 250000"

text \<open>The members after construction: the six notifications are null pointers, no constructor or
  member function ever assigns them.\<close>

definition reactor_init :: "pollset \<Rightarrow> world \<Rightarrow> 'z \<Rightarrow> 'z reactor_scheme" where
  "reactor_init ps w z = \<lparr>ev_notes = Map.empty, ev_observers = Map.empty, ev_next = 0,
     ev_centers = Map.empty, rx_notifiers = Map.empty, rx_handlers = [],
     rx_mutex = new_mutex Std_mutex, rx_stop = False, rx_interval = DEFAULT_TIMEOUT, rx_readable = None,
     rx_writable = None, rx_error = None, rx_timeout = None, rx_idle = None, rx_shutdown = None, rx_poll = ps,
     rx_world = w, \<dots> = z\<rparr>"

definition share_notifier :: "nat \<Rightarrow> ('z, unit) rx_prog" where
  "share_notifier p = bnd (get_notifier_at p) (\<lambda>n. modify (put_notifier p (n\<lparr>nf_refs := Suc (nf_refs n)\<rparr>)))"

definition release_notifier :: "nat \<Rightarrow> ('z, unit) rx_prog" where
  "release_notifier p = bnd (get_notifier_at p) (\<lambda>n.
     if nf_refs n > 1 then modify (put_notifier p (n\<lparr>nf_refs := nf_refs n - 1\<rparr>))
     else thn (modify (\<lambda>s. s\<lparr>rx_notifiers := (rx_notifiers s)(p := None), ev_centers := (ev_centers s)(p := None)\<rparr>))
              (rx_os (drop_socket (nf_socket n))))"

definition get_notifier :: "socket \<Rightarrow> bool \<Rightarrow> ('z, nat option) rx_prog" where
  "get_notifier sock makeNew = reactor_locked
     (bnd (gets (\<lambda>s. map_find (sock_key sock) (rx_handlers s))) (\<lambda>found. case found of
        Some (k, p) \<Rightarrow> thn (share_notifier p) (ret (Some p))
      | None \<Rightarrow>
          if makeNew
          then bnd (notifier_new sock) (\<lambda>p.
               thn (modify (\<lambda>s. s\<lparr>rx_handlers := map_put (sock_key sock) (sock, p) (rx_handlers s)\<rparr>))
              (thn (share_notifier p) (ret (Some p))))
          else ret None))"

text \<open>A block with a local \<^verbatim>\<open>NotifierPtr\<close>.\<close>

definition with_notifier ::
  "socket \<Rightarrow> bool \<Rightarrow> (nat option \<Rightarrow> ('z, 'a) rx_prog) \<Rightarrow> ('z, 'a) rx_prog" where
  "with_notifier sock makeNew body = bnd (get_notifier sock makeNew) (\<lambda>found. case found of
       None \<Rightarrow> body None
     | Some p \<Rightarrow> finally_run (body (Some p)) (release_notifier p))"

definition notifier_mode :: "nat \<Rightarrow> ('z, int) rx_prog" where
  "notifier_mode p =
     bnd (gets rx_readable) (\<lambda>r. bnd (notifier_accepts p r) (\<lambda>a.
     bnd (gets rx_writable) (\<lambda>w. bnd (notifier_accepts p w) (\<lambda>b.
     bnd (gets rx_error) (\<lambda>e. bnd (notifier_accepts p e) (\<lambda>c.
       ret (or (or (if a then POLL_READ else 0) (if b then POLL_WRITE else 0))
               (if c then POLL_ERROR else 0))))))))"

definition add_event_handler ::
  "(socket \<Rightarrow> int) \<Rightarrow> int \<Rightarrow> socket \<Rightarrow> observer \<Rightarrow> ('z, unit) rx_prog" where
  "add_event_handler as_key addr sock ob = with_notifier sock True (\<lambda>found. case found of
       None \<Rightarrow> ret ()
     | Some p \<Rightarrow>
         thn (bnd (nc_has p ob) (\<lambda>known. if \<not> known then notifier_add p ob else ret ()))
             (bnd (notifier_mode p) (\<lambda>mode.
                if mode \<noteq> 0 then on_poll (poll_add (as_key sock) addr sock mode) else ret ())))"

definition has_event_handler :: "socket \<Rightarrow> observer \<Rightarrow> ('z, bool) rx_prog" where
  "has_event_handler sock ob = with_notifier sock False (\<lambda>found. case found of
       None \<Rightarrow> ret False
     | Some p \<Rightarrow> nc_has p ob)"

text \<open>\<^verbatim>\<open>_handlers.erase(socket)\<close>: the shared pointer of the entry goes first, then the
  socket that is its key.\<close>

definition erase_handler :: "socket \<Rightarrow> ('z, unit) rx_prog" where
  "erase_handler sock =
     bnd (gets (\<lambda>s. map_find (sock_key sock) (rx_handlers s))) (\<lambda>found. case found of
       None \<Rightarrow> ret ()
     | Some (k, p) \<Rightarrow>
         thn (modify (\<lambda>s. s\<lparr>rx_handlers := map_erase (sock_key sock) (rx_handlers s)\<rparr>))
        (thn (release_notifier p) (rx_os (drop_socket k))))"

definition remove_event_handler ::
  "(socket \<Rightarrow> int) \<Rightarrow> int \<Rightarrow> socket \<Rightarrow> observer \<Rightarrow> ('z, unit) rx_prog" where
  "remove_event_handler as_key addr sock ob = with_notifier sock False (\<lambda>found. case found of
       None \<Rightarrow> ret ()
     | Some p \<Rightarrow> bnd (nc_has p ob) (\<lambda>known.
         if \<not> known then ret ()
         else thn (bnd (nc_count p) (\<lambda>n.
                     if n = 1
                     then thn (reactor_locked (erase_handler sock)) (on_poll (poll_remove (as_key sock) sock))
                     else ret ()))
             (thn (notifier_remove p ob)
                  (bnd (nc_count p) (\<lambda>n.
                     if n > 0 \<and> sk_fd sock > 0
                     then bnd (notifier_mode p) (\<lambda>mode. on_poll (poll_update addr sock mode))
                     else ret ())))))"

definition reactor_has :: "(socket \<Rightarrow> int) \<Rightarrow> socket \<Rightarrow> ('z, bool) rx_prog" where
  "reactor_has as_key sock = on_poll (poll_has (as_key sock))"

text \<open>\<open>wakeUp\<close> and \<open>onBusy\<close> have empty bodies.\<close>

definition wake_up :: "('z, unit) rx_prog" where
  "wake_up = ret ()"

definition on_busy :: "('z, unit) rx_prog" where
  "on_busy = ret ()"

definition reactor_stop :: "('z, unit) rx_prog" where
  "reactor_stop = modify (\<lambda>s. s\<lparr>rx_stop := True\<rparr>)"

definition set_timeout :: "int \<Rightarrow> ('z, unit) rx_prog" where
  "set_timeout t = modify (\<lambda>s. s\<lparr>rx_interval := t\<rparr>)"

definition get_timeout :: "('z, int) rx_prog" where
  "get_timeout = gets rx_interval"

subsection \<open>SocketReactor: dispatching\<close>

definition dispatch_to :: "'z reactor_ext callback \<Rightarrow> nat \<Rightarrow> nat option \<Rightarrow> ('z, unit) rx_prog" where
  "dispatch_to cb p note = catch_all (notifier_dispatch cb p note) (ret ())"

definition dispatch_socket :: "'z reactor_ext callback \<Rightarrow> socket \<Rightarrow> nat option \<Rightarrow> ('z, unit) rx_prog" where
  "dispatch_socket cb sock note = with_notifier sock False (\<lambda>found. case found of
       None \<Rightarrow> ret ()
     | Some p \<Rightarrow> dispatch_to cb p note)"

primrec run_each :: "('x \<Rightarrow> ('s, unit) prog) \<Rightarrow> 'x list \<Rightarrow> ('s, unit) prog" where
  "run_each f [] = ret ()"
| "run_each f (x # xs) = thn (f x) (run_each f xs)"

definition dispatch_all :: "'z reactor_ext callback \<Rightarrow> nat option \<Rightarrow> ('z, unit) rx_prog" where
  "dispatch_all cb note =
     bnd (reactor_locked
           (bnd (gets (\<lambda>s. map (snd \<circ> snd) (rx_handlers s))) (\<lambda>ps.
            thn (run_each share_notifier ps) (ret ps)))) (\<lambda>ps.
       finally_run (run_each (\<lambda>p. dispatch_to cb p note) ps) (run_each release_notifier ps))"

definition on_timeout :: "'z reactor_ext callback \<Rightarrow> ('z, unit) rx_prog" where
  "on_timeout cb = bnd (gets rx_timeout) (dispatch_all cb)"

definition on_idle :: "'z reactor_ext callback \<Rightarrow> ('z, unit) rx_prog" where
  "on_idle cb = bnd (gets rx_idle) (dispatch_all cb)"

definition on_shutdown :: "'z reactor_ext callback \<Rightarrow> ('z, unit) rx_prog" where
  "on_shutdown cb = bnd (gets rx_shutdown) (dispatch_all cb)"

primrec some_handler_accepts :: "nat list \<Rightarrow> ('z, bool) rx_prog" where
  "some_handler_accepts [] = ret False"
| "some_handler_accepts (p # ps) =
     bnd (gets rx_readable) (\<lambda>r. bnd (notifier_accepts p r) (\<lambda>a. if a then ret True else
     bnd (gets rx_writable) (\<lambda>w. bnd (notifier_accepts p w) (\<lambda>b. if b then ret True else
     bnd (gets rx_error) (\<lambda>e. bnd (notifier_accepts p e) (\<lambda>c. if c then ret True else
       some_handler_accepts ps))))))"

definition has_socket_handlers :: "('z, bool) rx_prog" where
  "has_socket_handlers =
     bnd (on_poll poll_empty) (\<lambda>none.
       if \<not> none
       then reactor_locked (bnd (gets (\<lambda>s. map (snd \<circ> snd) (rx_handlers s))) some_handler_accepts)
       else ret False)"

text \<open>The loop over the poll result; the value says whether a socket was readable.\<close>

primrec dispatch_modes ::
  "'z reactor_ext callback \<Rightarrow> (sock_id \<times> socket \<times> int) list \<Rightarrow> bool \<Rightarrow> ('z, bool) rx_prog" where
  "dispatch_modes cb [] readable = ret readable"
| "dispatch_modes cb (x # xs) readable =
     thn (if and (snd (snd x)) POLL_READ \<noteq> 0
          then bnd (gets rx_readable) (dispatch_socket cb (fst (snd x))) else ret ())
    (thn (if and (snd (snd x)) POLL_WRITE \<noteq> 0
          then bnd (gets rx_writable) (dispatch_socket cb (fst (snd x))) else ret ())
    (thn (if and (snd (snd x)) POLL_ERROR \<noteq> 0
          then bnd (gets rx_error) (dispatch_socket cb (fst (snd x))) else ret ())
         (dispatch_modes cb xs (readable \<or> and (snd (snd x)) POLL_READ \<noteq> 0))))"

text \<open>One turn of the loop in \<open>run\<close>. The map of modes is destroyed at the end of the block, and
  with it the sockets that are its keys.\<close>

definition reactor_turn :: "'z reactor_ext callback \<Rightarrow> ('z, unit) rx_prog" where
  "reactor_turn cb = catch_all
     (bnd has_socket_handlers (\<lambda>some.
        if \<not> some then on_idle cb
        else bnd (gets rx_interval) (\<lambda>timeout. bnd (on_poll (poll_poll timeout)) (\<lambda>sm.
             finally_run
               (bnd (if sm = [] then ret False else thn on_busy (dispatch_modes cb sm False)) (\<lambda>readable.
                  if \<not> readable then on_timeout cb else ret ()))
               (rx_os (drop_sockets (map (fst \<circ> snd) sm)))))))
     (ret ())"

text \<open>\<open>run\<close> with a bound on the number of turns; another thread sets the flag that ends it.\<close>

primrec reactor_run :: "'z reactor_ext callback \<Rightarrow> nat \<Rightarrow> ('z, unit) rx_prog" where
  "reactor_run cb 0 = fail Pending"
| "reactor_run cb (Suc n) =
     cond rx_stop (on_shutdown cb) (thn (reactor_turn cb) (reactor_run cb n))"

subsection \<open>A dispatch never comes back\<close>

text \<open>The run has stopped in a way that no \<^verbatim>\<open>catch\<close> sees.\<close>

fun fatal :: "'a outcome \<Rightarrow> bool" where
  "fatal (Ret x) \<longleftrightarrow> False"
| "fatal (Fail (Thrown e)) \<longleftrightarrow> False"
| "fatal (Fail e) \<longleftrightarrow> True"

lemma set_note_socket_none: "set_note_socket None sock s = (Fail (Undef Null_deref), s)"
  by (simp add: set_note_socket_def bnd_def)

lemma set_note_socket_freed: "ev_notes s n = None \<Longrightarrow> set_note_socket (Some n) sock s = (Fail (Undef Use_after_free), s)"
  by (simp add: set_note_socket_def bnd_def get_note_def)

lemma set_note_socket_not_thrown: "fst (set_note_socket p sock s) \<noteq> Fail (Thrown e)"
  by (cases p; cases "ev_notes s (the p)") (simp_all add: set_note_socket_def bnd_def get_note_def)

lemma rx_os_apply: "rx_os m s = (case m (rx_world s) of (r, w) \<Rightarrow> (r, s\<lparr>rx_world := w\<rparr>))"
  by (simp add: rx_os_def zoom_def)

lemma delete_note_spec:
  assumes "delete_note (Some n) s = (out, t)"
  shows "out = Ret () \<and> ev_notes t n = None \<or> fatal out"
proof (cases "ev_notes s n")
  case None
  then show ?thesis using assms by (auto simp: delete_note_def bnd_def get_note_def)
next
  case (Some nt)
  obtain d w where d: "drop_socket (nt_socket nt) (rx_world s) = (d, w)" by (rule prod.exhaust)
  show ?thesis
    using assms Some d drop_socket_outcome [OF d]
    by (auto simp: delete_note_def bnd_def thn_def get_note_def rx_os_apply)
qed

text \<open>The notification while its observers are called: it has the notifier's socket.\<close>

abbreviation aimed :: "nat \<Rightarrow> notification \<Rightarrow> socket \<Rightarrow> 'z reactor_scheme \<Rightarrow> 'z reactor_scheme" where
  "aimed a nt sock s \<equiv> s\<lparr>ev_notes := (ev_notes s)(a := Some (nt\<lparr>nt_socket := sock\<rparr>))\<rparr>"

lemma dispatch_undefined:
  assumes "rx_notifiers s p = Some n"
  shows "case msg of
      None \<Rightarrow> notifier_dispatch cb p msg s = (Fail (Undef Null_deref), s)
    | Some a \<Rightarrow> (case ev_notes s a of
          None \<Rightarrow> notifier_dispatch cb p msg s = (Fail (Undef Use_after_free), s)
        | Some nt \<Rightarrow> (case nc_post cb p (Some a) (aimed a nt (nf_socket n) s) of (posted, u) \<Rightarrow>
            if fatal posted then notifier_dispatch cb p msg s = (posted, u)
            else fst (notifier_dispatch cb p msg s) = Fail (Undef Use_after_free) \<or>
              (\<exists>nt'. ev_notes u a = Some nt' \<and> fst (drop_socket (nt_socket nt') (rx_world u)) = Fail Pending \<and>
                 fst (notifier_dispatch cb p msg s) = Fail Pending)))"
proof (cases msg)
  case None
  then show ?thesis using assms by (simp add: notifier_dispatch_def bnd_def thn_def get_notifier_at_def set_note_socket_none)
next
  case a: (Some a)
  show ?thesis
  proof (cases "ev_notes s a")
    case None
    then show ?thesis using assms a by (simp add: notifier_dispatch_def bnd_def thn_def get_notifier_at_def set_note_socket_freed)
  next
    case nt: (Some nt)
    have set1: "set_note_socket (Some a) (nf_socket n) s = (Ret (), aimed a nt (nf_socket n) s)"
      using nt by (simp add: set_note_socket_def bnd_def get_note_def)
    obtain posted u where post: "nc_post cb p (Some a) (aimed a nt (nf_socket n) s) = (posted, u)" by (rule prod.exhaust)
    obtain o3 v where gone: "delete_note (Some a) u = (o3, v)" by (rule prod.exhaust)
    have d: "o3 = Ret () \<and> ev_notes v a = None \<or> o3 = Fail (Undef Use_after_free) \<or>
        (\<exists>nt'. ev_notes u a = Some nt' \<and> fst (drop_socket (nt_socket nt') (rx_world u)) = Fail Pending \<and> o3 = Fail Pending)"
    proof (cases "ev_notes u a")
      case None
      then show ?thesis using gone by (auto simp: delete_note_def bnd_def get_note_def)
    next
      case (Some nt')
      obtain o' w where o': "drop_socket (nt_socket nt') (rx_world u) = (o', w)" by (rule prod.exhaust)
      show ?thesis
        using gone Some o' drop_socket_outcome [OF o'] by (auto simp: delete_note_def bnd_def thn_def get_note_def rx_os_apply)
    qed
    show ?thesis
      using assms a nt set1 post gone d
      by (cases posted rule: fatal.cases)
        (auto simp: notifier_dispatch_def bnd_def thn_def get_notifier_at_def finally_run_def catch_rethrow_def set_note_socket_freed)
  qed
qed

text \<open>C28. How \<open>SocketNotifier::dispatch\<close> ends, for every observer. It never returns and throws nothing: with the null pointer, which
  is what the reactor has, it dereferences it and nothing else happens; a notification that is gone is used after it was freed;
  otherwise the observers are called, and when they come back, with or without an exception, the notification is deleted and then
  written to, unless the close of its socket is not answered; when they do not come back, \<open>dispatch\<close> ends as they do.\<close>

theorem notifier_dispatch_undefined:
  assumes "rx_notifiers s p = Some n"
  shows "case msg of
      None \<Rightarrow> notifier_dispatch cb p msg s = (Fail (Undef Null_deref), s)
    | Some a \<Rightarrow> (case ev_notes s a of
          None \<Rightarrow> notifier_dispatch cb p msg s = (Fail (Undef Use_after_free), s)
        | Some nt \<Rightarrow> (case nc_post cb p (Some a) (aimed a nt (nf_socket n) s) of (posted, u) \<Rightarrow>
            if fatal posted then notifier_dispatch cb p msg s = (posted, u)
            else fst (notifier_dispatch cb p msg s) = Fail (Undef Use_after_free) \<or>
              (\<exists>nt'. ev_notes u a = Some nt' \<and> fst (drop_socket (nt_socket nt') (rx_world u)) = Fail Pending \<and>
                 fst (notifier_dispatch cb p msg s) = Fail Pending)))"
  by (rule dispatch_undefined [OF assms])

lemma notifier_dispatch_fatal: "fatal (fst (notifier_dispatch cb p msg s))"
proof (cases "rx_notifiers s p")
  case None
  then show ?thesis by (simp add: notifier_dispatch_def bnd_def get_notifier_at_def)
next
  case (Some n)
  from dispatch_undefined [OF this, where msg = msg and cb = cb] show ?thesis
    by (auto split: option.splits prod.splits if_splits)
qed

lemma dispatch_to_fatal: "fatal (fst (dispatch_to cb p msg s))"
proof -
  obtain out t where d: "notifier_dispatch cb p msg s = (out, t)" by (rule prod.exhaust)
  have "fatal out" using notifier_dispatch_fatal [of cb p msg s] d by simp
  then show ?thesis using d by (cases out rule: fatal.cases) (auto simp: dispatch_to_def catch_all_def)
qed

subsection \<open>The reactor without notifications\<close>

definition no_notes :: "'z reactor_scheme \<Rightarrow> bool" where
  "no_notes s \<longleftrightarrow> rx_readable s = None \<and> rx_writable s = None \<and> rx_error s = None \<and>
     rx_timeout s = None \<and> rx_idle s = None \<and> rx_shutdown s = None"

definition live_notifier :: "nat \<Rightarrow> 'z reactor_scheme \<Rightarrow> nat \<Rightarrow> bool" where
  "live_notifier r s p \<longleftrightarrow> p < ev_next s \<and> center_ok s p \<and>
     (\<exists>n. rx_notifiers s p = Some n \<and> m_depth (nf_mutex n) = 0 \<and> r \<le> nf_refs n \<and> None \<notin># nf_events n)"

definition reactor_ok :: "'z reactor_scheme \<Rightarrow> bool" where
  "reactor_ok s \<longleftrightarrow> m_depth (rx_mutex s) = 0 \<and> map_ok (rx_handlers s) \<and>
     (\<forall>k sk p. map_find k (rx_handlers s) = Some (sk, p) \<longrightarrow> live_notifier 1 s p)"

text \<open>The parts of the reactor that handlers do not touch.\<close>

definition rest :: "'z reactor_scheme \<Rightarrow> nat option list \<times> bool \<times> pollset \<times> world" where
  "rest s = ([rx_readable s, rx_writable s, rx_error s, rx_timeout s, rx_idle s, rx_shutdown s],
     rx_stop s, rx_poll s, rx_world s)"

lemma rest_no_notes: "rest t = rest s \<Longrightarrow> no_notes t = no_notes s"
  by (auto simp: rest_def no_notes_def)

lemma put_notifier_simps [simp]:
  "rx_notifiers (put_notifier p n s) = (rx_notifiers s)(p := Some n)"
  "ev_centers (put_notifier p n s) = ev_centers s" "ev_observers (put_notifier p n s) = ev_observers s"
  "ev_next (put_notifier p n s) = ev_next s" "ev_notes (put_notifier p n s) = ev_notes s"
  "rx_handlers (put_notifier p n s) = rx_handlers s" "rx_mutex (put_notifier p n s) = rx_mutex s"
  "rest (put_notifier p n s) = rest s" "rx_poll (put_notifier p n s) = rx_poll s"
  "rx_world (put_notifier p n s) = rx_world s" "event_pointers (put_notifier p n s) = event_pointers s"
  by (simp_all add: put_notifier_def rest_def event_pointers_def)

lemma set_center_rx [simp]:
  "rx_notifiers (set_center c k s) = rx_notifiers s" "rx_handlers (set_center c k s) = rx_handlers s"
  "rx_mutex (set_center c k s) = rx_mutex s" "rest (set_center c k s) = rest s"
  by (simp_all add: set_center_def rest_def)

lemma center_ok_put [simp]: "center_ok (put_notifier p n s) c = center_ok s c"
  by (simp add: center_ok_def free_observer_def)

lemma center_ok_cong:
  assumes "center_ok s c" "ev_centers t c = ev_centers s c" "ev_next s \<le> ev_next t"
    and "\<And>a. a < ev_next s \<Longrightarrow> ev_observers t a = ev_observers s a"
  shows "center_ok t c"
  using assms by (fastforce simp: center_ok_def free_observer_def)

lemma more_rx:
  "env.more t = env.more s \<Longrightarrow> rx_notifiers t = rx_notifiers s \<and> rx_handlers t = rx_handlers s \<and>
     rx_mutex t = rx_mutex s \<and> rest t = rest s \<and> event_pointers t = event_pointers s"
  by (cases s; cases t) (simp add: rest_def event_pointers_def)

lemma share_notifier_spec:
  "rx_notifiers s p = Some n \<Longrightarrow>
     share_notifier p s = (Ret (), put_notifier p (n\<lparr>nf_refs := Suc (nf_refs n)\<rparr>) s)"
  by (simp add: share_notifier_def bnd_def get_notifier_at_def)

lemma reactor_locked_Ret:
  assumes "can_lock (rx_mutex s)" "m (s\<lparr>rx_mutex := locked (rx_mutex s)\<rparr>) = (Ret x, t)"
    and "rx_mutex t = locked (rx_mutex s)"
  shows "reactor_locked m s = (Ret x, t\<lparr>rx_mutex := rx_mutex s\<rparr>)"
  using assms by (simp add: reactor_locked_def with_lock_free)

lemma rest_updates [simp]:
  "rest (s\<lparr>rx_mutex := m\<rparr>) = rest s" "rest (s\<lparr>rx_handlers := h\<rparr>) = rest s"
  "rest (s\<lparr>ev_next := k\<rparr>) = rest s"
  "center_ok (s\<lparr>rx_mutex := m\<rparr>) c = center_ok s c"
  "live_notifier r (s\<lparr>rx_mutex := m\<rparr>) p = live_notifier r s p"
  by (simp_all add: rest_def center_ok_def free_observer_def live_notifier_def)

text \<open>\<open>getNotifier\<close> for a handler that is added.\<close>

lemma get_notifier_spec:
  assumes "reactor_ok s"
  obtains p t where "get_notifier sock True s = (Ret (Some p), t)" "reactor_ok t" "live_notifier 2 t p"
    "rest t = rest s" "rx_handlers t \<noteq> []"
proof -
  let ?l = "s\<lparr>rx_mutex := locked (rx_mutex s)\<rparr>"
  have lk: "can_lock (rx_mutex s)" "map_ok (rx_handlers s)" using assms by (auto simp: reactor_ok_def)
  have cl: "center_ok ?l c = center_ok s c" for c by (simp add: center_ok_def free_observer_def)
  have un: "s\<lparr>rx_mutex := locked (rx_mutex s), rx_mutex := unlocked (locked (rx_mutex s))\<rparr> = s" by simp
  show thesis
  proof (cases "map_find (sock_key sock) (rx_handlers s)")
    case (Some kp)
    obtain k p where kp: "kp = (k, p)" by (rule prod.exhaust)
    then have live: "live_notifier 1 s p" using assms Some by (auto simp: reactor_ok_def)
    then obtain n where n: "rx_notifiers s p = Some n" "m_depth (nf_mutex n) = 0" "1 \<le> nf_refs n"
      "None \<notin># nf_events n" "center_ok s p" "p < ev_next s"
      by (auto simp: live_notifier_def)
    let ?t = "put_notifier p (n\<lparr>nf_refs := Suc (nf_refs n)\<rparr>) s"
    have "get_notifier sock True s = (Ret (Some p), ?t)"
      using lk Some kp n(1)
      by (simp add: get_notifier_def reactor_locked_def with_lock_free on_exit_def bnd_def thn_def
          share_notifier_def get_notifier_at_def) (simp add: put_notifier_def)
    moreover have "live_notifier r ?t q" if "live_notifier r s q" for q r
      using that n by (auto simp: live_notifier_def)
    moreover have "live_notifier 2 ?t p" using n by (auto simp: live_notifier_def)
    moreover have "rx_handlers s \<noteq> []" using Some by auto
    ultimately show thesis using that assms by (auto simp: reactor_ok_def)
  next
    case None
    let ?p = "ev_next s"
    let ?h = "map_put (sock_key sock) (sock, ?p) (rx_handlers s)"
    let ?u = "set_center ?p center_new (put_notifier ?p (notifier_of sock) (?l\<lparr>ev_next := Suc ?p\<rparr>))"
    let ?v = "put_notifier ?p ((notifier_of sock)\<lparr>nf_refs := 2\<rparr>) (?u\<lparr>rx_handlers := ?h\<rparr>)"
    let ?t = "?v\<lparr>rx_mutex := rx_mutex s\<rparr>"
    have new: "notifier_new sock ?l = (Ret ?p, ?u)" by (simp add: notifier_new_def bnd_def thn_def)
    have share: "share_notifier ?p (?u\<lparr>rx_handlers := ?h\<rparr>) = (Ret (), ?v)"
      by (simp add: share_notifier_spec notifier_of_def numeral_2_eq_2)
    have run: "get_notifier sock True s = (Ret (Some ?p), ?t)"
      unfolding get_notifier_def
      by (rule reactor_locked_Ret [OF lk(1)]) (use None new share in \<open>simp_all add: bnd_def thn_def\<close>)
    have old: "live_notifier r ?t q" if "live_notifier r s q" for q r
    proof -
      have q: "q < ev_next s" "center_ok s q" using that by (auto simp: live_notifier_def)
      have "center_ok ?t q" by (rule center_ok_cong [OF q(2)]) (use q(1) in simp_all)
      then show ?thesis using that q(1) by (simp add: live_notifier_def)
    qed
    have new2: "live_notifier 2 ?t ?p"
      by (simp add: live_notifier_def notifier_of_def center_ok_def center_new_def new_mutex_def)
    then have new1: "live_notifier 1 ?t ?p" by (auto simp: live_notifier_def)
    have "reactor_ok ?t"
      using assms old new1 by (auto simp: reactor_ok_def map_ok_put map_find_put split: if_splits)
    then show thesis using that [OF run _ new2] by simp
  qed
qed

lemma live_keeps:
  assumes "live_notifier r s p" "ev_centers t p = ev_centers s p" "ev_next s \<le> ev_next t"
    "rx_notifiers t p = rx_notifiers s p" "\<And>a. a < ev_next s \<Longrightarrow> ev_observers t a = ev_observers s a"
  shows "live_notifier r t p"
  using assms center_ok_cong [of s p t] by (auto simp: live_notifier_def)

lemma notifier_locked_gets:
  assumes "rx_notifiers s p = Some n" "m_depth (nf_mutex n) = 0"
    and "m (put_notifier p (n\<lparr>nf_mutex := locked (nf_mutex n)\<rparr>) s) =
      (Ret x, put_notifier p (n\<lparr>nf_mutex := locked (nf_mutex n)\<rparr>) s)"
  shows "notifier_locked p m s = (Ret x, s)"
  using assms by (simp add: notifier_locked_def with_lock_free) (simp add: put_notifier_def fun_upd_idem)

lemma notifier_accepts_spec:
  assumes "rx_notifiers s p = Some n" "m_depth (nf_mutex n) = 0"
  shows "notifier_accepts p e s = (Ret (e \<in># nf_events n), s)"
  unfolding notifier_accepts_def
  by (rule notifier_locked_gets [OF assms]) (simp add: bnd_def get_notifier_at_def)

lemma no_notes_accepts: "no_notes s \<Longrightarrow> first_accepted ob (event_pointers s) t = (Ret None, t)"
  by (simp add: no_notes_def event_pointers_def bnd_def observer_accepts_def)

text \<open>\<open>addObserver\<close> of a notifier whose reactor has no notifications.\<close>

lemma notifier_add_null:
  assumes live: "live_notifier r s p" and nn: "no_notes s"
  obtains t where "notifier_add p ob s = (Ret (), t)" "live_notifier r t p" "rest t = rest s"
    "rx_handlers t = rx_handlers s" "rx_mutex t = rx_mutex s" "rx_notifiers t = rx_notifiers s"
    "\<And>q d. live_notifier q s d \<Longrightarrow> live_notifier q t d"
proof -
  obtain n where n: "p < ev_next s" "center_ok s p" "rx_notifiers s p = Some n" "m_depth (nf_mutex n) = 0"
    using live by (auto simp: live_notifier_def)
  obtain t where t: "nc_add p ob s = (Ret (), t)" "center_ok t p" "env_frame p s t"
    "ev_next t = Suc (ev_next s)" "\<And>a. a \<noteq> ev_next s \<Longrightarrow> ev_observers t a = ev_observers s a"
    using nc_add_spec [OF n(2), of ob] by metis
  have m: "rx_notifiers t = rx_notifiers s" "rx_handlers t = rx_handlers s" "rx_mutex t = rx_mutex s"
    "rest t = rest s" "event_pointers t = event_pointers s"
    using more_rx [of t s] t(3) by (auto simp: env_frame_def)
  have "notifier_locked p (bnd (gets event_pointers) (\<lambda>ps. bnd (first_accepted ob ps)
      (\<lambda>found. case found of None \<Rightarrow> ret () | Some e \<Rightarrow> change_events p (add_mset e)))) t = (Ret (), t)"
    by (rule notifier_locked_gets [of _ _ n])
      (use n m in \<open>simp_all add: bnd_def no_notes_accepts [OF nn]\<close>)
  then have run: "notifier_add p ob s = (Ret (), t)" using t(1) by (simp add: notifier_add_def thn_def)
  have others: "live_notifier q t d" if "live_notifier q s d" for q d
  proof (cases "d = p")
    case True
    then show ?thesis using that t(2,4) m(1) by (auto simp: live_notifier_def)
  next
    case False
    then show ?thesis
      using t(3-5) m(1) by (intro live_keeps [OF that]) (auto simp: env_frame_def)
  qed
  show thesis using that [OF run] live m others by blast
qed

lemma release_shared:
  assumes "live_notifier 2 s p"
  obtains t n where "release_notifier p s = (Ret (), t)" "t = put_notifier p n s" "live_notifier 1 t p"
    "\<And>q. q \<noteq> p \<Longrightarrow> live_notifier 1 s q \<Longrightarrow> live_notifier 1 t q"
proof -
  obtain n where n: "p < ev_next s" "center_ok s p" "rx_notifiers s p = Some n" "m_depth (nf_mutex n) = 0"
    "2 \<le> nf_refs n" "None \<notin># nf_events n"
    using assms by (auto simp: live_notifier_def)
  let ?n = "n\<lparr>nf_refs := nf_refs n - 1\<rparr>"
  have "release_notifier p s = (Ret (), put_notifier p ?n s)"
    using n by (simp add: release_notifier_def bnd_def get_notifier_at_def)
  moreover have "live_notifier 1 (put_notifier p ?n s) p" using n by (auto simp: live_notifier_def)
  moreover have "live_notifier 1 (put_notifier p ?n s) q" if "q \<noteq> p" "live_notifier 1 s q" for q
    using that by (auto simp: live_notifier_def)
  ultimately show thesis using that by blast
qed

text \<open>Adding a handler to such a reactor changes neither the poll set nor the world.\<close>

lemma add_event_handler_null:
  assumes ok: "reactor_ok s" and nn: "no_notes s"
  obtains t where "add_event_handler as_key addr sock ob s = (Ret (), t)" "reactor_ok t"
    "rest t = rest s" "rx_handlers t \<noteq> []"
proof -
  obtain p s1 where s1: "get_notifier sock True s = (Ret (Some p), s1)" "reactor_ok s1"
    "live_notifier 2 s1 p" "rest s1 = rest s" "rx_handlers s1 \<noteq> []"
    by (rule get_notifier_spec [OF ok])
  have nn1: "no_notes s1" using rest_no_notes [OF s1(4)] nn by simp
  have c1: "center_ok s1 p" using s1(3) by (simp add: live_notifier_def)
  define known where "known = (observer_id ob \<in> set (nc_ids s1 p))"
  have has: "nc_has p ob s1 = (Ret known, s1)" using nc_queries(1) [OF c1] by (simp add: known_def)
  obtain s2 where s2: "(if \<not> known then notifier_add p ob else ret ()) s1 = (Ret (), s2)"
    "live_notifier 2 s2 p" "rest s2 = rest s1" "rx_handlers s2 = rx_handlers s1" "rx_mutex s2 = rx_mutex s1"
    "\<And>q d. live_notifier q s1 d \<Longrightarrow> live_notifier q s2 d"
  proof (cases known)
    case True
    then show thesis using that [of s1] s1(3) by simp
  next
    case False
    then show thesis using that by (auto intro: notifier_add_null [OF s1(3) nn1, of ob])
  qed
  have nn2: "no_notes s2" using rest_no_notes [OF s2(3)] nn1 by simp
  obtain n where n: "rx_notifiers s2 p = Some n" "m_depth (nf_mutex n) = 0" "None \<notin># nf_events n"
    using s2(2) by (auto simp: live_notifier_def)
  have mode: "notifier_mode p s2 = (Ret 0, s2)"
    using nn2 n by (simp add: notifier_mode_def bnd_def notifier_accepts_spec no_notes_def)
  obtain t m where t: "release_notifier p s2 = (Ret (), t)" "t = put_notifier p m s2" "live_notifier 1 t p"
    "\<And>q. q \<noteq> p \<Longrightarrow> live_notifier 1 s2 q \<Longrightarrow> live_notifier 1 t q"
    using release_shared [OF s2(2)] by blast
  have run: "add_event_handler as_key addr sock ob s = (Ret (), t)"
    using s1(1) has s2(1) mode t(1)
    by (simp add: add_event_handler_def with_notifier_def bnd_def thn_def finally_run_def)
  have "live_notifier 1 t q" if "map_find k (rx_handlers t) = Some (sk, q)" for k sk q
    using that s1(2) s2(4,6) t(2-4) by (cases "q = p") (auto simp: reactor_ok_def)
  then have "reactor_ok t" using s1(2) s2(4,5) t(2) by (simp add: reactor_ok_def)
  then show thesis using that [OF run] t(2) s1(4,5) s2(3,4) by simp
qed

fun add_handlers :: "(socket \<Rightarrow> int) \<Rightarrow> (int \<times> socket \<times> observer) list \<Rightarrow> ('z, unit) rx_prog" where
  "add_handlers as_key [] = ret ()"
| "add_handlers as_key ((addr, sock, ob) # hs) =
     thn (add_event_handler as_key addr sock ob) (add_handlers as_key hs)"

lemma add_handlers_null:
  assumes "reactor_ok s" "no_notes s"
  shows "\<exists>t. add_handlers as_key hs s = (Ret (), t) \<and> reactor_ok t \<and> rest t = rest s \<and>
     (hs \<noteq> [] \<longrightarrow> rx_handlers t \<noteq> [])"
  using assms
proof (induction hs arbitrary: s)
  case (Cons h hs)
  obtain addr sock ob where h: "h = (addr, sock, ob)" by (rule prod_cases3)
  obtain t where t: "add_event_handler as_key addr sock ob s = (Ret (), t)" "reactor_ok t"
    "rest t = rest s" "rx_handlers t \<noteq> []"
    by (rule add_event_handler_null [OF Cons.prems])
  have "no_notes t" using rest_no_notes [OF t(3)] Cons.prems(2) by simp
  from Cons.IH [OF t(2) this] obtain u where
    u: "add_handlers as_key hs t = (Ret (), u)" "reactor_ok u" "rest u = rest t"
      "hs \<noteq> [] \<longrightarrow> rx_handlers u \<noteq> []"
    by blast
  then show ?case using t h by (cases "hs = []") auto
qed simp

text \<open>What the users of the reactor (acceptors, connectors, service handlers) rely on when they register: it
  succeeds, and it leaves the part of the state that they look at alone.\<close>

locale enrolment =
  fixes enrol :: "'x \<Rightarrow> ('s, unit) prog" and idle :: "'s \<Rightarrow> bool" and view :: "'s \<Rightarrow> 'v"
  assumes enrols: "idle s \<Longrightarrow> \<exists>t. enrol x s = (Ret (), t) \<and> idle t \<and> view t = view s"
begin

lemma enrol_all: "idle s \<Longrightarrow> \<exists>t. run_each enrol xs s = (Ret (), t) \<and> idle t \<and> view t = view s"
proof (induction xs arbitrary: s)
  case (Cons x xs)
  obtain t where t: "enrol x s = (Ret (), t)" "idle t" "view t = view s" using enrols [OF Cons.prems] by blast
  then show ?case using Cons.IH [OF t(2)] by (auto simp: thn_apply)
qed (simp add: ret_def)

text \<open>The body of a constructor that registers and undoes its work when that throws.\<close>

lemma enrol_new:
  assumes "idle s"
  shows "\<exists>t. catch_rethrow (thn (enrol x) (thn (enrol y) (ret a))) h s = (Ret a, t) \<and> idle t \<and> view t = view s"
  using enrol_all [OF assms, of "[x, y]"]
  by (auto simp: catch_rethrow_def thn_apply split: prod.splits outcome.splits)

end

interpretation rx: enrolment "\<lambda>(addr, sock, ob). add_event_handler as_key addr sock ob" "\<lambda>s. reactor_ok s \<and> no_notes s" rest
  for as_key
proof (unfold_locales, goal_cases)
  case (1 s x)
  obtain addr sock ob where x: "x = (addr, sock, ob)" by (rule prod_cases3)
  have ok: "reactor_ok s" "no_notes s" using 1 by simp_all
  obtain t where "add_event_handler as_key addr sock ob s = (Ret (), t)" "reactor_ok t" "rest t = rest s"
    by (rule add_event_handler_null [OF ok])
  then show ?case using x ok(2) rest_no_notes [of t s] by simp
qed

lemma reactor_init_ok: "reactor_ok (reactor_init ps w z)" "no_notes (reactor_init ps w z)"
  by (simp_all add: reactor_ok_def reactor_init_def no_notes_def new_mutex_def)

lemma run_each_share:
  "\<forall>p\<in>set ps. rx_notifiers s p \<noteq> None \<Longrightarrow>
     \<exists>t. run_each share_notifier ps s = (Ret (), t) \<and> rx_mutex t = rx_mutex s \<and>
       rx_world t = rx_world s \<and> (\<forall>q. rx_notifiers s q \<noteq> None \<longrightarrow> rx_notifiers t q \<noteq> None)"
proof (induction ps arbitrary: s)
  case (Cons p ps)
  then obtain n where n: "rx_notifiers s p = Some n" by auto
  let ?u = "put_notifier p (n\<lparr>nf_refs := Suc (nf_refs n)\<rparr>) s"
  have "\<forall>q\<in>set ps. rx_notifiers ?u q \<noteq> None" using Cons.prems by simp
  from Cons.IH [OF this] show ?case using n by (fastforce simp: share_notifier_spec)
qed simp

text \<open>With a handler, a dispatch of the null pointer to all handlers dereferences it.\<close>

lemma dispatch_to_null:
  "rx_notifiers s p \<noteq> None \<Longrightarrow> dispatch_to cb p None s = (Fail (Undef Null_deref), s)"
  by (auto simp: dispatch_to_def notifier_dispatch_def get_notifier_at_def set_note_socket_none bnd_apply thn_apply
      catch_all_apply)

lemma dispatch_all_null:
  assumes ok: "reactor_ok s" and h: "rx_handlers s \<noteq> []"
  shows "\<exists>u. dispatch_all cb None s = (Fail (Undef Null_deref), u) \<and> rx_world u = rx_world s"
proof -
  let ?s = "s\<lparr>rx_mutex := locked (rx_mutex s)\<rparr>"
  let ?ps = "map (snd \<circ> snd) (rx_handlers s)"
  have live: "\<forall>p\<in>set ?ps. rx_notifiers ?s p \<noteq> None"
  proof
    fix p assume "p \<in> set ?ps"
    then obtain k sk where e: "(k, sk, p) \<in> set (rx_handlers s)" by force
    have "sorted_wrt (<) (map fst (rx_handlers s))" using ok by (simp add: reactor_ok_def map_ok_def)
    then have "distinct (map fst (rx_handlers s))" by (simp add: strict_sorted_iff)
    then have "map_find k (rx_handlers s) = Some (sk, p)" using e by (simp add: map_find_def)
    then have "live_notifier 1 s p" using ok by (auto simp: reactor_ok_def)
    then show "rx_notifiers ?s p \<noteq> None" by (auto simp: live_notifier_def)
  qed
  obtain t where t: "run_each share_notifier ?ps ?s = (Ret (), t)" "rx_mutex t = rx_mutex ?s"
      "rx_world t = rx_world ?s" "\<forall>q. rx_notifiers ?s q \<noteq> None \<longrightarrow> rx_notifiers t q \<noteq> None"
    using run_each_share [OF live] by blast
  have lk: "can_lock (rx_mutex s)" using ok by (simp add: reactor_ok_def)
  have "reactor_locked (bnd (gets (\<lambda>s. map (snd \<circ> snd) (rx_handlers s)))
      (\<lambda>ps. thn (run_each share_notifier ps) (ret ps))) s = (Ret ?ps, t\<lparr>rx_mutex := rx_mutex s\<rparr>)"
    by (rule reactor_locked_Ret [OF lk]) (use t in \<open>simp_all add: bnd_def thn_def\<close>)
  moreover obtain p ps where p: "?ps = p # ps" using h by (cases "rx_handlers s") auto
  moreover have "rx_notifiers (t\<lparr>rx_mutex := rx_mutex s\<rparr>) p \<noteq> None"
    using live t(4) p by (metis list.set_intros(1) reactor.select_convs(1) reactor.surjective reactor.update_convs(3))
  ultimately show ?thesis
    using t(3) by (simp add: dispatch_all_def bnd_apply thn_apply finally_run_def dispatch_to_null)
qed

text \<open>The first turn of a reactor without notifications that has a handler.\<close>

lemma first_turn_null:
  assumes "reactor_ok t" "no_notes t" "rx_handlers t \<noteq> []" "can_lock (ps_mutex (rx_poll t))" "ps_map (rx_poll t) = []"
  shows "\<exists>u. reactor_turn cb t = (Fail (Undef Null_deref), u) \<and> rx_world u = rx_world t"
proof -
  have "on_poll poll_empty t = (Ret True, t)"
    using assms(4,5) by (simp add: on_poll_def zoom_def poll_empty_def)
  then have none: "has_socket_handlers t = (Ret False, t)" by (simp add: has_socket_handlers_def bnd_def)
  obtain u where "dispatch_all cb None t = (Fail (Undef Null_deref), u)" "rx_world u = rx_world t"
    using dispatch_all_null [OF assms(1,3)] by blast
  moreover have "rx_idle t = None" using assms(2) by (simp add: no_notes_def)
  ultimately show ?thesis using none by (simp add: reactor_turn_def bnd_apply on_idle_def catch_all_apply)
qed

lemma registered_mode:
  assumes "reactor_ok t" "no_notes t" "map_find k (rx_handlers t) = Some (sk, p)"
  shows "notifier_mode p t = (Ret 0, t)"
proof -
  have "live_notifier 1 t p" using assms(1,3) by (auto simp: reactor_ok_def)
  then obtain n where "rx_notifiers t p = Some n" "m_depth (nf_mutex n) = 0" "None \<notin># nf_events n"
    by (auto simp: live_notifier_def)
  then show ?thesis using assms(2) by (simp add: notifier_mode_def bnd_def notifier_accepts_spec no_notes_def)
qed

text \<open>C29. The reactor never assigns its six notifications. On a reactor and a poll set as they are constructed, whatever
  observers are registered for whatever sockets: registering succeeds, and yet each registered socket has the mode 0, so no
  descriptor is ever given to the kernel (the poll set and the trace of system calls stay as they were), and the first turn of
  \<open>run\<close>, which finds no socket handlers and dispatches the idle notification, dereferences a null pointer.\<close>

theorem reactor_never_serves:
  assumes "can_lock (ps_mutex ps)" "ps_map ps = []" "hs \<noteq> []"
  shows "\<exists>t u. add_handlers as_key hs (reactor_init ps w z) = (Ret (), t) \<and> rx_poll t = ps \<and> rx_world t = w \<and>
     (\<forall>k sk p. map_find k (rx_handlers t) = Some (sk, p) \<longrightarrow> notifier_mode p t = (Ret 0, t)) \<and>
     reactor_run cb (Suc n) t = (Fail (Undef Null_deref), u) \<and> rx_world u = w"
proof -
  obtain t where t: "add_handlers as_key hs (reactor_init ps w z) = (Ret (), t)" "reactor_ok t"
    "rest t = rest (reactor_init ps w z)" "rx_handlers t \<noteq> []"
  proof -
    have "\<exists>t. add_handlers as_key hs (reactor_init ps w z) = (Ret (), t) \<and> reactor_ok t \<and>
        rest t = rest (reactor_init ps w z) \<and> (hs \<noteq> [] \<longrightarrow> rx_handlers t \<noteq> [])"
      by (rule add_handlers_null [OF reactor_init_ok])
    then show thesis using that assms(3) by blast
  qed
  have r: "rx_poll t = ps" "rx_world t = w" "\<not> rx_stop t" "no_notes t"
    using t(3) rest_no_notes [OF t(3)] reactor_init_ok(2) by (simp_all add: rest_def reactor_init_def)
  obtain u where "reactor_turn cb t = (Fail (Undef Null_deref), u)" "rx_world u = rx_world t"
    using first_turn_null [OF t(2) r(4) t(4)] r(1) assms(1,2) by blast
  moreover have "\<forall>k sk p. map_find k (rx_handlers t) = Some (sk, p) \<longrightarrow> notifier_mode p t = (Ret 0, t)"
    using registered_mode [OF t(2) r(4)] by blast
  ultimately show ?thesis using t(1) r by (simp add: thn_apply)
qed

subsection \<open>A notifier and its observers\<close>

text \<open>A reactor whose notifications exist, as the code means it to be.\<close>

definition installed :: "'z reactor_scheme \<Rightarrow> bool" where
  "installed s \<longleftrightarrow> distinct (event_pointers s) \<and>
     (\<exists>r w e t. event_pointers s = [Some r, Some w, Some e, Some t] \<and>
       map_option nt_kind (ev_notes s r) = Some Readable_Note \<and>
       map_option nt_kind (ev_notes s w) = Some Writable_Note \<and>
       map_option nt_kind (ev_notes s e) = Some Error_Note \<and>
       map_option nt_kind (ev_notes s t) = Some Timeout_Note)"

text \<open>What an observer of a class of notifications is filed under: the first of the four that is of
  the class, so an observer of a base class counts as a reader.\<close>

fun event_of :: "'z reactor_scheme \<Rightarrow> note_kind \<Rightarrow> nat option option" where
  "event_of s Plain_Note = Some (rx_readable s)"
| "event_of s Socket_Note = Some (rx_readable s)"
| "event_of s Readable_Note = Some (rx_readable s)"
| "event_of s Writable_Note = Some (rx_writable s)"
| "event_of s Error_Note = Some (rx_error s)"
| "event_of s Timeout_Note = Some (rx_timeout s)"
| "event_of s _ = None"

definition expected_events ::
  "'z reactor_scheme \<Rightarrow> (nat \<times> note_kind \<times> nat option \<times> nat) list \<Rightarrow> nat option multiset" where
  "expected_events s l = mset (List.map_filter (\<lambda>i. event_of s (fst (snd i))) l)"

lemma first_accepted_installed:
  assumes "installed s" "ev_notes t = ev_notes s"
  shows "first_accepted ob (event_pointers s) t = (Ret (event_of s (ob_note ob)), t)"
proof -
  obtain r w e u where p: "event_pointers s = [Some r, Some w, Some e, Some u]"
    "map_option nt_kind (ev_notes s r) = Some Readable_Note" "map_option nt_kind (ev_notes s w) = Some Writable_Note"
    "map_option nt_kind (ev_notes s e) = Some Error_Note" "map_option nt_kind (ev_notes s u) = Some Timeout_Note"
    using assms(1) by (auto simp: installed_def)
  have acc: "observer_accepts ob (Some a) t = (Ret (is_a k (ob_note ob)), t)"
    if "map_option nt_kind (ev_notes s a) = Some k" for a k
    using that assms(2) by (auto simp: observer_accepts_def get_note_def bnd_def)
  have q: "rx_readable s = Some r" "rx_writable s = Some w" "rx_error s = Some e" "rx_timeout s = Some u"
    using p(1) by (simp_all add: event_pointers_def)
  show ?thesis
    unfolding p(1)
    by (cases "ob_note ob") (simp_all add: bnd_def acc [OF p(2)] acc [OF p(3)] acc [OF p(4)] acc [OF p(5)] is_a_def q)
qed

lemma map_filter_member: "x \<in> set l \<Longrightarrow> f x = Some y \<Longrightarrow> y \<in># mset (List.map_filter f l)"
  by (induction l) (auto simp: List.map_filter_simps split: option.split)

lemma map_filter_remove1:
  "x \<in> set l \<Longrightarrow> mset (List.map_filter f (remove1 x l)) =
     mset (List.map_filter f l) - (case f x of None \<Rightarrow> {#} | Some y \<Rightarrow> {#y#})"
proof (induction l)
  case (Cons a l)
  show ?case
  proof (cases "x = a")
    case False
    then have x: "x \<in> set l" using Cons.prems by simp
    show ?thesis
    proof (cases "f x")
      case (Some y)
      have "y \<in># mset (List.map_filter f l)" using map_filter_member [of x l f y] x Some by blast
      then show ?thesis
        using Cons.IH [OF x] False Some diff_union_swap2 [of y "mset (List.map_filter f l)"]
        by (cases "f a") (simp_all add: List.map_filter_simps)
    qed (use Cons.IH [OF x] False in \<open>simp add: List.map_filter_simps split: option.split\<close>)
  qed (auto simp: List.map_filter_simps split: option.split)
qed simp

lemma map_filter_snoc:
  "List.map_filter f (l @ [x]) = List.map_filter f l @ (case f x of None \<Rightarrow> [] | Some y \<Rightarrow> [y])"
  by (induction l) (auto simp: List.map_filter_simps split: option.split)

definition tracks :: "nat \<Rightarrow> 'z reactor_scheme \<Rightarrow> bool" where
  "tracks p s \<longleftrightarrow> installed s \<and> center_ok s p \<and>
     (\<exists>n. rx_notifiers s p = Some n \<and> m_depth (nf_mutex n) = 0 \<and> nf_events n = expected_events s (nc_ids s p))"

text \<open>What a change of the center leaves of the reactor.\<close>

lemma center_change:
  assumes "env_frame p s t"
  shows "rx_notifiers t = rx_notifiers s" "event_pointers t = event_pointers s" "ev_notes t = ev_notes s"
    "installed t = installed s" "expected_events t = expected_events s"
proof -
  have m: "env.more t = env.more s" "ev_notes t = ev_notes s" using assms by (auto simp: env_frame_def)
  from more_rx [OF m(1)] show ep: "rx_notifiers t = rx_notifiers s" "event_pointers t = event_pointers s" by auto
  show "ev_notes t = ev_notes s" using m(2) .
  then show "installed t = installed s" using ep by (simp add: installed_def)
  have "event_of t k = event_of s k" for k
    using ep(2) by (cases k) (simp_all add: event_pointers_def)
  then show "expected_events t = expected_events s" by (simp add: fun_eq_iff expected_events_def)
qed

text \<open>Changing the events under the notifier's mutex.\<close>

lemma change_events_locked:
  assumes n: "rx_notifiers s p = Some n" "m_depth (nf_mutex n) = 0" and i: "installed s"
  shows "notifier_locked p (bnd (gets event_pointers) (\<lambda>ps. bnd (first_accepted ob ps)
      (\<lambda>found. case found of None \<Rightarrow> ret () | Some e \<Rightarrow> change_events p (f e)))) s =
     (Ret (), case event_of s (ob_note ob) of None \<Rightarrow> s
       | Some e \<Rightarrow> put_notifier p (n\<lparr>nf_events := f e (nf_events n)\<rparr>) s)"
proof -
  let ?n = "n\<lparr>nf_mutex := locked (nf_mutex n)\<rparr>"
  have put2: "put_notifier p x (put_notifier p y s) = put_notifier p x s" for x y
    by (simp add: put_notifier_def)
  have same: "put_notifier p n s = s" using n(1) by (simp add: put_notifier_def fun_upd_idem)
  have fa: "first_accepted ob (event_pointers s) (put_notifier p ?n s) =
      (Ret (event_of s (ob_note ob)), put_notifier p ?n s)"
    by (rule first_accepted_installed [OF i]) simp
  show ?thesis
    using n
    by (cases "event_of s (ob_note ob)")
      (simp_all add: notifier_locked_def with_lock_free on_exit_def bnd_def fa change_events_def
        get_notifier_at_def put2 same)
qed

lemma installed_put [simp]: "installed (put_notifier p n s) = installed s"
  by (simp add: installed_def)

lemma event_of_put [simp]: "event_of (put_notifier p n s) k = event_of s k"
  by (cases k) (simp_all add: put_notifier_def)

lemma expected_put [simp]: "expected_events (put_notifier p n s) l = expected_events s l"
  by (simp add: expected_events_def)

lemma nc_ids_put [simp]: "nc_ids (put_notifier p n s) c = nc_ids s c"
proof -
  have "id_at (put_notifier p n s) = id_at s" by (simp add: fun_eq_iff id_at_def)
  then show ?thesis by (simp add: nc_ids_def nc_list_def)
qed

definition notifier_drop :: "nat \<Rightarrow> observer \<Rightarrow> ('z, unit) rx_prog" where
  "notifier_drop p ob = bnd (nc_has p ob) (\<lambda>known. if known then notifier_remove p ob else ret ())"

text \<open>A notifier is a registry too; its events stay in step with its observers.\<close>

interpretation nf: registry "notifier_add p" "notifier_drop p" "\<lambda>s. nc_ids s p" observer_id "tracks p"
  for p
proof (unfold_locales, goal_cases)
  case (1 s ob)
  obtain n where n: "installed s" "center_ok s p" "rx_notifiers s p = Some n" "m_depth (nf_mutex n) = 0"
    "nf_events n = expected_events s (nc_ids s p)"
    using 1 by (auto simp: tracks_def)
  obtain t where t: "nc_add p ob s = (Ret (), t)" "center_ok t p" "nc_ids t p = nc_ids s p @ [observer_id ob]"
    "env_frame p s t"
    by (rule nc_add_spec [OF n(2)])
  note ch = center_change [OF t(4)]
  let ?u = "case event_of t (ob_note ob) of None \<Rightarrow> t
       | Some e \<Rightarrow> put_notifier p (n\<lparr>nf_events := add_mset e (nf_events n)\<rparr>) t"
  have e': "nf_events n = expected_events t (nc_ids s p)" using n(5) ch(5) by simp
  have "notifier_add p ob s = (Ret (), ?u)"
    using t(1) change_events_locked [of t p n ob add_mset] ch n by (simp add: notifier_add_def thn_def)
  moreover have "tracks p ?u \<and> nc_ids ?u p = nc_ids s p @ [observer_id ob]"
  proof (cases "event_of t (ob_note ob)")
    case None
    have "expected_events t (nc_ids t p) = nf_events n"
      using e' t(3) None by (simp add: expected_events_def map_filter_snoc observer_id_def)
    then show ?thesis using n(1,3,4) t(2,3) ch(1,4) None by (simp add: tracks_def)
  next
    case (Some e)
    have "expected_events t (nc_ids t p) = add_mset e (nf_events n)"
      using e' t(3) Some by (simp add: expected_events_def map_filter_snoc observer_id_def)
    then show ?thesis using n(1,3,4) t(2,3) ch(1,4) Some by (simp add: tracks_def)
  qed
  ultimately show ?case by blast
next
  case (2 s ob)
  obtain n where n: "installed s" "center_ok s p" "rx_notifiers s p = Some n" "m_depth (nf_mutex n) = 0"
    "nf_events n = expected_events s (nc_ids s p)"
    using 2 by (auto simp: tracks_def)
  show ?case
  proof (cases "observer_id ob \<in> set (nc_ids s p)")
    case False
    then show ?thesis using 2 nc_queries(1) [OF n(2)] by (simp add: notifier_drop_def bnd_def remove1_idem)
  next
    case True
    obtain t where t: "nc_remove p ob s = (Ret (), t)" "center_ok t p"
      "nc_ids t p = remove1 (observer_id ob) (nc_ids s p)" "env_frame p s t"
      by (rule nc_remove_spec [OF n(2)])
    note ch = center_change [OF t(4)]
    have e': "nf_events n = expected_events t (nc_ids s p)" using n(5) ch(5) by simp
    let ?f = "\<lambda>e es. if e \<in># es then es - {#e#} else es"
    let ?u = "case event_of t (ob_note ob) of None \<Rightarrow> t
       | Some e \<Rightarrow> put_notifier p (n\<lparr>nf_events := ?f e (nf_events n)\<rparr>) t"
    have "notifier_drop p ob s = (Ret (), ?u)"
      using t(1) change_events_locked [of t p n ob ?f] ch n True nc_queries(1) [OF n(2)]
      by (simp add: notifier_drop_def notifier_remove_def thn_def bnd_def)
    moreover have k: "fst (snd (observer_id ob)) = ob_note ob" by (simp add: observer_id_def)
    moreover have "tracks p ?u \<and> nc_ids ?u p = remove1 (observer_id ob) (nc_ids s p)"
    proof (cases "event_of t (ob_note ob)")
      case None
      then show ?thesis
        using n(1-4) e' t ch(1-4) map_filter_remove1 [OF True, of "\<lambda>i. event_of t (fst (snd i))"] k
        by (simp add: tracks_def expected_events_def)
    next
      case (Some e)
      have "e \<in># expected_events t (nc_ids s p)"
        using map_filter_member [OF True, of "\<lambda>i. event_of t (fst (snd i))" e] Some k
        by (simp add: expected_events_def)
      then show ?thesis
        using n(1-4) e' t ch(1-4) map_filter_remove1 [OF True, of "\<lambda>i. event_of t (fst (snd i))"] k Some
        by (simp add: tracks_def expected_events_def)
    qed
    ultimately show ?thesis by blast
  qed
qed

text \<open>The mode that a list of observers asks for.\<close>

definition wants :: "note_kind list \<Rightarrow> nat \<times> note_kind \<times> nat option \<times> nat \<Rightarrow> bool" where
  "wants ks i \<longleftrightarrow> fst (snd i) \<in> set ks"

definition wanted_mode :: "(nat \<times> note_kind \<times> nat option \<times> nat) list \<Rightarrow> int" where
  "wanted_mode l =
     or (or (if list_ex (wants [Plain_Note, Socket_Note, Readable_Note]) l then POLL_READ else 0)
            (if list_ex (wants [Writable_Note]) l then POLL_WRITE else 0))
        (if list_ex (wants [Error_Note]) l then POLL_ERROR else 0)"

lemma expected_iff:
  assumes "installed s"
  shows "rx_readable s \<in># expected_events s l \<longleftrightarrow> list_ex (wants [Plain_Note, Socket_Note, Readable_Note]) l"
    "rx_writable s \<in># expected_events s l \<longleftrightarrow> list_ex (wants [Writable_Note]) l"
    "rx_error s \<in># expected_events s l \<longleftrightarrow> list_ex (wants [Error_Note]) l"
proof -
  have d: "distinct [rx_readable s, rx_writable s, rx_error s, rx_timeout s]"
    using assms by (simp add: installed_def event_pointers_def)
  have one: "(rx_readable s \<in># expected_events s [i] \<longleftrightarrow> wants [Plain_Note, Socket_Note, Readable_Note] i) \<and>
      (rx_writable s \<in># expected_events s [i] \<longleftrightarrow> wants [Writable_Note] i) \<and>
      (rx_error s \<in># expected_events s [i] \<longleftrightarrow> wants [Error_Note] i)" for i
    using d by (cases "fst (snd i)") (auto simp: expected_events_def List.map_filter_simps wants_def)
  have app: "e \<in># expected_events s (i # l) \<longleftrightarrow> e \<in># expected_events s [i] \<or> e \<in># expected_events s l" for e i l
    by (auto simp: expected_events_def List.map_filter_simps split: option.split)
  have nil: "expected_events s [] = {#}" by (simp add: expected_events_def List.map_filter_simps)
  show "rx_readable s \<in># expected_events s l \<longleftrightarrow> list_ex (wants [Plain_Note, Socket_Note, Readable_Note]) l"
    "rx_writable s \<in># expected_events s l \<longleftrightarrow> list_ex (wants [Writable_Note]) l"
    "rx_error s \<in># expected_events s l \<longleftrightarrow> list_ex (wants [Error_Note]) l"
  proof (induction l)
    case (Cons i l)
    note step = one [of i] app [of "rx_readable s" i l] app [of "rx_writable s" i l] app [of "rx_error s" i l]
    { case 1 show ?case using step Cons(1) by simp }
    { case 2 show ?case using step Cons(2) by simp }
    { case 3 show ?case using step Cons(3) by simp }
  qed (simp_all add: nil)
qed

text \<open>What the notifier is written for: with the notifications in place, which no code makes, the mode of a socket would be
  the union of what its registered observers ask for, after any sequence of \<open>addObserver\<close> and (known)
  \<open>removeObserver\<close> calls.\<close>

lemma notifier_mode_tracks:
  assumes "tracks p s"
  shows "\<exists>t. registry_run (notifier_add p) (notifier_drop p) ops s = (Ret (), t) \<and> tracks p t \<and>
     notifier_mode p t = (Ret (wanted_mode (fold (registry_step observer_id) ops (nc_ids s p))), t)"
proof -
  obtain t where t: "registry_run (notifier_add p) (notifier_drop p) ops s = (Ret (), t)" "tracks p t"
    "nc_ids t p = fold (registry_step observer_id) ops (nc_ids s p)"
    using nf.run_refines [OF assms, of ops] by blast
  obtain n where n: "installed t" "rx_notifiers t p = Some n" "m_depth (nf_mutex n) = 0"
    "nf_events n = expected_events t (nc_ids t p)"
    using t(2) by (auto simp: tracks_def)
  have "notifier_mode p t = (Ret (wanted_mode (nc_ids t p)), t)"
    using n expected_iff [OF n(1)]
    by (simp add: notifier_mode_def bnd_def notifier_accepts_spec wanted_mode_def)
  then show ?thesis using t by auto
qed

subsection \<open>Removing the last handler\<close>

text \<open>C30. Removing the last observer of a socket closes the socket's descriptor (the key of the
  handler map is destroyed) before it is taken out of the poll set, so the kernel's refusal of a
  closed descriptor becomes an exception, which leaves \<open>removeEventHandler\<close> before \<open>removeObserver\<close> is called. By then the
  entry of the socket is erased; the notifier and its center are destroyed on the way out, and the notifier's own copy of the
  socket closes the descriptor a second time. The poll set keeps its entry for the socket.\<close>

theorem remove_last_handler_closes_first:
  assumes h: "m_depth (rx_mutex s) = 0" "map_ok (rx_handlers s)"
      "map_find (sock_key sock) (rx_handlers s) = Some (k, p)" "sk_fd k = fd" "sk_fd sock = fd" "fd \<noteq> -1"
    and p: "rx_notifiers s p = Some n" "nf_refs n = 1" "sk_fd (nf_socket n) = fd"
      "center_ok s p" "nc_ids s p = [observer_id ob]"
    and ps: "can_lock (ps_mutex (rx_poll s))"
    and w: "w_script (rx_world s) = c # d # c2 # rs" "status_ok c" "rp_rc d = -1" "status_ok c2"
  shows "\<exists>t. remove_event_handler as_key addr sock ob s =
      (Fail (Thrown (Runtime_error (error_msg (rp_err d) []))), t) \<and>
     map fst (w_trace (rx_world t)) = map fst (w_trace (rx_world s)) @
       [Close fd, Epoll_ctl (ps_epollfd (rx_poll s)) EPOLL_CTL_DEL fd 0 0, Close fd] \<and>
     rx_handlers t = map_erase (sock_key sock) (rx_handlers s) \<and> rx_notifiers t p = None \<and> ev_centers t p = None \<and>
     rx_poll t = rx_poll s"
proof -
  let ?s1 = "put_notifier p (n\<lparr>nf_refs := 2\<rparr>) s"
  have lk: "can_lock (rx_mutex s)" using h(1) by simp
  have get: "get_notifier sock False s = (Ret (Some p), ?s1)"
  proof -
    have "get_notifier sock False s =
        (Ret (Some p), (put_notifier p (n\<lparr>nf_refs := 2\<rparr>) (s\<lparr>rx_mutex := locked (rx_mutex s)\<rparr>))\<lparr>rx_mutex := rx_mutex s\<rparr>)"
      unfolding get_notifier_def
      by (rule reactor_locked_Ret [OF lk]) (use h p in \<open>simp_all add: bnd_def thn_def share_notifier_spec numeral_2_eq_2\<close>)
    then show ?thesis by (simp add: put_notifier_def)
  qed
  have c1: "center_ok ?s1 p" using p(4) by simp
  have q: "nc_has p ob ?s1 = (Ret True, ?s1)" "nc_count p ?s1 = (Ret 1, ?s1)"
    using nc_queries [OF c1] p(5) by simp_all
  let ?w1 = "answered (Close fd) c (rx_world s)"
  let ?del = "Epoll_ctl (ps_epollfd (rx_poll s)) EPOLL_CTL_DEL fd 0 0"
  let ?w2 = "answered ?del d ?w1"
  let ?w3 = "answered (Close fd) c2 ?w2"
  let ?h = "map_erase (sock_key sock) (rx_handlers s)"
  have cl: "sys (Close fd) (rx_world s) = (Ret c, ?w1)"
    by (rule sys_reply [OF w(1)]) (use w(2) in simp)
  have dl: "sys ?del ?w1 = (Ret d, ?w2)"
    by (rule sys_reply [of _ d "c2 # rs"]) (use w in \<open>simp_all add: status_ok_def\<close>)
  have cl2: "sys (Close fd) ?w2 = (Ret c2, ?w3)"
    by (rule sys_reply [of _ c2 rs]) (use w in simp_all)
  let ?l = "?s1\<lparr>rx_mutex := locked (rx_mutex s)\<rparr>"
  let ?e = "(put_notifier p (n\<lparr>nf_refs := 1\<rparr>) (?l\<lparr>rx_handlers := ?h\<rparr>))\<lparr>rx_world := ?w1\<rparr>"
  let ?s2 = "?e\<lparr>rx_mutex := rx_mutex s\<rparr>"
  have rel1: "release_notifier p (?l\<lparr>rx_handlers := ?h\<rparr>) =
      (Ret (), put_notifier p (n\<lparr>nf_refs := 1\<rparr>) (?l\<lparr>rx_handlers := ?h\<rparr>))"
    by (simp add: release_notifier_def bnd_def get_notifier_at_def)
  have drop1: "rx_os (drop_socket k) (put_notifier p (n\<lparr>nf_refs := 1\<rparr>) (?l\<lparr>rx_handlers := ?h\<rparr>)) = (Ret (), ?e)"
    using h(4,6) cl by (simp add: rx_os_apply drop_socket_def INVALID_SOCKET_def bnd_def)
  have er: "erase_handler sock ?l = (Ret (), ?e)"
    using h(3) rel1 drop1 by (simp add: erase_handler_def bnd_def thn_def)
  have "reactor_locked (erase_handler sock) ?s1 = (Ret (), ?e\<lparr>rx_mutex := rx_mutex ?s1\<rparr>)"
    by (rule reactor_locked_Ret) (use lk er in simp_all)
  then have erased: "reactor_locked (erase_handler sock) ?s1 = (Ret (), ?s2)" by simp
  have s2: "rx_poll ?s2 = rx_poll s" "rx_world ?s2 = ?w1" "rx_notifiers ?s2 p = Some (n\<lparr>nf_refs := 1\<rparr>)"
    by simp_all
  have "poll_remove (as_key sock) sock (rx_poll s, ?w1) =
      (Fail (Thrown (Runtime_error (error_msg (rp_err d) []))), (rx_poll s, ?w2))"
    using dl w(3) h(5)
    by (simp add: poll_remove_def poll_locked_free [OF ps] on_exit_def bnd_def thn_def poll_ctl_apply poll_error_apply)
  then obtain s3 where s3: "on_poll (poll_remove (as_key sock) sock) ?s2 =
      (Fail (Thrown (Runtime_error (error_msg (rp_err d) []))), s3)"
    "rx_world s3 = ?w2" "rx_notifiers s3 p = Some (n\<lparr>nf_refs := 1\<rparr>)" "rx_handlers s3 = ?h" "rx_poll s3 = rx_poll s"
    using s2 by (simp add: on_poll_def zoom_def)
  obtain t where t: "release_notifier p s3 = (Ret (), t)" "rx_world t = ?w3"
      "rx_handlers t = ?h" "rx_notifiers t p = None" "ev_centers t p = None" "rx_poll t = rx_poll s"
    using s3(2-5) p(3) h(6) cl2
    by (simp add: release_notifier_def bnd_def thn_def get_notifier_at_def rx_os_apply drop_socket_def
        INVALID_SOCKET_def)
  have "remove_event_handler as_key addr sock ob s =
      (Fail (Thrown (Runtime_error (error_msg (rp_err d) []))), t)"
    using q erased s3(1) t(1)
    by (simp add: remove_event_handler_def with_notifier_def bnd_def [of "get_notifier sock False"] get
        finally_run_def bnd_def thn_def)
  then show ?thesis using t(2-6) by simp
qed

subsection \<open>Witnesses\<close>

definition sample_callback_rx :: "unit reactor_ext callback" where
  "sample_callback_rx obj m n = ret ()"

theorem reactor_never_serves_witness:
  "\<exists>t u. add_handlers sk_fd [(1, socket_of 7, observer_of 1 Readable_Note 100 7)]
        (reactor_init (sample_poll\<lparr>ps_map := []\<rparr>) (boot []) ()) = (Ret (), t) \<and>
     rx_poll t = sample_poll\<lparr>ps_map := []\<rparr> \<and> rx_world t = boot [] \<and>
     reactor_run sample_callback_rx (Suc 3) t = (Fail (Undef Null_deref), u) \<and> rx_world u = boot []"
proof -
  have "can_lock (ps_mutex (sample_poll\<lparr>ps_map := []\<rparr>))" "ps_map (sample_poll\<lparr>ps_map := []\<rparr>) = []" by (simp_all add: sample_poll_def)
  then show ?thesis
    using reactor_never_serves [where ps = "sample_poll\<lparr>ps_map := []\<rparr>" and as_key = sk_fd and w = "boot []" and z = "()"
        and n = 3 and cb = sample_callback_rx and hs = "[(1, socket_of 7, observer_of 1 Readable_Note 100 7)]"] by blast
qed

definition sample_reactor :: reactor where
  "sample_reactor = (reactor_init sample_poll (boot [sample_done, sample_failed, sample_done]) ())
     \<lparr>ev_notes := [0 \<mapsto> \<lparr>nt_kind = Readable_Note, nt_socket = socket_default\<rparr>,
        1 \<mapsto> \<lparr>nt_kind = Writable_Note, nt_socket = socket_default\<rparr>,
        2 \<mapsto> \<lparr>nt_kind = Error_Note, nt_socket = socket_default\<rparr>,
        3 \<mapsto> \<lparr>nt_kind = Timeout_Note, nt_socket = socket_default\<rparr>],
      ev_observers := [4 \<mapsto> observer_of 1 Readable_Note 100 7], ev_next := 6,
      ev_centers := [5 \<mapsto> \<lparr>nc_observers = [4], nc_mutex = new_mutex Std_mutex\<rparr>],
      rx_notifiers := [5 \<mapsto> (notifier_of (socket_of 7))\<lparr>nf_events := {#Some 0#}\<rparr>],
      rx_handlers := [(Sock_Id 7, socket_of 7, 5)],
      rx_readable := Some 0, rx_writable := Some 1, rx_error := Some 2, rx_timeout := Some 3\<rparr>"

lemma sample_reactor_center:
  "center_ok sample_reactor 5" "nc_ids sample_reactor 5 = [observer_id (observer_of 1 Readable_Note 100 7)]"
  by (simp_all add: sample_reactor_def center_ok_def free_observer_def new_mutex_def observer_of_def
      nc_ids_def nc_list_def id_at_def)

text \<open>The null pointer, and a notification whose observer returns.\<close>

theorem notifier_dispatch_undefined_witness:
  "notifier_dispatch sample_callback_rx 5 None sample_reactor = (Fail (Undef Null_deref), sample_reactor) \<and>
   fst (notifier_dispatch sample_callback_rx 5 (Some 0) sample_reactor) = Fail (Undef Use_after_free)"
proof -
  have n: "rx_notifiers sample_reactor 5 = Some ((notifier_of (socket_of 7))\<lparr>nf_events := {#Some 0#}\<rparr>)"
    by (simp add: sample_reactor_def)
  let ?u = "aimed 0 \<lparr>nt_kind = Readable_Note, nt_socket = socket_default\<rparr> (socket_of 7) sample_reactor"
  have post: "nc_post sample_callback_rx 5 (Some 0) ?u = (Ret (), ?u)"
  proof -
    have c: "center_ok ?u 5" "ev_centers ?u 5 = Some \<lparr>nc_observers = [4], nc_mutex = new_mutex Std_mutex\<rparr>"
      using sample_reactor_center(1) by (simp_all add: center_ok_def free_observer_def) (simp add: sample_reactor_def)
    have "center_locked 5 (bnd (get_center 5) (\<lambda>k. ret (nc_observers k))) ?u = (Ret [4], ?u)"
      by (rule center_locked_pure [OF c]) (simp add: bnd_def)
    moreover have "observer_notify sample_callback_rx 4 (Some 0) ?u = (Ret (), ?u)"
    proof -
      have same: "env.more_update (\<lambda>z. z) s = s" for s :: reactor by (cases s) simp
      then have cb: "client_only sample_callback_rx (\<lambda>_ _ _ z. z)" by (simp add: client_only_def sample_callback_rx_def)
      have "run_deliveries (\<lambda>_ _ _ z :: unit reactor_ext. z) 0 l = (\<lambda>z. z)" for l :: "(nat \<times> nat) list"
        by (induction l) (auto simp: run_deliveries_def)
      then show ?thesis
        using observer_notify_client [OF cb, of ?u 4 "observer_of 1 Readable_Note 100 7" 0] same
        by (simp add: sample_reactor_def observer_of_def new_mutex_def)
    qed
    ultimately show ?thesis by (simp add: nc_post_def bnd_apply thn_apply)
  qed
  show ?thesis
    using notifier_dispatch_undefined [OF n, where msg = None and cb = sample_callback_rx]
      notifier_dispatch_undefined [OF n, where msg = "Some 0" and cb = sample_callback_rx] post
    by (auto simp: notifier_of_def socket_of_def drop_socket_def sample_reactor_def reactor_init_def INVALID_SOCKET_def bnd_apply
        boot_def sys_def sample_done_def status_ok_def)
qed

theorem remove_last_handler_closes_first_witness:
  "\<exists>t. remove_event_handler sk_fd 1 (socket_of 7) (observer_of 1 Readable_Note 100 7) sample_reactor =
      (Fail (Thrown (Runtime_error (error_msg 98 []))), t) \<and>
     map fst (w_trace (rx_world t)) = [Close 7, Epoll_ctl 3 EPOLL_CTL_DEL 7 0 0, Close 7] \<and>
     rx_handlers t = [] \<and> rx_notifiers t 5 = None"
proof -
  have f: "m_depth (rx_mutex sample_reactor) = 0"
    "rx_handlers sample_reactor = [(Sock_Id 7, socket_of 7, 5)]"
    "rx_notifiers sample_reactor 5 = Some ((notifier_of (socket_of 7))\<lparr>nf_events := {#Some 0#}\<rparr>)"
    "rx_poll sample_reactor = sample_poll"
    "rx_world sample_reactor = boot [sample_done, sample_failed, sample_done]"
    by (simp_all add: sample_reactor_def reactor_init_def new_mutex_def)
  have "map_find (sock_key (socket_of 7)) (rx_handlers sample_reactor) = Some (socket_of 7, 5)"
    by (simp add: f sock_key_def socket_of_def)
  from remove_last_handler_closes_first [OF f(1) _ this _ _ _ f(3) _ _ sample_reactor_center, where fd = 7 and as_key = sk_fd and addr = 1
      and c = sample_done and d = sample_failed and ?c2.0 = sample_done and rs = "[]"]
  show ?thesis
    by (auto simp: f sample_poll_simps socket_of_def notifier_of_def sample_done_def sample_failed_def status_ok_def sock_key_def)
qed

end
