(* ===== verification/Server_Application.thy ===== *)
theory Server_Application
  imports Kernel
begin

section \<open>ServerApplication\<close>

text \<open>
  Models \<^verbatim>\<open>src/epoll_server/server_application.cpp\<close>: the command line, becoming a daemon,
  the life of an application and its exit code. The virtual functions \<open>initialize\<close> and \<open>main\<close> are
  parameters of the runs. A process that calls \<^verbatim>\<open>exit\<close> ends with \<open>Exited\<close>. The members
  \<open>_workingDirAtLaunch\<close> and \<open>_startTime\<close> are never assigned: they stay empty and at the epoch. The time that the clock
  shows is an argument of \<open>uptime\<close>.
\<close>

definition EXIT_OK :: int where "EXIT_OK = 0"
definition EXIT_SOFTWARE :: int where "EXIT_SOFTWARE = 70"
definition EXIT_OSERR :: int where "EXIT_OSERR = 71"
definition EXIT_CONFIG :: int where "EXIT_CONFIG = 78"

definition SIGINT :: int where "SIGINT = 2"
definition SIGQUIT :: int where "SIGQUIT = 3"
definition SIGTERM :: int where "SIGTERM = 15"

text \<open>\<open>ap_instance\<close>: the static pointer refers to this object; \<open>ap_env\<close>: the environment of the process.\<close>

record app =
  ap_workdir :: string
  ap_command :: string
  ap_argv :: "string list"
  ap_unprocessed :: "string list"
  ap_initialized :: bool
  ap_instance :: bool
  ap_start :: int
  ap_env :: "string \<Rightarrow> string option"
  ap_world :: world

type_synonym ('z, 'a) app_prog = "('z app_scheme, 'a) prog"

definition app_os :: "(world, 'a) prog \<Rightarrow> ('z, 'a) app_prog" where
  "app_os m = zoom ap_world (\<lambda>w s. s\<lparr>ap_world := w\<rparr>) m"

definition app_sys :: "syscall \<Rightarrow> ('z, reply) app_prog" where
  "app_sys c = app_os (sys c)"

subsection \<open>Construction and arguments\<close>

definition app_setup :: "('z, unit) app_prog" where
  "app_setup = modify (\<lambda>s. s\<lparr>ap_instance := True\<rparr>)"

definition app_new :: "(string \<Rightarrow> string option) \<Rightarrow> world \<Rightarrow> 'z \<Rightarrow> 'z app_scheme" where
  "app_new e w z = \<lparr>ap_workdir = [], ap_command = [], ap_argv = [], ap_unprocessed = [],
     ap_initialized = False, ap_instance = True, ap_start = 0, ap_env = e, ap_world = w, \<dots> = z\<rparr>"

definition app_destroy :: "('z, unit) app_prog" where
  "app_destroy = modify (\<lambda>s. s\<lparr>ap_instance := False\<rparr>)"

text \<open>The instance is this object, if there is one.\<close>

definition app_get_instance :: "('z, unit) app_prog" where
  "app_get_instance = bnd (gets ap_instance) (\<lambda>b. if b then ret () else fail (Undef Null_deref))"

definition app_name :: string where
  "app_name = ''ServerApplication''"

definition app_argv :: "('z, string list) app_prog" where
  "app_argv = gets ap_argv"

definition app_is_interactive :: bool where
  "app_is_interactive = False"

definition app_start_time :: "('z, int) app_prog" where
  "app_start_time = gets ap_start"

definition app_uptime :: "int \<Rightarrow> ('z, int) app_prog" where
  "app_uptime now = bnd (gets ap_start) (\<lambda>t. ret (now - t))"

definition app_terminate :: "('z, unit) app_prog" where
  "app_terminate = bnd (app_sys Getpid) (\<lambda>r. bnd (app_sys (Kill (rp_rc r) SIGINT)) (\<lambda>_. ret ()))"

text \<open>\<open>argv\<close> as the list of its strings; \<^verbatim>\<open>argv[argc]\<close> is the null pointer.\<close>

definition set_args :: "string list \<Rightarrow> ('z, unit) app_prog" where
  "set_args args = (case args of
       [] \<Rightarrow> fail (Undef Null_deref)
     | a # as \<Rightarrow> modify (\<lambda>s. s\<lparr>ap_command := a, ap_unprocessed := ap_unprocessed s @ args\<rparr>))"

definition set_arg_vec :: "string list \<Rightarrow> ('z, unit) app_prog" where
  "set_arg_vec args = (case args of
       [] \<Rightarrow> fail (Undef Out_of_bounds)
     | a # as \<Rightarrow> modify (\<lambda>s. s\<lparr>ap_command := a, ap_unprocessed := args\<rparr>))"

text \<open>Paths are their text. \<^verbatim>\<open>current_path\<close> throws a \<^verbatim>\<open>filesystem_error\<close>.\<close>

definition is_absolute :: "string \<Rightarrow> bool" where
  "is_absolute p \<longleftrightarrow> take 1 p = ''/''"

definition getcwd_msg :: string where
  "getcwd_msg = ''filesystem error: cannot get current path''"

definition application_path :: "('z, string) app_prog" where
  "application_path = bnd (gets ap_command) (\<lambda>cmd. bnd (gets ap_workdir) (\<lambda>dir.
     if CHR ''/'' \<in> set cmd
     then ret (if is_absolute cmd then cmd else dir @ cmd)
     else bnd (app_sys Getcwd) (\<lambda>r.
       if rp_rc r < 0 then throw_runtime getcwd_msg
       else ret (if bytes_of (rp_data r) = [] then dir @ cmd else bytes_of (rp_data r)))))"

definition app_init :: "('z, unit) app_prog" where
  "app_init = bnd application_path (\<lambda>_. ret ())"

definition app_init_args :: "string list \<Rightarrow> ('z, unit) app_prog" where
  "app_init_args args = thn (set_args args) app_init"

definition app_init_vec :: "string list \<Rightarrow> ('z, unit) app_prog" where
  "app_init_vec args = thn (set_arg_vec args) app_init"

text \<open>The constructor that takes the arguments; the object is there only when it returns.\<close>

definition app_new_args :: "(string \<Rightarrow> string option) \<Rightarrow> world \<Rightarrow> 'z \<Rightarrow> string list \<Rightarrow> unit outcome \<times> 'z app_scheme" where
  "app_new_args e w z args = thn app_setup (app_init_args args) (app_new e w z)"

definition app_initialize :: "('z, unit) app_prog" where
  "app_initialize = modify (\<lambda>s. s\<lparr>ap_initialized := True\<rparr>)"

definition app_reinitialize :: "('z, unit) app_prog" where
  "app_reinitialize = ret ()"

definition app_initialized :: "('z, bool) app_prog" where
  "app_initialized = gets ap_initialized"

definition app_uninitialize :: "('z, unit) app_prog" where
  "app_uninitialize = cond ap_initialized (modify (\<lambda>s. s\<lparr>ap_initialized := False\<rparr>)) (ret ())"

subsection \<open>Signals\<close>

definition termination_signals :: "(string \<Rightarrow> string option) \<Rightarrow> int list" where
  "termination_signals e = (if e ''ENABLE_DEBUGGER'' = None then [SIGINT] else []) @ [SIGQUIT, SIGTERM]"

definition wait_signals :: "int list \<Rightarrow> (world, unit) prog" where
  "wait_signals sigs = bnd (sys (Sigprocmask sigs)) (\<lambda>_. bnd (sys (Sigwait sigs)) (\<lambda>_. ret ()))"

definition wait_for_termination :: "('z, unit) app_prog" where
  "wait_for_termination = bnd (gets (termination_signals \<circ> ap_env)) (\<lambda>sigs. app_os (wait_signals sigs))"

subsection \<open>Becoming a daemon\<close>

definition daemon_option :: string where "daemon_option = ''--daemon''"

definition is_daemon :: "string list \<Rightarrow> bool" where
  "is_daemon args \<longleftrightarrow> daemon_option \<in> set (drop 1 args)"

definition fork_msg :: string where "fork_msg = ''Fork failed''"
definition stdin_msg :: string where "stdin_msg = ''Failed to redirect stdin''"
definition stdout_msg :: string where "stdout_msg = ''Cannot attach stdout to /dev/null''"
definition stderr_msg :: string where "stderr_msg = ''Cannot attach stderr to /dev/null''"

definition reopen_null :: "int \<Rightarrow> string \<Rightarrow> ('z, unit) app_prog" where
  "reopen_null stream msg = bnd (app_sys (Freopen ''/dev/null'' ''r+'' stream)) (\<lambda>r.
     if rp_rc r < 0 then throw_runtime msg else ret ())"

definition be_daemon :: "('z, unit) app_prog" where
  "be_daemon = bnd (app_sys Fork) (\<lambda>r.
     if rp_rc r < 0 then throw_runtime fork_msg
     else if rp_rc r \<noteq> 0 then fail (Exited EXIT_OK)
     else bnd (app_sys Setsid) (\<lambda>_. bnd (app_sys (Umask 23)) (\<lambda>_.
       thn (reopen_null 0 stdin_msg) (thn (reopen_null 1 stdout_msg) (reopen_null 2 stderr_msg)))))"

subsection \<open>The runs\<close>

text \<open>The innermost \<open>run\<close>; \<open>rc\<close> has the value that the failing part left in it.\<close>

definition app_run :: "('z, unit) app_prog \<Rightarrow> (string list \<Rightarrow> ('z, int) app_prog) \<Rightarrow> ('z, int) app_prog" where
  "app_run ini main =
     bnd (catch_all (thn ini (ret True)) (ret False)) (\<lambda>ok.
     bnd (if ok then catch_all (bnd (gets ap_unprocessed) main) (ret EXIT_SOFTWARE) else ret EXIT_CONFIG) (\<lambda>rc.
     thn app_uninitialize (ret rc)))"

text \<open>The common part of the two public runs: \<open>None\<close> is going on, \<open>Some rc\<close> an early return.\<close>

definition app_prepare :: "bool \<Rightarrow> ('z, unit) app_prog \<Rightarrow> ('z, int option) app_prog" where
  "app_prepare daemon ini =
     thn (if daemon then be_daemon else ret ())
    (catch_all
      (thn ini
        (if daemon
         then bnd (app_sys (Chdir ''/'')) (\<lambda>r. ret (if rp_rc r \<noteq> 0 then Some EXIT_OSERR else None))
         else ret None))
      (ret (Some EXIT_CONFIG)))"

definition app_run_args ::
  "('z, unit) app_prog \<Rightarrow> (string list \<Rightarrow> ('z, int) app_prog) \<Rightarrow> string list \<Rightarrow> ('z, int) app_prog" where
  "app_run_args ini main args = bnd (app_prepare (is_daemon args) (app_init_args args))
     (\<lambda>early. case early of Some rc \<Rightarrow> ret rc | None \<Rightarrow> app_run ini main)"

text \<open>The overload for a vector looks for the option in all of it, the program name included.\<close>

definition app_run_vec ::
  "('z, unit) app_prog \<Rightarrow> (string list \<Rightarrow> ('z, int) app_prog) \<Rightarrow> string list \<Rightarrow> ('z, int) app_prog" where
  "app_run_vec ini main args = bnd (app_prepare (daemon_option \<in> set args) (app_init_vec args))
     (\<lambda>early. case early of Some rc \<Rightarrow> ret rc | None \<Rightarrow> app_run ini main)"

definition app_main :: "string list \<Rightarrow> ('z, int) app_prog" where
  "app_main args = ret EXIT_OK"


subsection \<open>Properties\<close>

lemma app_sys_reply:
  "w_script (ap_world s) = r # rs \<Longrightarrow> reply_ok c r \<Longrightarrow>
     app_sys c s = (Ret r, s\<lparr>ap_world := answered c r (ap_world s)\<rparr>)"
  by (simp add: app_sys_def app_os_def zoom_def sys_reply)

lemma app_uninitialize_apply: "app_uninitialize s = (Ret (), s\<lparr>ap_initialized := False\<rparr>)"
  by (simp add: app_uninitialize_def)

text \<open>The run of an initialised application: the exit code by the way \<open>main\<close> ends.\<close>

definition main_result :: "int outcome \<Rightarrow> 'z app_scheme \<Rightarrow> int outcome \<times> 'z app_scheme" where
  "main_result out t = (case out of
       Ret rc \<Rightarrow> (Ret rc, t\<lparr>ap_initialized := False\<rparr>)
     | Fail (Thrown e) \<Rightarrow> (Ret EXIT_SOFTWARE, t\<lparr>ap_initialized := False\<rparr>)
     | Fail e \<Rightarrow> (Fail e, t))"

lemma app_run_apply:
  "app_run app_initialize main s =
     (case main (ap_unprocessed s) (s\<lparr>ap_initialized := True\<rparr>) of (out, t) \<Rightarrow> main_result out t)"
  by (simp add: app_run_def app_initialize_def bnd_apply thn_apply catch_all_apply app_uninitialize_apply
      main_result_def split: prod.splits outcome.splits failure.splits)

lemma app_run_args_eq:
  assumes "daemon_option \<notin> set as"
  shows "app_run_args app_initialize main (a # as) s =
    (case application_path (s\<lparr>ap_command := a, ap_unprocessed := ap_unprocessed s @ a # as\<rparr>) of
       (Ret p, u) \<Rightarrow> (case main (ap_unprocessed u) (u\<lparr>ap_initialized := True\<rparr>) of (out, t) \<Rightarrow> main_result out t)
     | (Fail (Thrown e), u) \<Rightarrow> (Ret EXIT_CONFIG, u)
     | (Fail e, u) \<Rightarrow> (Fail e, u))"
  using assms
  by (simp add: app_run_args_def app_prepare_def is_daemon_def app_init_args_def set_args_def app_init_def
      bnd_apply thn_apply catch_all_apply app_run_apply split: prod.splits outcome.splits failure.splits)

text \<open>The object after its arguments were set, and how a run ends by the way \<open>initialize\<close> and \<open>main\<close> end.\<close>

definition with_args :: "string list \<Rightarrow> 'z app_scheme \<Rightarrow> 'z app_scheme" where
  "with_args args s = s\<lparr>ap_command := hd args, ap_unprocessed := ap_unprocessed s @ args\<rparr>"

lemma with_args_world [simp]:
  "ap_world (with_args args s) = ap_world s"
  "(with_args args s)\<lparr>ap_world := w\<rparr> = with_args args (s\<lparr>ap_world := w\<rparr>)"
  by (simp_all add: with_args_def)

definition life_result ::
  "('z, unit) app_prog \<Rightarrow> (string list \<Rightarrow> ('z, int) app_prog) \<Rightarrow> 'z app_scheme \<Rightarrow> int outcome \<times> 'z app_scheme" where
  "life_result ini main u = (case ini u of
       (Ret x, v) \<Rightarrow> (case main (ap_unprocessed v) v of
            (Ret rc, t) \<Rightarrow> (Ret rc, t\<lparr>ap_initialized := False\<rparr>)
          | (Fail (Thrown e), t) \<Rightarrow> (Ret EXIT_SOFTWARE, t\<lparr>ap_initialized := False\<rparr>)
          | (Fail e, t) \<Rightarrow> (Fail e, t))
     | (Fail (Thrown e), v) \<Rightarrow> (Ret EXIT_CONFIG, v\<lparr>ap_initialized := False\<rparr>)
     | (Fail e, v) \<Rightarrow> (Fail e, v))"

lemma app_run_life: "app_run ini main u = life_result ini main u"
  by (simp add: app_run_def life_result_def bnd_apply thn_apply catch_all_apply app_uninitialize_apply
      split: prod.splits outcome.splits failure.splits)

text \<open>Setting the arguments finds out the path: nothing is asked when the name has a slash.\<close>

lemma app_init_args_apply:
  "CHR ''/'' \<in> set a \<Longrightarrow> app_init_args (a # as) s = (Ret (), with_args (a # as) s)"
  "CHR ''/'' \<notin> set a \<Longrightarrow> w_script (ap_world s) = r # rs \<Longrightarrow> reply_ok Getcwd r \<Longrightarrow>
     app_init_args (a # as) s = (if rp_rc r < 0 then Fail (Thrown (Runtime_error getcwd_msg)) else Ret (),
       (with_args (a # as) s)\<lparr>ap_world := answered Getcwd r (ap_world s)\<rparr>)"
  by (simp_all add: app_init_args_def set_args_def app_init_def application_path_def bnd_apply thn_apply app_sys_reply
      with_args_def del: reply_ok.simps)

text \<open>C32. How a run that is not a daemon ends, for every \<open>initialize\<close> and every \<open>main\<close>. When the path of the application cannot
  be found out, with \<open>EXIT_CONFIG\<close>, and neither of the two is called. When \<open>initialize\<close> throws, with \<open>EXIT_CONFIG\<close>, and
  \<open>main\<close> is not called. Otherwise \<open>main\<close> gets all the arguments, the program name first, and the run ends with its result, or
  with \<open>EXIT_SOFTWARE\<close> when it throws. Once \<open>initialize\<close> was called the application is uninitialised at the end; no
  exception leaves \<open>run\<close>.\<close>

theorem app_run_args_result:
  assumes "daemon_option \<notin> set as"
    and "CHR ''/'' \<in> set a \<or> w_script (ap_world s) = r # rs \<and> reply_ok Getcwd r"
  shows "app_run_args ini main (a # as) s =
    (let u = (if CHR ''/'' \<in> set a then with_args (a # as) s
              else (with_args (a # as) s)\<lparr>ap_world := answered Getcwd r (ap_world s)\<rparr>)
     in if CHR ''/'' \<notin> set a \<and> rp_rc r < 0 then (Ret EXIT_CONFIG, u)
        else case ini u of
            (Ret x, v) \<Rightarrow> (case main (ap_unprocessed v) v of
                 (Ret rc, t) \<Rightarrow> (Ret rc, t\<lparr>ap_initialized := False\<rparr>)
               | (Fail (Thrown e), t) \<Rightarrow> (Ret EXIT_SOFTWARE, t\<lparr>ap_initialized := False\<rparr>)
               | (Fail e, t) \<Rightarrow> (Fail e, t))
          | (Fail (Thrown e), v) \<Rightarrow> (Ret EXIT_CONFIG, v\<lparr>ap_initialized := False\<rparr>)
          | (Fail e, v) \<Rightarrow> (Fail e, v))"
proof -
  have d: "\<not> is_daemon (a # as)" using assms(1) by (simp add: is_daemon_def)
  show ?thesis
  proof (cases "CHR ''/'' \<in> set a")
    case True
    then show ?thesis
      unfolding app_run_args_def app_prepare_def using d
      by (simp add: bnd_apply thn_apply catch_all_apply app_init_args_apply(1) app_run_life life_result_def)
  next
    case False
    then show ?thesis
      unfolding app_run_args_def app_prepare_def using d assms(2)
      by (simp add: bnd_apply thn_apply catch_all_apply app_init_args_apply(2) app_run_life life_result_def Let_def
          del: reply_ok.simps)
  qed
qed

text \<open>The world after a list of answered calls.\<close>

definition answered_all :: "(syscall \<times> reply) list \<Rightarrow> world \<Rightarrow> world" where
  "answered_all xs w = fold (\<lambda>(c, r). answered c r) xs w"

lemma answered_all_trace: "w_trace (answered_all xs w) = w_trace w @ xs"
  by (induction xs arbitrary: w) (auto simp: answered_all_def)

definition daemon_calls :: "syscall list" where
  "daemon_calls = [Fork, Setsid, Umask 23, Freopen ''/dev/null'' ''r+'' 0, Freopen ''/dev/null'' ''r+'' 1,
     Freopen ''/dev/null'' ''r+'' 2, Chdir ''/'']"

text \<open>A freopen that the daemon makes, and the message of the exception when it fails.\<close>

lemma reopen_null_apply:
  "w_script (ap_world s) = r # rs \<Longrightarrow> status_ok r \<Longrightarrow> reopen_null n msg s =
     (if rp_rc r < 0 then Fail (Thrown (Runtime_error msg)) else Ret (),
      s\<lparr>ap_world := answered (Freopen ''/dev/null'' ''r+'' n) r (ap_world s)\<rparr>)"
  by (simp add: reopen_null_def bnd_apply app_sys_reply)

text \<open>C33. With the option \<open>--daemon\<close> and a program name with a slash: a failing fork leaves \<open>run\<close> as an exception and not as an
  exit code; the parent process exits with \<open>EXIT_OK\<close> at once. The child makes exactly the calls that detach it, in this order
  and before \<open>initialize\<close>. The first stream that cannot be reopened ends \<open>run\<close> with the exception for that stream after exactly the calls
  so far, and the arguments are not even set; a failing change of the directory ends it with \<open>EXIT_OSERR\<close>; otherwise
  the innermost run goes on with all the arguments.\<close>

theorem app_daemon_protocol:
  assumes "daemon_option \<in> set as" "CHR ''/'' \<in> set a" "w_script (ap_world s) = f # sid # um # i # out # er # cd # rs"
    and "reply_ok Fork f" "reply_ok Setsid sid" "reply_ok (Umask 23) um" "status_ok i" "status_ok out" "status_ok er" "status_ok cd"
  shows "app_run_args ini main (a # as) s =
    (let after = (\<lambda>n. s\<lparr>ap_world := answered_all (take n (zip daemon_calls [f, sid, um, i, out, er, cd])) (ap_world s)\<rparr>)
     in if rp_rc f < 0 then (Fail (Thrown (Runtime_error fork_msg)), after 1)
        else if rp_rc f > 0 then (Fail (Exited EXIT_OK), after 1)
        else if rp_rc i < 0 then (Fail (Thrown (Runtime_error stdin_msg)), after 4)
        else if rp_rc out < 0 then (Fail (Thrown (Runtime_error stdout_msg)), after 5)
        else if rp_rc er < 0 then (Fail (Thrown (Runtime_error stderr_msg)), after 6)
        else if rp_rc cd < 0 then (Ret EXIT_OSERR, with_args (a # as) (after 7))
        else app_run ini main (with_args (a # as) (after 7)))"
proof -
  have d: "is_daemon (a # as)" using assms(1) by (simp add: is_daemon_def)
  note run = app_run_args_def app_prepare_def be_daemon_def bnd_apply thn_apply catch_all_apply app_sys_reply
    reopen_null_apply app_init_args_apply(1) answered_all_def daemon_calls_def Let_def
  consider "rp_rc f < 0" | "rp_rc f > 0" | "rp_rc f = 0" by linarith
  then show ?thesis
  proof cases
    case 3
    then show ?thesis using d assms by (auto simp: run status_ok_def)
  qed (use d assms in \<open>simp_all add: run\<close>)
qed

text \<open>A run of \<open>prog x\<close> whose \<open>main\<close> throws, and a daemon.\<close>

definition sample_app :: "reply list \<Rightarrow> app" where
  "sample_app rs = app_new Map.empty (boot rs) ()"

abbreviation rc_reply :: "int \<Rightarrow> reply" where
  "rc_reply n \<equiv> \<lparr>rp_rc = n, rp_err = 0, rp_data = No_data\<rparr>"

lemma app_run_args_result_witness:
  "fst (app_run_args (throw_runtime ''ini'') (\<lambda>args. ret 0) [''/bin/prog''] (sample_app [])) = Ret EXIT_CONFIG \<and>
   fst (app_run_args app_initialize (\<lambda>args. if length args = 2 then throw_runtime ''no'' else ret 0) [''prog'', ''x'']
     (sample_app [\<lparr>rp_rc = 0, rp_err = 0, rp_data = Bytes ''/home''\<rparr>])) = Ret EXIT_SOFTWARE \<and>
   fst (app_run_args app_initialize (\<lambda>args. ret 5) [''/bin/prog''] (sample_app [])) = Ret 5 \<and>
   fst (app_run_args app_initialize (\<lambda>args. ret 0) [''prog''] (sample_app [rc_reply (-1)])) = Ret EXIT_CONFIG"
  using app_run_args_result [of "[]" "''/bin/prog''" "sample_app []" "rc_reply 0" "[]" "throw_runtime ''ini''" "\<lambda>args. ret 0"]
    app_run_args_result [of "[''x'']" "''prog''" "sample_app [\<lparr>rp_rc = 0, rp_err = 0, rp_data = Bytes ''/home''\<rparr>]"
      "\<lparr>rp_rc = 0, rp_err = 0, rp_data = Bytes ''/home''\<rparr>" "[]" app_initialize
      "\<lambda>args. if length args = 2 then throw_runtime ''no'' else ret 0"]
    app_run_args_result [of "[]" "''/bin/prog''" "sample_app []" "rc_reply 0" "[]" app_initialize "\<lambda>args. ret 5"]
    app_run_args_result [of "[]" "''prog''" "sample_app [rc_reply (-1)]" "rc_reply (-1)" "[]" app_initialize "\<lambda>args. ret 0"]
  by (simp add: daemon_option_def sample_app_def app_new_def boot_def with_args_def app_initialize_def throw_runtime_def Let_def)

text \<open>A daemon that cannot change its directory, and one whose standard output cannot be reopened.\<close>

lemma app_daemon_protocol_witness:
  "fst (app_run_args app_initialize app_main [''/bin/prog'', ''--daemon''] (sample_app (map rc_reply [0, 5, 18, 0, 0, 0, -1]))) = Ret EXIT_OSERR \<and>
   fst (app_run_args app_initialize app_main [''/bin/prog'', ''--daemon''] (sample_app (map rc_reply [0, 5, 18, 0, -1, 0, 0]))) =
     Fail (Thrown (Runtime_error stdout_msg))"
  using app_daemon_protocol [of "[''--daemon'']" "''/bin/prog''" "sample_app (map rc_reply [0, 5, 18, 0, 0, 0, -1])" "rc_reply 0" "rc_reply 5" "rc_reply 18"
      "rc_reply 0" "rc_reply 0" "rc_reply 0" "rc_reply (-1)" "[]" app_initialize app_main]
    app_daemon_protocol [of "[''--daemon'']" "''/bin/prog''" "sample_app (map rc_reply [0, 5, 18, 0, -1, 0, 0])" "rc_reply 0" "rc_reply 5" "rc_reply 18"
      "rc_reply 0" "rc_reply (-1)" "rc_reply 0" "rc_reply 0" "[]" app_initialize app_main]
  by (simp add: daemon_option_def sample_app_def app_new_def boot_def status_ok_def Let_def)

end
