(* ===== verification/Echo_Server.thy ===== *)
theory Echo_Server
  imports Socket_Reactor Server_Application
begin

section \<open>Acceptor, connector, echo service, echo server\<close>

text \<open>
  Models \<^verbatim>\<open>src/epoll_server/socket_acceptor.h\<close>, \<^verbatim>\<open>socket_connector.h\<close> and
  \<^verbatim>\<open>echo_server.h\<close>. The state of the reactor is extended with the objects whose methods
  the observers call; an object's address is a number, and a deleted object is absent. The address of
  the member \<open>_socket\<close> is the address of the object.

  The slots that an echo handler connects to the signals of its queues are called at once by the
  signal library. They do not touch the queues, and a queue emits its signals as the last thing it does,
  so the model calls the slots when the operation on the queue is over. A destructor that throws ends
  the program.
\<close>

record acceptor =
  ac_socket :: socket
  ac_reactor :: bool

record connector =
  cn_socket :: socket
  cn_reactor :: bool

record echo_handler =
  eh_socket :: socket
  eh_in :: "char fifo"
  eh_out :: "char fifo"

record service = reactor +
  so_acceptors :: "nat \<Rightarrow> acceptor option"
  so_connectors :: "nat \<Rightarrow> connector option"
  so_handlers :: "nat \<Rightarrow> echo_handler option"

type_synonym 'a so_prog = "(service, 'a) prog"

definition get_acceptor :: "nat \<Rightarrow> acceptor so_prog" where
  "get_acceptor p = bnd (gets (\<lambda>s. so_acceptors s p)) (defined Use_after_free)"

definition get_connector :: "nat \<Rightarrow> connector so_prog" where
  "get_connector p = bnd (gets (\<lambda>s. so_connectors s p)) (defined Use_after_free)"

definition get_handler :: "nat \<Rightarrow> echo_handler so_prog" where
  "get_handler p = bnd (gets (\<lambda>s. so_handlers s p)) (defined Use_after_free)"

definition put_acceptor :: "nat \<Rightarrow> acceptor option \<Rightarrow> service \<Rightarrow> service" where
  "put_acceptor p a s = s\<lparr>so_acceptors := (so_acceptors s)(p := a)\<rparr>"

definition put_connector :: "nat \<Rightarrow> connector option \<Rightarrow> service \<Rightarrow> service" where
  "put_connector p c s = s\<lparr>so_connectors := (so_connectors s)(p := c)\<rparr>"

definition put_handler :: "nat \<Rightarrow> echo_handler option \<Rightarrow> service \<Rightarrow> service" where
  "put_handler p h s = s\<lparr>so_handlers := (so_handlers s)(p := h)\<rparr>"

definition new_address :: "nat so_prog" where
  "new_address = bnd (gets ev_next) (\<lambda>p. thn (modify (\<lambda>s. s\<lparr>ev_next := Suc p\<rparr>)) (ret p))"

text \<open>A member function of the socket of an object.\<close>

definition acceptor_socket :: "nat \<Rightarrow> 'a sock_prog \<Rightarrow> 'a so_prog" where
  "acceptor_socket p m = bnd (get_acceptor p) (\<lambda>a. zoom (\<lambda>s. (ac_socket a, rx_world s))
     (\<lambda>(k, w) s. put_acceptor p (Some (a\<lparr>ac_socket := k\<rparr>)) (s\<lparr>rx_world := w\<rparr>)) m)"

definition connector_socket :: "nat \<Rightarrow> 'a sock_prog \<Rightarrow> 'a so_prog" where
  "connector_socket p m = bnd (get_connector p) (\<lambda>c. zoom (\<lambda>s. (cn_socket c, rx_world s))
     (\<lambda>(k, w) s. put_connector p (Some (c\<lparr>cn_socket := k\<rparr>)) (s\<lparr>rx_world := w\<rparr>)) m)"

subsection \<open>The observers of the three classes\<close>

definition accept_observer :: "nat \<Rightarrow> observer" where
  "accept_observer p = observer_of 0 Readable_Note p 0"

definition readable_observer :: "nat \<Rightarrow> observer" where
  "readable_observer p = observer_of 1 Readable_Note p 1"

definition writable_observer :: "nat \<Rightarrow> observer" where
  "writable_observer p = observer_of 1 Writable_Note p 2"

definition shutdown_observer :: "nat \<Rightarrow> observer" where
  "shutdown_observer p = observer_of 1 Shutdown_Note p 3"

definition connector_observers :: "nat \<Rightarrow> observer list" where
  "connector_observers p = [observer_of 2 Readable_Note p 4, observer_of 2 Writable_Note p 5,
     observer_of 2 Error_Note p 6]"

subsection \<open>EchoServiceHandler\<close>

definition BUFFER_SIZE :: nat where "BUFFER_SIZE = 1024"

definition noexcept :: "('s, 'a) prog \<Rightarrow> ('s, 'a) prog" where
  "noexcept m = (\<lambda>s. case m s of (Fail (Thrown e), t) \<Rightarrow> (Fail Abort, t) | r \<Rightarrow> r)"

text \<open>The end of the members, and of the object.\<close>

definition handler_free :: "nat \<Rightarrow> unit so_prog" where
  "handler_free p = bnd (get_handler p) (\<lambda>h.
     thn (rx_os (drop_socket (eh_socket h))) (modify (put_handler p None)))"

definition handler_new :: "(socket \<Rightarrow> int) \<Rightarrow> socket \<Rightarrow> nat so_prog" where
  "handler_new as_key sock =
     bnd new_address (\<lambda>p.
     bnd (fifo_new BUFFER_SIZE True) (\<lambda>i. bnd (fifo_new BUFFER_SIZE True) (\<lambda>q.
     thn (modify (put_handler p (Some \<lparr>eh_socket = sock, eh_in = i, eh_out = q\<rparr>)))
         (catch_rethrow
           (thn (add_event_handler as_key (int p) sock (readable_observer p))
           (thn (add_event_handler as_key (int p) sock (shutdown_observer p)) (ret p)))
           (handler_free p)))))"

text \<open>\<^verbatim>\<open>delete this\<close>\<close>

definition handler_delete :: "(socket \<Rightarrow> int) \<Rightarrow> nat \<Rightarrow> unit so_prog" where
  "handler_delete as_key p = noexcept (bnd (get_handler p) (\<lambda>h.
     thn (remove_event_handler as_key (int p) (eh_socket h) (readable_observer p))
    (thn (remove_event_handler as_key (int p) (eh_socket h) (writable_observer p))
    (thn (remove_event_handler as_key (int p) (eh_socket h) (shutdown_observer p))
         (handler_free p)))))"

definition on_fifo_out_readable :: "(socket \<Rightarrow> int) \<Rightarrow> nat \<Rightarrow> bool \<Rightarrow> unit so_prog" where
  "on_fifo_out_readable as_key p b = bnd (get_handler p) (\<lambda>h.
     if b then add_event_handler as_key (int p) (eh_socket h) (writable_observer p)
     else remove_event_handler as_key (int p) (eh_socket h) (writable_observer p))"

definition on_fifo_in_writable :: "(socket \<Rightarrow> int) \<Rightarrow> nat \<Rightarrow> bool \<Rightarrow> unit so_prog" where
  "on_fifo_in_writable as_key p b = bnd (get_handler p) (\<lambda>h.
     if b then add_event_handler as_key (int p) (eh_socket h) (readable_observer p)
     else remove_event_handler as_key (int p) (eh_socket h) (readable_observer p))"

text \<open>The connections: \<open>_fifoIn.writable\<close> and \<open>_fifoOut.readable\<close> have a slot, the other signals none.\<close>

fun in_slot :: "(socket \<Rightarrow> int) \<Rightarrow> nat \<Rightarrow> signal \<Rightarrow> unit so_prog" where
  "in_slot as_key p (Writable b) = on_fifo_in_writable as_key p b"
| "in_slot as_key p (Readable b) = ret ()"

fun out_slot :: "(socket \<Rightarrow> int) \<Rightarrow> nat \<Rightarrow> signal \<Rightarrow> unit so_prog" where
  "out_slot as_key p (Readable b) = on_fifo_out_readable as_key p b"
| "out_slot as_key p (Writable b) = ret ()"

text \<open>An operation on a queue and the socket of a handler, and the slots for the signals it emitted.\<close>

definition emitting :: "nat \<Rightarrow> (echo_handler \<Rightarrow> char fifo) \<Rightarrow> (char fifo \<Rightarrow> echo_handler \<Rightarrow> echo_handler) \<Rightarrow>
    (signal \<Rightarrow> unit so_prog) \<Rightarrow> 'a wire_prog \<Rightarrow> 'a so_prog" where
  "emitting p q set_q slot m = bnd (get_handler p) (\<lambda>h s.
     case m (q h, eh_socket h, rx_world s) of (out, f, k, w) \<Rightarrow>
       (case run_each slot (drop (length (f_signals (q h))) (f_signals f))
          (put_handler p (Some (set_q f (h\<lparr>eh_socket := k\<rparr>))) (s\<lparr>rx_world := w\<rparr>)) of
          (Ret _, u) \<Rightarrow> (out, u)
        | (Fail e, u) \<Rightarrow> (Fail e, u)))"

definition with_in :: "(socket \<Rightarrow> int) \<Rightarrow> nat \<Rightarrow> 'a wire_prog \<Rightarrow> 'a so_prog" where
  "with_in as_key p m = emitting p eh_in (\<lambda>f h. h\<lparr>eh_in := f\<rparr>) (in_slot as_key p) m"

definition with_out :: "(socket \<Rightarrow> int) \<Rightarrow> nat \<Rightarrow> 'a wire_prog \<Rightarrow> 'a so_prog" where
  "with_out as_key p m = emitting p eh_out (\<lambda>f h. h\<lparr>eh_out := f\<rparr>) (out_slot as_key p) m"

text \<open>\<^verbatim>\<open>_fifoIn.drain(_fifoOut.write(_fifoIn.buffer(), _fifoIn.used()))\<close>\<close>

definition handler_relay :: "(socket \<Rightarrow> int) \<Rightarrow> nat \<Rightarrow> unit so_prog" where
  "handler_relay as_key p = bnd (get_handler p) (\<lambda>h.
     bnd (with_out as_key p (on_queue (fifo_write_buf (f_buffer (eh_in h)) (f_used (eh_in h))))) (\<lambda>n.
       with_in as_key p (on_queue (fifo_drain n))))"

definition on_socket_readable :: "(socket \<Rightarrow> int) \<Rightarrow> nat \<Rightarrow> unit so_prog" where
  "on_socket_readable as_key p = catch_all
     (bnd (with_in as_key p sock_receive_fifo) (\<lambda>len.
        if len > 0 then handler_relay as_key p else handler_delete as_key p))
     (handler_delete as_key p)"

definition on_socket_writable :: "(socket \<Rightarrow> int) \<Rightarrow> nat \<Rightarrow> unit so_prog" where
  "on_socket_writable as_key p = catch_all
     (bnd (with_out as_key p sock_send_fifo) (\<lambda>_. ret ()))
     (handler_delete as_key p)"

definition on_socket_shutdown :: "(socket \<Rightarrow> int) \<Rightarrow> nat \<Rightarrow> unit so_prog" where
  "on_socket_shutdown as_key p = handler_delete as_key p"


subsection \<open>SocketAcceptor\<close>

definition acceptor_new :: "socket \<Rightarrow> nat so_prog" where
  "acceptor_new sock = bnd new_address (\<lambda>p.
     thn (modify (put_acceptor p (Some \<lparr>ac_socket = sock, ac_reactor = False\<rparr>))) (ret p))"

definition acceptor_free :: "nat \<Rightarrow> unit so_prog" where
  "acceptor_free p = bnd (get_acceptor p) (\<lambda>a.
     thn (rx_os (drop_socket (ac_socket a))) (modify (put_acceptor p None)))"

definition acceptor_on :: "(socket \<Rightarrow> int) \<Rightarrow> socket \<Rightarrow> nat so_prog" where
  "acceptor_on as_key sock = bnd new_address (\<lambda>p.
     thn (modify (put_acceptor p (Some \<lparr>ac_socket = sock, ac_reactor = True\<rparr>)))
         (catch_rethrow (thn (add_event_handler as_key (int p) sock (accept_observer p)) (ret p)) (acceptor_free p)))"

definition acceptor_unregister :: "(socket \<Rightarrow> int) \<Rightarrow> nat \<Rightarrow> unit so_prog" where
  "acceptor_unregister as_key p = bnd (get_acceptor p) (\<lambda>a.
     if ac_reactor a then remove_event_handler as_key (int p) (ac_socket a) (accept_observer p) else ret ())"

definition acceptor_register :: "(socket \<Rightarrow> int) \<Rightarrow> nat \<Rightarrow> unit so_prog" where
  "acceptor_register as_key p = bnd (get_acceptor p) (\<lambda>a.
     thn (modify (put_acceptor p (Some (a\<lparr>ac_reactor := True\<rparr>))))
         (bnd (has_event_handler (ac_socket a) (accept_observer p)) (\<lambda>known.
            if \<not> known then add_event_handler as_key (int p) (ac_socket a) (accept_observer p) else ret ())))"

definition acceptor_set_reactor :: "(socket \<Rightarrow> int) \<Rightarrow> nat \<Rightarrow> unit so_prog" where
  "acceptor_set_reactor as_key p = acceptor_register as_key p"

definition acceptor_destroy :: "(socket \<Rightarrow> int) \<Rightarrow> nat \<Rightarrow> unit so_prog" where
  "acceptor_destroy as_key p = thn (catch_all (acceptor_unregister as_key p) (ret ())) (acceptor_free p)"

text \<open>The socket that \<open>acceptConnection\<close> returns lives in a local \<^verbatim>\<open>shared_ptr\<close>; the handler
  copies it. An acceptor without a reactor has a null pointer for it.\<close>

text \<open>\<open>createServiceHandler\<close>; the caller does not keep the pointer.\<close>

definition acceptor_create :: "(socket \<Rightarrow> int) \<Rightarrow> acceptor \<Rightarrow> socket \<Rightarrow> nat so_prog" where
  "acceptor_create as_key a k = (if ac_reactor a then handler_new as_key k else fail (Undef Null_deref))"

definition on_accept :: "(socket \<Rightarrow> int) \<Rightarrow> nat \<Rightarrow> unit so_prog" where
  "on_accept as_key p = bnd (acceptor_socket p sock_accept) (\<lambda>r.
     bnd (get_acceptor p) (\<lambda>a. case r of
       None \<Rightarrow> fail (Undef Null_deref)
     | Some k \<Rightarrow> finally_run
         (thn (if ac_reactor a then wake_up else fail (Undef Null_deref)) (thn (acceptor_create as_key a k) (ret ())))
         (rx_os (drop_socket k))))"

subsection \<open>SocketConnector\<close>

definition connector_free :: "nat \<Rightarrow> unit so_prog" where
  "connector_free p = bnd (get_connector p) (\<lambda>c.
     thn (rx_os (drop_socket (cn_socket c))) (modify (put_connector p None)))"

definition connector_register :: "(socket \<Rightarrow> int) \<Rightarrow> nat \<Rightarrow> unit so_prog" where
  "connector_register as_key p = bnd (get_connector p) (\<lambda>c.
     thn (modify (put_connector p (Some (c\<lparr>cn_reactor := True\<rparr>))))
         (run_each (add_event_handler as_key (int p) (cn_socket c)) (connector_observers p)))"

definition connector_unregister :: "(socket \<Rightarrow> int) \<Rightarrow> nat \<Rightarrow> unit so_prog" where
  "connector_unregister as_key p = bnd (get_connector p) (\<lambda>c.
     if cn_reactor c then run_each (remove_event_handler as_key (int p) (cn_socket c)) (connector_observers p)
     else ret ())"

text \<open>The constructors without and with a reactor.\<close>

definition connector_new :: "string \<Rightarrow> 16 word \<Rightarrow> nat so_prog" where
  "connector_new ip port = bnd new_address (\<lambda>p.
     thn (modify (put_connector p (Some \<lparr>cn_socket = socket_default, cn_reactor = False\<rparr>)))
         (catch_rethrow (thn (connector_socket p (sock_connect_nb ip port)) (ret p)) (connector_free p)))"

definition connector_on :: "(socket \<Rightarrow> int) \<Rightarrow> string \<Rightarrow> 16 word \<Rightarrow> bool \<Rightarrow> nat so_prog" where
  "connector_on as_key ip port doRegister = bnd new_address (\<lambda>p.
     thn (modify (put_connector p (Some \<lparr>cn_socket = socket_default, cn_reactor = False\<rparr>)))
         (catch_rethrow
           (thn (connector_socket p (sock_connect_nb ip port))
           (thn (if doRegister then connector_register as_key p else ret ()) (ret p)))
           (connector_free p)))"

definition connector_destroy :: "(socket \<Rightarrow> int) \<Rightarrow> nat \<Rightarrow> unit so_prog" where
  "connector_destroy as_key p = thn (catch_all (connector_unregister as_key p) (ret ())) (connector_free p)"

text \<open>\<open>createServiceHandler\<close> and the empty \<open>onError(int)\<close>, which a derived class may override.\<close>

definition connector_create :: "(socket \<Rightarrow> int) \<Rightarrow> nat \<Rightarrow> nat so_prog" where
  "connector_create as_key p = bnd (get_connector p) (\<lambda>c.
     if cn_reactor c then handler_new as_key (cn_socket c) else fail (Undef Null_deref))"

definition connector_failed :: "int \<Rightarrow> unit so_prog" where
  "connector_failed err = ret ()"

definition on_connect :: "(socket \<Rightarrow> int) \<Rightarrow> nat \<Rightarrow> unit so_prog" where
  "on_connect as_key p =
     thn (connector_socket p (set_blocking True))
    (thn (connector_create as_key p) (connector_unregister as_key p))"

definition connector_writable :: "(socket \<Rightarrow> int) \<Rightarrow> nat \<Rightarrow> unit so_prog" where
  "connector_writable as_key p = on_connect as_key p"

definition connector_readable :: "(socket \<Rightarrow> int) \<Rightarrow> nat \<Rightarrow> unit so_prog" where
  "connector_readable as_key p = bnd (connector_socket p socket_error) (\<lambda>err.
     if err \<noteq> 0 then thn (connector_failed err) (connector_unregister as_key p) else on_connect as_key p)"

definition connector_error :: "(socket \<Rightarrow> int) \<Rightarrow> nat \<Rightarrow> unit so_prog" where
  "connector_error as_key p = bnd (connector_socket p socket_error) (\<lambda>err. thn (connector_failed err) (connector_unregister as_key p))"

text \<open>The methods by their numbers.\<close>

definition service_callback :: "(socket \<Rightarrow> int) \<Rightarrow> nat \<Rightarrow> nat \<Rightarrow> nat \<Rightarrow> unit so_prog" where
  "service_callback as_key obj m n =
     (if m = 0 then on_accept as_key obj
      else if m = 1 then on_socket_readable as_key obj
      else if m = 2 then on_socket_writable as_key obj
      else if m = 3 then on_socket_shutdown as_key obj
      else if m = 4 then connector_readable as_key obj
      else if m = 5 then connector_writable as_key obj
      else connector_error as_key obj)"

subsection \<open>EchoServer::main\<close>

definition SERVER_PORT :: int where "SERVER_PORT = 8080"

definition service_init :: "pollset \<Rightarrow> world \<Rightarrow> service" where
  "service_init ps w = reactor_init ps w
     \<lparr>so_acceptors = Map.empty, so_connectors = Map.empty, so_handlers = Map.empty\<rparr>"

text \<open>The destructor of the reactor: the map of the handlers, then the poll set.\<close>

primrec drop_handlers :: "(sock_id \<times> socket \<times> nat) list \<Rightarrow> unit so_prog" where
  "drop_handlers [] = ret ()"
| "drop_handlers (x # xs) =
     thn (release_notifier (snd (snd x))) (thn (rx_os (drop_socket (fst (snd x)))) (drop_handlers xs))"

definition reactor_destroy :: "unit so_prog" where
  "reactor_destroy = thn (bnd (gets rx_handlers) drop_handlers) (on_poll poll_destroy)"

text \<open>The turns that the thread of the reactor makes before the main thread has received its signal.\<close>

primrec reactor_turns :: "(socket \<Rightarrow> int) \<Rightarrow> nat \<Rightarrow> unit so_prog" where
  "reactor_turns as_key 0 = ret ()"
| "reactor_turns as_key (Suc n) = thn (reactor_turn (service_callback as_key)) (reactor_turns as_key n)"

definition echo_body :: "(socket \<Rightarrow> int) \<Rightarrow> (string \<Rightarrow> string option) \<Rightarrow> nat \<Rightarrow> int so_prog" where
  "echo_body as_key e n =
     finally_run
       (bnd (acceptor_on as_key (socket_of SERVER_PORT)) (\<lambda>a.
        finally_run
          (thn (reactor_turns as_key n)
          (thn (rx_os (wait_signals (termination_signals e)))
          (thn reactor_stop
          (thn (reactor_run (service_callback as_key) 1)
               (ret EXIT_OK)))))
          (acceptor_destroy as_key a)))
       reactor_destroy"

text \<open>\<^verbatim>\<open>ServerSocket svs(port)\<close> takes the port as the descriptor.\<close>

definition echo_main :: "(socket \<Rightarrow> int) \<Rightarrow> (string \<Rightarrow> string option) \<Rightarrow> nat \<Rightarrow> (world, int) prog" where
  "echo_main as_key e n = finally_run
     (bnd pollset_new (\<lambda>ps w. case echo_body as_key e n (service_init ps w) of (out, s) \<Rightarrow> (out, rx_world s)))
     (drop_socket (socket_of SERVER_PORT))"

definition echo_initialize :: "('z, unit) app_prog" where
  "echo_initialize = app_initialize"

definition echo_uninitialize :: "('z, unit) app_prog" where
  "echo_uninitialize = app_uninitialize"

definition echo_app :: "(socket \<Rightarrow> int) \<Rightarrow> nat \<Rightarrow> string list \<Rightarrow> (app, int) prog" where
  "echo_app as_key n = app_run_args echo_initialize (\<lambda>args. bnd (gets ap_env) (\<lambda>e. app_os (echo_main as_key e n)))"


subsection \<open>What registering a handler leaves alone\<close>

lemmas handler_rules = keeps_rules keeps_zoom keeps_with_lock keeps_finally

definition handlers_are :: "(nat \<Rightarrow> echo_handler option) \<Rightarrow> service \<Rightarrow> bool" where
  "handlers_are H s \<longleftrightarrow> so_handlers s = H"

lemma handlers_are_updates [simp]:
  "handlers_are H (s\<lparr>ev_next := a\<rparr>) = handlers_are H s"
  "handlers_are H (s\<lparr>rx_mutex := b\<rparr>) = handlers_are H s"
  "handlers_are H (s\<lparr>rx_handlers := c\<rparr>) = handlers_are H s"
  "handlers_are H (s\<lparr>rx_world := d\<rparr>) = handlers_are H s"
  "handlers_are H (s\<lparr>rx_poll := e\<rparr>) = handlers_are H s"
  "handlers_are H (s\<lparr>rx_notifiers := f\<rparr>) = handlers_are H s"
  "handlers_are H (s\<lparr>ev_centers := g\<rparr>) = handlers_are H s"
  "handlers_are H (s\<lparr>ev_observers := h\<rparr>) = handlers_are H s"
  by (simp_all add: handlers_are_def)

lemma nc_handlers:
  "keeps (handlers_are H) (nc_has c ob)" "keeps (handlers_are H) (nc_add c ob)" 
proof -
  have "keeps (handlers_are H) (has_loop ob as)" for as
    by (induction as) (auto simp: get_observer_def keeps_def [of _ "Pair _"] intro!: handler_rules)
  then show "keeps (handlers_are H) (nc_has c ob)"
    by (auto simp: nc_has_def center_locked_def get_center_def set_center_def intro!: handler_rules split: option.splits)
  show "keeps (handlers_are H) (nc_add c ob)"
    by (auto simp: nc_add_def center_locked_def get_center_def set_center_def observer_clone_def set_observers_def
        set_observer_def intro!: handler_rules split: option.splits)
qed

lemma add_event_handler_handlers: "keeps (handlers_are H) (add_event_handler as_key addr sock ob)"
proof -
  have acc: "keeps (handlers_are H) (observer_accepts ob p)" for p
    by (cases p) (auto simp: observer_accepts_def get_note_def intro!: handler_rules)
  have first: "keeps (handlers_are H) (first_accepted ob ps)" for ps
    by (induction ps) (auto simp: keeps_def [of _ "Pair _"] intro!: handler_rules acc)
  have add: "keeps (handlers_are H) (notifier_add p ob)" for p
    by (auto simp: notifier_add_def notifier_locked_def change_events_def get_notifier_at_def put_notifier_def
        intro!: handler_rules nc_handlers first split: option.splits)
  have mode: "keeps (handlers_are H) (notifier_mode p)" for p
    by (auto simp: notifier_mode_def notifier_accepts_def notifier_locked_def get_notifier_at_def put_notifier_def
        intro!: handler_rules split: option.splits)
  have get: "keeps (handlers_are H) (get_notifier sock mk)" for mk
    by (auto simp: get_notifier_def reactor_locked_def share_notifier_def notifier_new_def get_notifier_at_def put_notifier_def
        set_center_def intro!: handler_rules split: option.splits)
  have rel: "keeps (handlers_are H) (release_notifier p)" for p
    by (auto simp: release_notifier_def get_notifier_at_def put_notifier_def rx_os_def intro!: handler_rules)
  show ?thesis
    by (auto simp: add_event_handler_def with_notifier_def on_poll_def
        intro!: handler_rules get rel mode add nc_handlers split: option.splits prod.splits)
qed


subsection \<open>Reading and writing\<close>

lemma get_handler_apply: "so_handlers s p = Some h \<Longrightarrow> get_handler p s = (Ret h, s)"
  by (simp add: get_handler_def bnd_apply)

lemma emitting_silent:
  assumes "so_handlers s p = Some h" "m (q h, eh_socket h, rx_world s) = (out, f, k, w)" "f_signals f = f_signals (q h)"
  shows "emitting p q set_q slot m s =
    (out, put_handler p (Some (set_q f (h\<lparr>eh_socket := k\<rparr>))) (s\<lparr>rx_world := w\<rparr>))"
  using assms by (simp add: emitting_def bnd_apply get_handler_apply)

text \<open>A handler whose queues have the declared mutex blocks at its first event.\<close>

lemma echo_handler_deadlocks:
  assumes "so_handlers s p = Some h" "plain_mutex (eh_in h)" "plain_mutex (eh_out h)"
  shows "\<exists>t u. on_socket_readable as_key p s = (Fail Deadlock, t) \<and> rx_world t = rx_world s \<and>
    on_socket_writable as_key p s = (Fail Deadlock, u) \<and> rx_world u = rx_world s"
proof -
  have "sock_receive_fifo (eh_in h, eh_socket h, rx_world s) =
      (Fail Deadlock, ((eh_in h)\<lparr>f_mutex := locked (f_mutex (eh_in h))\<rparr>, eh_socket h, rx_world s))"
    using wire_deadlock [OF assms(2), of Fill] by simp
  moreover have "sock_send_fifo (eh_out h, eh_socket h, rx_world s) =
      (Fail Deadlock, ((eh_out h)\<lparr>f_mutex := locked (f_mutex (eh_out h))\<rparr>, eh_socket h, rx_world s))"
    using wire_deadlock [OF assms(3), of Flush] by simp
  ultimately show ?thesis
    using assms(1)
    by (simp add: on_socket_readable_def on_socket_writable_def with_in_def with_out_def bnd_apply catch_all_apply
        emitting_silent put_handler_def)
qed

subsection \<open>The relay between the queues\<close>

text \<open>In a reactor without notifications the slots succeed and change nothing but the handlers of the reactor.\<close>

definition idle_reactor :: "service \<Rightarrow> bool" where
  "idle_reactor s \<longleftrightarrow> reactor_ok s \<and> no_notes s"

text \<open>The reactor as the objects of the service see it.\<close>

interpretation so: enrolment "\<lambda>(addr, sock, ob). add_event_handler as_key addr sock ob" idle_reactor
  "\<lambda>s. (rest s, so_handlers s)" for as_key
proof (unfold_locales, goal_cases)
  case (1 s x)
  obtain addr sock ob where x: "x = (addr, sock, ob)" by (rule prod_cases3)
  obtain t where t: "add_event_handler as_key addr sock ob s = (Ret (), t)" "idle_reactor t" "rest t = rest s"
    using rx.enrols [of s as_key x] 1 x by (auto simp: idle_reactor_def)
  have "handlers_are (so_handlers s) (snd (add_event_handler as_key addr sock ob s))"
    by (rule keepsD [OF add_event_handler_handlers]) (simp add: handlers_are_def)
  then show ?case using t x by (simp add: handlers_are_def)
qed

text \<open>Signals that only ask to add handlers, and the object they are sent to.\<close>

definition calm :: "nat \<Rightarrow> (signal \<Rightarrow> unit so_prog) \<Rightarrow> signal \<Rightarrow> bool" where
  "calm p slot g \<longleftrightarrow> (\<forall>s. idle_reactor s \<and> so_handlers s p \<noteq> None \<longrightarrow>
     (\<exists>t. slot g s = (Ret (), t) \<and> idle_reactor t \<and> rest t = rest s \<and> so_handlers t = so_handlers s))"

lemma calmD:
  "calm p slot g \<Longrightarrow> idle_reactor s \<Longrightarrow> so_handlers s p \<noteq> None \<Longrightarrow>
     \<exists>t. slot g s = (Ret (), t) \<and> idle_reactor t \<and> rest t = rest s \<and> so_handlers t = so_handlers s"
  by (simp add: calm_def)

lemma calm_adding:
  assumes "\<And>s h. so_handlers s p = Some h \<Longrightarrow> slot g s = add_event_handler as_key a (eh_socket h) ob s"
  shows "calm p slot g"
  unfolding calm_def
proof (intro allI impI, elim conjE)
  fix s :: service
  assume s: "idle_reactor s" "so_handlers s p \<noteq> None"
  then obtain h where "so_handlers s p = Some h" by auto
  then have "slot g s = add_event_handler as_key a (eh_socket h) ob s" by (rule assms)
  then show "\<exists>t. slot g s = (Ret (), t) \<and> idle_reactor t \<and> rest t = rest s \<and> so_handlers t = so_handlers s"
    using so.enrols [OF s(1), of as_key "(a, eh_socket h, ob)"] by simp
qed

lemma calm_slots:
  "calm p (in_slot as_key p) (Readable b)" "calm p (in_slot as_key p) (Writable True)"
  "calm p (out_slot as_key p) (Writable b)" "calm p (out_slot as_key p) (Readable True)"
proof -
  show "calm p (in_slot as_key p) (Readable b)" "calm p (out_slot as_key p) (Writable b)" by (simp_all add: calm_def)
  show "calm p (in_slot as_key p) (Writable True)"
    by (rule calm_adding [where as_key = as_key and a = "int p" and ob = "readable_observer p"])
      (simp add: on_fifo_in_writable_def bnd_apply get_handler_apply)
  show "calm p (out_slot as_key p) (Readable True)"
    by (rule calm_adding [where as_key = as_key and a = "int p" and ob = "writable_observer p"])
      (simp add: on_fifo_out_readable_def bnd_apply get_handler_apply)
qed

lemma run_each_calm:
  assumes "\<forall>g \<in> set sigs. calm p slot g" "idle_reactor s" "so_handlers s p \<noteq> None"
  shows "\<exists>t. run_each slot sigs s = (Ret (), t) \<and> idle_reactor t \<and> rest t = rest s \<and> so_handlers t = so_handlers s"
  using assms
proof (induction sigs arbitrary: s)
  case (Cons g gs)
  have "calm p slot g" using Cons.prems(1) by simp
  then obtain t where t: "slot g s = (Ret (), t)" "idle_reactor t" "rest t = rest s" "so_handlers t = so_handlers s"
    using calmD Cons.prems(2,3) by blast
  have "\<exists>u. run_each slot gs t = (Ret (), u) \<and> idle_reactor u \<and> rest u = rest t \<and> so_handlers u = so_handlers t"
    by (rule Cons.IH) (use t Cons.prems in simp_all)
  then show ?case using t by simp
qed (simp add: ret_def)

lemma idle_reactor_put: "idle_reactor (put_handler p h s) = idle_reactor s"
  by (simp add: idle_reactor_def reactor_ok_def no_notes_def put_handler_def live_notifier_def center_ok_def free_observer_def)

text \<open>An operation on one queue whose signals are calm.\<close>

lemma emitting_calm:
  assumes "so_handlers s p = Some h" "idle_reactor s" "m (q h) = (Ret x, f)"
    and "\<forall>g \<in> set (drop (length (f_signals (q h))) (f_signals f)). calm p slot g"
  shows "\<exists>t. emitting p q set_q slot (on_queue m) s = (Ret x, t) \<and> idle_reactor t \<and> rest t = rest s \<and>
    so_handlers t = (so_handlers s)(p \<mapsto> set_q f h)"
proof -
  let ?u = "put_handler p (Some (set_q f h)) s"
  have u: "idle_reactor ?u" "so_handlers ?u p \<noteq> None" using assms(2) idle_reactor_put by (simp_all add: put_handler_def)
  obtain t where t: "run_each slot (drop (length (f_signals (q h))) (f_signals f)) ?u = (Ret (), t)"
      "idle_reactor t" "rest t = rest ?u" "so_handlers t = so_handlers ?u"
    using run_each_calm [OF assms(4) u] by blast
  have "rest ?u = rest s" by (simp add: rest_def put_handler_def)
  then show ?thesis
    using t assms(1,3) by (simp add: emitting_def bnd_apply get_handler_apply on_queue_def zoom_def) (simp add: put_handler_def)
qed


lemma tells_append: "g \<in> set (fifo_tells f (f_used f + n)) \<Longrightarrow> g = Readable True \<or> g = Writable False"
  by (auto simp: fifo_tells_def edge_signals_def split: if_splits)

lemma tells_remove:
  "f_used f \<le> fifo_size f \<Longrightarrow> k \<le> f_used f \<Longrightarrow> g \<in> set (fifo_tells f k) \<Longrightarrow> g = Readable False \<or> g = Writable True"
  by (auto simp: fifo_tells_def edge_signals_def split: if_splits)

text \<open>Writing the beginning of the storage of a queue whose data start there to another queue.\<close>

lemma write_storage:
  assumes i: "fifo_inv i" "f_begin i = 0" "0 < f_used i" and q: "streaming q"
  shows "\<exists>q'. fifo_write_buf (f_buffer i) (f_used i) q = (Ret (min (f_used i) (fifo_size q - f_used q)), q') \<and>
    appended q (take (fifo_size q - f_used q) (fifo_content i)) q'"
proof -
  have sz: "f_used i \<le> buffer_size (f_buffer i)" "0 < buffer_size (f_buffer i)"
    using i fifo_used_le [OF i(1)] by (simp_all add: fifo_size_def)
  obtain m where m: "b_ptr (f_buffer i) = Some m" "buffer_size (f_buffer i) \<le> length m"
    using i(1) sz by (auto simp: fifo_inv_def buffer_inv_def buffer_size_def split: option.splits)
  have data: "mem_read 0 (f_used i) m = Some (fifo_content i)"
    using m sz i(2) by (simp add: fifo_content_def contents_def buffer_size_def min_def)
  have len: "length (fifo_content i) = f_used i" using i(1) by simp
  have run: "fifo_write_buf (f_buffer i) (f_used i) q = fifo_write (fifo_content i) q"
    using i(3) sz m data by (simp add: fifo_write_buf_def bnd_apply del: mem_read_Some)
  have q': "fifo_inv q" "reentrant q" "\<not> f_error q" "\<not> f_eof q" using q by (auto simp: streaming_def fifo_ok_def)
  show ?thesis
  proof (cases "is_writable q")
    case True
    have "fifo_content i \<noteq> []" using len i(3) by auto
    from fifo_write_spec [OF q'(1,2) this True] show ?thesis unfolding run len .
  next
    case False
    then have "fifo_size q - f_used q = 0" using q' fifo_used_le [OF q'(1)] by (auto simp: is_writable_iff)
    moreover have "fifo_write (fifo_content i) q = (Ret 0, q)" using False q'(2) by (intro fifo_write_nothing) auto
    ultimately show ?thesis using run appended_refl [OF q'(1)] by simp
  qed
qed

text \<open>What the service is written to do with the bytes it has received, and what it would do if its queues had a re-entrant mutex
  and the data of the input began at the start of the storage: it would move as many as there is room for to the output queue,
  in order. When the output queue is full nothing is moved and \<open>drain(0)\<close> throws the whole input away. After
  a partial relay the data no longer begin at the start, and the next relay, which reads from the start, copies the wrong cells.\<close>

lemma echo_relay:
  assumes h: "so_handlers s p = Some h" "reactor_ok s" "no_notes s"
    and q: "streaming (eh_in h)" "streaming (eh_out h)" "f_begin (eh_in h) = 0" "0 < f_used (eh_in h)"
    and n: "n = min (f_used (eh_in h)) (fifo_size (eh_out h) - f_used (eh_out h))"
  shows "\<exists>t i q. handler_relay as_key p s = (Ret (), t) \<and> rest t = rest s \<and>
    so_handlers t = (so_handlers s)(p \<mapsto> h\<lparr>eh_out := q, eh_in := i\<rparr>) \<and>
    fifo_content q = fifo_content (eh_out h) @ take n (fifo_content (eh_in h)) \<and>
    fifo_content i = (if n = 0 then [] else drop n (fifo_content (eh_in h)))"
proof -
  let ?in = "eh_in h" and ?out = "eh_out h"
  have iq: "fifo_inv ?in" "can_lock (f_mutex ?in)" "fifo_inv ?out"
    using q(1,2) by (auto simp: streaming_def fifo_ok_def)
  have idle: "idle_reactor s" using h by (simp add: idle_reactor_def)
  obtain q' where q': "fifo_write_buf (f_buffer ?in) (f_used ?in) ?out = (Ret n, q')"
      "appended ?out (take (fifo_size ?out - f_used ?out) (fifo_content ?in)) q'"
    using write_storage [OF iq(1) q(3,4,2)] n by blast
  have "set (drop (length (f_signals ?out)) (f_signals q')) \<subseteq> {Readable True, Writable False}"
    using q'(2) tells_append [of _ ?out] by (auto simp: appended_def)
  then have calm1: "\<forall>g \<in> set (drop (length (f_signals ?out)) (f_signals q')). calm p (out_slot as_key p) g"
    using calm_slots by auto
  obtain u where u: "with_out as_key p (on_queue (fifo_write_buf (f_buffer ?in) (f_used ?in))) s = (Ret n, u)"
      "idle_reactor u" "rest u = rest s" "so_handlers u = (so_handlers s)(p \<mapsto> h\<lparr>eh_out := q'\<rparr>)"
    using emitting_calm [of s p h "fifo_write_buf (f_buffer ?in) (f_used ?in)" eh_out n q' "out_slot as_key p"
      "\<lambda>f h. h\<lparr>eh_out := f\<rparr>"] h(1) idle q'(1) calm1
    unfolding with_out_def by blast
  obtain i where i: "fifo_drain n ?in = (Ret (), i)" "removed ?in (if n = 0 then f_used ?in else min n (f_used ?in)) i"
    using fifo_drain_spec [OF iq(1,2), of n] by blast
  let ?k = "f_used ?in - (if n = 0 then f_used ?in else min n (f_used ?in))"
  have "drop (length (f_signals ?in)) (f_signals i) = fifo_tells ?in ?k" using i(2) by (simp add: removed_def)
  then have "set (drop (length (f_signals ?in)) (f_signals i)) \<subseteq> {Readable False, Writable True}"
    using tells_remove [OF fifo_used_le [OF iq(1)], of ?k] by (simp add: subset_iff)
  then have calm2: "\<forall>g \<in> set (drop (length (f_signals ?in)) (f_signals i)). calm p (in_slot as_key p) g"
    using calm_slots by auto
  have uh: "so_handlers u p = Some (h\<lparr>eh_out := q'\<rparr>)" using u(4) by simp
  obtain t where t: "with_in as_key p (on_queue (fifo_drain n)) u = (Ret (), t)" "rest t = rest u"
      "so_handlers t = (so_handlers u)(p \<mapsto> h\<lparr>eh_out := q', eh_in := i\<rparr>)"
    using emitting_calm [OF uh u(2), of "fifo_drain n" eh_in "()" i "in_slot as_key p" "\<lambda>f h. h\<lparr>eh_in := f\<rparr>"] i(1) calm2
    unfolding with_in_def by auto
  have "handler_relay as_key p s = (Ret (), t)"
    using h(1) u(1) t(1) by (simp add: handler_relay_def bnd_apply get_handler_apply)
  moreover have "fifo_content q' = fifo_content ?out @ take n (fifo_content ?in)"
    using q'(2) n iq(1) by (simp add: appended_def min_def take_all_iff)
  moreover have "fifo_content i = (if n = 0 then [] else drop n (fifo_content ?in))"
    using i(2) n iq(1) by (auto simp: removed_def min_def)
  ultimately show ?thesis using t u(3,4) by - (rule exI [of _ t], rule exI [of _ i], rule exI [of _ q'], simp)
qed


subsection \<open>Accepting a connection\<close>

lemma rx_os_drop:
  assumes "rx_os (drop_socket k) s = (Ret (), t)" "sk_fd k \<noteq> INVALID_SOCKET"
  shows "\<exists>c. w_trace (rx_world t) = w_trace (rx_world s) @ [(Close (sk_fd k), c)] \<and> t = s\<lparr>rx_world := rx_world t\<rparr>"
  using assms
  by (cases rule: sys_cases [of "rx_world s" "Close (sk_fd k)"])
    (auto simp: rx_os_def zoom_def drop_socket_def bnd_apply)

definition fresh_queue :: "char fifo" where
  "fresh_queue = fifo_make \<lparr>b_capacity = BUFFER_SIZE, b_used = BUFFER_SIZE,
     b_ptr = Some (replicate BUFFER_SIZE None), b_ownMem = True\<rparr> 0 True"

lemma handler_new_apply:
  fixes s :: service
  shows "handler_new as_key sock s = catch_rethrow
      (thn (add_event_handler as_key (int (ev_next s)) sock (readable_observer (ev_next s)))
      (thn (add_event_handler as_key (int (ev_next s)) sock (shutdown_observer (ev_next s))) (ret (ev_next s))))
      (handler_free (ev_next s))
      (put_handler (ev_next s) (Some \<lparr>eh_socket = sock, eh_in = fresh_queue, eh_out = fresh_queue\<rparr>) (s\<lparr>ev_next := Suc (ev_next s)\<rparr>))"
  by (simp add: fresh_queue_def handler_new_def new_address_def bnd_apply thn_apply fifo_new_def BUFFER_SIZE_def buffer_new_def array_max_def)

lemma handler_new_result:
  assumes "handler_new as_key sock s = (Ret p, t)"
  shows "\<exists>i q. so_handlers t p = Some \<lparr>eh_socket = sock, eh_in = i, eh_out = q\<rparr> \<and>
    plain_mutex i \<and> plain_mutex q \<and> fifo_content i = [] \<and> fifo_content q = []"
proof -
  let ?n = "ev_next s"
  let ?u = "put_handler ?n (Some \<lparr>eh_socket = sock, eh_in = fresh_queue, eh_out = fresh_queue\<rparr>) (s\<lparr>ev_next := Suc ?n\<rparr>)"
  obtain out u1 where u1: "add_event_handler as_key (int ?n) sock (readable_observer ?n) ?u = (out, u1)" by (rule prod.exhaust)
  obtain out2 u2 where u2: "add_event_handler as_key (int ?n) sock (shutdown_observer ?n) u1 = (out2, u2)" by (rule prod.exhaust)
  have same: "so_handlers u1 = so_handlers ?u" "so_handlers u2 = so_handlers u1"
    using keepsD [OF add_event_handler_handlers, of "so_handlers ?u" ?u] keepsD [OF add_event_handler_handlers, of "so_handlers u1" u1] u1 u2
    by (simp_all add: handlers_are_def) (metis snd_conv)+
  have "p = ?n \<and> t = u2"
    using assms u1 u2 unfolding handler_new_apply
    by (auto simp: catch_rethrow_def thn_apply handler_free_def bnd_apply split: outcome.splits failure.splits prod.splits)
  then show ?thesis
    using same by (simp add: put_handler_def fresh_queue_def fifo_make_def plain_mutex_def new_mutex_def fifo_content_def)
qed

text \<open>C11. The echo service as it is declared never echoes. The queues of a handler are made with the mutex of the class, and whatever
  happens before, as long as nothing has used this handler, its first readable event and its first writable event block the
  thread of the reactor for ever, before any system call: nothing is received, relayed or sent.\<close>

theorem echo_first_event_blocks:
  assumes "handler_new as_key sock s0 = (Ret p, t0)" "so_handlers s p = so_handlers t0 p"
  shows "\<exists>t u. on_socket_readable as_key p s = (Fail Deadlock, t) \<and> rx_world t = rx_world s \<and>
    on_socket_writable as_key p s = (Fail Deadlock, u) \<and> rx_world u = rx_world s"
proof -
  obtain i q where "so_handlers s p = Some \<lparr>eh_socket = sock, eh_in = i, eh_out = q\<rparr>" "plain_mutex i" "plain_mutex q"
    using handler_new_result [OF assms(1)] assms(2) by auto
  then show ?thesis
    using echo_handler_deadlocks [of s p "\<lparr>eh_socket = sock, eh_in = i, eh_out = q\<rparr>" as_key] by simp
qed

text \<open>In a reactor without notifications the objects are made and registered without a system call.\<close>

lemma idle_reactor_next: "idle_reactor s \<Longrightarrow> idle_reactor (s\<lparr>ev_next := Suc (ev_next s)\<rparr>)"
  by (fastforce simp: idle_reactor_def reactor_ok_def no_notes_def live_notifier_def center_ok_def free_observer_def)

lemma handler_new_idle:
  assumes "idle_reactor s"
  shows "\<exists>p t. handler_new as_key sock s = (Ret p, t) \<and> idle_reactor t \<and> rest t = rest s"
proof -
  let ?n = "ev_next s"
  let ?u = "put_handler ?n (Some \<lparr>eh_socket = sock, eh_in = fresh_queue, eh_out = fresh_queue\<rparr>) (s\<lparr>ev_next := Suc ?n\<rparr>)"
  have "idle_reactor ?u" using idle_reactor_next [OF assms] by (simp only: idle_reactor_put)
  from so.enrol_new [OF this, of as_key "(int ?n, sock, readable_observer ?n)" "(int ?n, sock, shutdown_observer ?n)" ?n "handler_free ?n"]
  obtain t where "handler_new as_key sock s = (Ret ?n, t)" "idle_reactor t" "rest t = rest ?u"
    by (auto simp: handler_new_apply)
  moreover have "rest ?u = rest s" by (simp add: rest_def put_handler_def)
  ultimately show ?thesis by auto
qed

text \<open>A connector registers its three observers in the same way.\<close>

lemma idle_reactor_connector: "idle_reactor (put_connector p c s) = idle_reactor s"
  by (simp add: idle_reactor_def reactor_ok_def no_notes_def put_connector_def live_notifier_def center_ok_def free_observer_def)

lemma connector_register_idle:
  assumes "idle_reactor s" "so_connectors s p = Some c"
  shows "\<exists>t. connector_register as_key p s = (Ret (), t) \<and> idle_reactor t \<and> rest t = rest s"
proof -
  let ?u = "put_connector p (Some (c\<lparr>cn_reactor := True\<rparr>)) s"
  have each: "run_each (add_event_handler as_key (int p) (cn_socket c)) obs =
      run_each (\<lambda>(addr, sock, ob). add_event_handler as_key addr sock ob) (map (\<lambda>ob. (int p, cn_socket c, ob)) obs)" for obs
    by (induction obs) simp_all
  have "idle_reactor ?u" using assms(1) by (simp only: idle_reactor_connector)
  from so.enrol_all [OF this, of as_key "map (\<lambda>ob. (int p, cn_socket c, ob)) (connector_observers p)"]
  show ?thesis
    using assms(2) by (auto simp: connector_register_def get_connector_def bnd_apply thn_apply each)
      (simp add: rest_def put_connector_def)
qed

lemma idle_reactor_acceptor: "idle_reactor (put_acceptor p a s) = idle_reactor s"
  by (simp add: idle_reactor_def reactor_ok_def no_notes_def put_acceptor_def live_notifier_def center_ok_def free_observer_def)

lemma idle_reactor_world: "idle_reactor (s\<lparr>rx_world := w\<rparr>) = idle_reactor s"
  by (simp add: idle_reactor_def reactor_ok_def no_notes_def live_notifier_def center_ok_def free_observer_def)

lemma sock_accept_reply:
  assumes "sk_fd k \<noteq> INVALID_SOCKET" "w_script w = r # rs" "reply_ok (Accept (sk_fd k)) r" "0 \<le> rp_rc r"
  shows "sock_accept (k, w) = (Ret (Some (socket_of (rp_rc r))), (k, answered (Accept (sk_fd k)) r w))"
proof -
  have "sys_retry (\<lambda>rc. rc = -1) (Accept (sk_fd k)) w = (Ret r, answered (Accept (sk_fd k)) r w)"
    using assms(2-4) by (intro sys_retry_done sys_reply) auto
  then show ?thesis
    using assms(1,4) by (simp add: sock_accept_def if_invalid_def fd_loop_def on_world_def zoom_def bnd_apply)
qed

lemma on_accept_apply:
  assumes "so_acceptors s p = Some a" "ac_reactor a" "sk_fd (ac_socket a) \<noteq> INVALID_SOCKET"
    and "w_script (rx_world s) = r # rs" "reply_ok (Accept (sk_fd (ac_socket a))) r" "0 \<le> rp_rc r"
  shows "on_accept as_key p s = finally_run (thn (handler_new as_key (socket_of (rp_rc r))) (ret ()))
    (rx_os (drop_socket (socket_of (rp_rc r))))
    (put_acceptor p (Some a) (s\<lparr>rx_world := answered (Accept (sk_fd (ac_socket a))) r (rx_world s)\<rparr>))"
  using assms(1,2) sock_accept_reply [OF assms(3-6)]
  by (simp add: on_accept_def acceptor_create_def wake_up_def thn_ret acceptor_socket_def get_acceptor_def bnd_apply zoom_def put_acceptor_def)

lemma on_accept_idle:
  assumes "so_acceptors s p = Some a" "ac_reactor a" "sk_fd (ac_socket a) \<noteq> INVALID_SOCKET"
    and "w_script (rx_world s) = r # c # rs" "reply_ok (Accept (sk_fd (ac_socket a))) r" "0 \<le> rp_rc r" "status_ok c"
    and "idle_reactor s"
  shows "\<exists>t. on_accept as_key p s = (Ret (), t)"
proof -
  let ?s = "put_acceptor p (Some a) (s\<lparr>rx_world := answered (Accept (sk_fd (ac_socket a))) r (rx_world s)\<rparr>)"
  have "idle_reactor ?s" using assms(8) by (simp only: idle_reactor_acceptor idle_reactor_world)
  then obtain q t where t: "handler_new as_key (socket_of (rp_rc r)) ?s = (Ret q, t)" "rest t = rest ?s"
    using handler_new_idle by blast
  have "w_script (rx_world t) = c # rs" using t(2) assms(4) by (simp add: rest_def put_acceptor_def)
  then have "sys (Close (rp_rc r)) (rx_world t) = (Ret c, answered (Close (rp_rc r)) c (rx_world t))"
    using assms(7) by (simp add: sys_reply)
  then show ?thesis
    using t(1) assms(6) unfolding on_accept_apply [OF assms(1-6)]
    by (simp add: finally_run_def thn_apply rx_os_def zoom_def drop_socket_def bnd_apply socket_of_def INVALID_SOCKET_def)
qed

text \<open>C31. An accepted connection does not outlive \<open>onAccept\<close>: the service handler that it creates copies the socket, and
  the destructor of the local socket closes the descriptor that the copy still holds. The last system call
  of \<open>onAccept\<close> closes the connection it has accepted.\<close>

theorem on_accept_closes:
  assumes "so_acceptors s p = Some a" "ac_reactor a" "sk_fd (ac_socket a) \<noteq> INVALID_SOCKET"
    and "w_script (rx_world s) = r # rs" "reply_ok (Accept (sk_fd (ac_socket a))) r" "0 \<le> rp_rc r"
    and "on_accept as_key p s = (Ret (), t)"
  shows "\<exists>q h c. so_handlers t q = Some h \<and> sk_fd (eh_socket h) = rp_rc r \<and> plain_mutex (eh_in h) \<and>
    last (w_trace (rx_world t)) = (Close (rp_rc r), c)"
proof -
  let ?k = "socket_of (rp_rc r)"
  let ?s1 = "put_acceptor p (Some a) (s\<lparr>rx_world := answered (Accept (sk_fd (ac_socket a))) r (rx_world s)\<rparr>)"
  obtain out u where h: "handler_new as_key ?k ?s1 = (out, u)" by (rule prod.exhaust)
  have run: "finally_run (thn (handler_new as_key ?k) (ret ())) (rx_os (drop_socket ?k)) ?s1 = (Ret (), t)"
    using assms(7) on_accept_apply [OF assms(1-6)] by simp
  have out: "\<exists>q. out = Ret q" "rx_os (drop_socket ?k) u = (Ret (), t)"
    using run h
    by (auto simp: finally_run_def thn_apply split: outcome.splits failure.splits prod.splits)
  then obtain q where q: "handler_new as_key ?k ?s1 = (Ret q, u)" using h by blast
  obtain c where tr: "w_trace (rx_world t) = w_trace (rx_world u) @ [(Close (rp_rc r), c)]"
      and eq: "t = u\<lparr>rx_world := rx_world t\<rparr>"
    using rx_os_drop [OF out(2)] assms(6) by (auto simp: socket_of_def INVALID_SOCKET_def)
  have c: "last (w_trace (rx_world t)) = (Close (rp_rc r), c)" by (simp add: tr)
  have "so_handlers t = so_handlers (u\<lparr>rx_world := rx_world t\<rparr>)" by (rule arg_cong [OF eq])
  then have c': "so_handlers t = so_handlers u" by simp
  obtain i o' where hq: "so_handlers u q = Some \<lparr>eh_socket = ?k, eh_in = i, eh_out = o'\<rparr>" "plain_mutex i"
    using handler_new_result [OF q] by blast
  show ?thesis
    using hq c c' by - (rule exI [of _ q], rule exI [of _ "\<lparr>eh_socket = ?k, eh_in = i, eh_out = o'\<rparr>"],
      rule exI [of _ c], simp add: socket_of_def)
qed


subsection \<open>The whole program\<close>

lemma acceptor_on_init:
  obtains a t where "acceptor_on as_key sock (service_init ps w) = (Ret a, t)" "reactor_ok t" "no_notes t"
    "rest t = rest (service_init ps w)" "rx_handlers t \<noteq> []"
proof -
  let ?s = "service_init ps w"
  let ?u = "put_acceptor (ev_next ?s) (Some \<lparr>ac_socket = sock, ac_reactor = True\<rparr>) (?s\<lparr>ev_next := Suc (ev_next ?s)\<rparr>)"
  have "idle_reactor ?s" by (simp add: idle_reactor_def service_init_def reactor_init_ok)
  then have "idle_reactor ?u" using idle_reactor_next by (simp only: idle_reactor_acceptor)
  then have u: "reactor_ok ?u" "no_notes ?u" by (simp_all add: idle_reactor_def)
  obtain t where t: "add_event_handler as_key (int (ev_next ?s)) sock (accept_observer (ev_next ?s)) ?u = (Ret (), t)"
      "reactor_ok t" "rest t = rest ?u" "rx_handlers t \<noteq> []"
    by (rule add_event_handler_null [OF u])
  have "rest ?u = rest ?s" by (simp add: rest_def put_acceptor_def)
  moreover have "no_notes t" using rest_no_notes [OF t(3)] u(2) by simp
  moreover have "acceptor_on as_key sock ?s = (Ret (ev_next ?s), t)"
    using t(1) by (simp add: acceptor_on_def new_address_def bnd_apply thn_apply catch_rethrow_def)
  ultimately show thesis using that t by simp
qed

lemma wait_signals_cases:
  "wait_signals sigs w = (Fail Pending, w) \<or>
   (\<exists>m. wait_signals sigs w = (Fail Pending, answered (Sigprocmask sigs) m w)) \<or>
   (\<exists>m g. wait_signals sigs w = (Ret (), answered (Sigwait sigs) g (answered (Sigprocmask sigs) m w)))"
proof (cases rule: sys_cases [of w "Sigprocmask sigs"])
  case (reply m rs)
  then show ?thesis
    by (cases rule: sys_cases [of "answered (Sigprocmask sigs) m w" "Sigwait sigs"]) (auto simp: wait_signals_def bnd_apply)
qed (simp add: wait_signals_def bnd_apply)

text \<open>The service comes to the null pointer in the first turn of the reactor, or in its stop when no turn was made.\<close>

lemma echo_body_null:
  assumes "can_lock (ps_mutex ps)" "ps_map ps = []"
  shows "\<exists>u. echo_body as_key e n (service_init ps w) =
      (if n = 0 \<and> fst (wait_signals (termination_signals e) w) = Fail Pending then Fail Pending else Fail (Undef Null_deref), u) \<and>
    rx_world u = (if n = 0 then snd (wait_signals (termination_signals e) w) else w)"
proof -
  obtain a t where t: "acceptor_on as_key (socket_of SERVER_PORT) (service_init ps w) = (Ret a, t)" "reactor_ok t"
      "no_notes t" "rest t = rest (service_init ps w)" "rx_handlers t \<noteq> []"
    by (rule acceptor_on_init)
  have r: "rx_poll t = ps" "rx_world t = w" using t(4) by (simp_all add: rest_def service_init_def reactor_init_def)
  let ?sigs = "termination_signals e"
  let ?rest = "thn (reactor_turns as_key n) (thn (rx_os (wait_signals ?sigs)) (thn reactor_stop
      (thn (reactor_run (service_callback as_key) 1) (ret EXIT_OK))))"
  have "\<exists>u. ?rest t = (if n = 0 \<and> fst (wait_signals ?sigs w) = Fail Pending then Fail Pending else Fail (Undef Null_deref), u) \<and>
    rx_world u = (if n = 0 then snd (wait_signals ?sigs w) else w)"
  proof (cases n)
    case 0
    obtain o' v where wait: "wait_signals ?sigs w = (o', v)" "o' = Fail Pending \<or> o' = Ret ()"
      using wait_signals_cases [of ?sigs w] by auto
    then have run: "rx_os (wait_signals ?sigs) t = (o', t\<lparr>rx_world := v\<rparr>)" using r(2) by (simp add: rx_os_def zoom_def)
    let ?t = "(t\<lparr>rx_world := v\<rparr>)\<lparr>rx_stop := True\<rparr>"
    have "reactor_ok ?t" "rx_handlers ?t \<noteq> []" "rx_shutdown ?t = None" "rx_world ?t = v"
      using t(2,3,5) by (simp_all add: reactor_ok_def live_notifier_def center_ok_def free_observer_def no_notes_def)
    then obtain u where "on_shutdown (service_callback as_key) ?t = (Fail (Undef Null_deref), u)" "rx_world u = v"
      using dispatch_all_null [of ?t "service_callback as_key"] by (auto simp: on_shutdown_def bnd_apply)
    then show ?thesis using run wait 0 by (auto simp: thn_apply reactor_stop_def)
  next
    case (Suc k)
    obtain u where "reactor_turn (service_callback as_key) t = (Fail (Undef Null_deref), u)" "rx_world u = rx_world t"
      using first_turn_null [OF t(2,3,5)] r(1) assms(1,2) by blast
    then show ?thesis using r(2) Suc by (simp add: thn_apply)
  qed
  then obtain u where u: "?rest t = (if n = 0 \<and> fst (wait_signals ?sigs w) = Fail Pending then Fail Pending else Fail (Undef Null_deref), u)"
      "rx_world u = (if n = 0 then snd (wait_signals ?sigs w) else w)"
    by blast
  show ?thesis
    using t(1) u by - (rule exI [of _ u], simp add: echo_body_def finally_run_def bnd_apply)
qed

text \<open>The calls that the program makes before it ends, and how it ends, read from the last calls.\<close>

fun startup_call :: "syscall \<Rightarrow> bool" where
  "startup_call Fork = True"
| "startup_call Setsid = True"
| "startup_call (Umask m) = True"
| "startup_call (Freopen path mode n) = True"
| "startup_call (Chdir path) = True"
| "startup_call Getcwd = True"
| "startup_call (Epoll_create n) = True"
| "startup_call (Sigprocmask sigs) = True"
| "startup_call (Sigwait sigs) = True"
| "startup_call (Close fd) = (fd = SERVER_PORT)"
| "startup_call c = False"

definition started :: "world \<Rightarrow> world \<Rightarrow> bool" where
  "started w w' \<longleftrightarrow> (\<exists>tr. w_trace w' = w_trace w @ tr \<and> list_all (startup_call \<circ> fst) tr)"

definition last_call :: "world \<Rightarrow> syscall \<Rightarrow> (int \<Rightarrow> bool) \<Rightarrow> bool" where
  "last_call w c p \<longleftrightarrow> (\<exists>xs r. w_trace w = xs @ [(c, r)] \<and> p (rp_rc r))"

definition daemon_failures :: "(syscall \<times> string) list" where
  "daemon_failures = [(Fork, fork_msg), (Freopen ''/dev/null'' ''r+'' 0, stdin_msg), (Freopen ''/dev/null'' ''r+'' 1, stdout_msg),
     (Freopen ''/dev/null'' ''r+'' 2, stderr_msg)]"

definition startup_end :: "int list \<Rightarrow> nat \<Rightarrow> int outcome \<Rightarrow> world \<Rightarrow> bool" where
  "startup_end sigs n out w \<longleftrightarrow>
     out = Fail (Undef Null_deref) \<and> (if n = 0 then last_call w (Sigwait sigs) (\<lambda>_. True) else last_call w (Epoll_create 1) (\<lambda>rc. rc \<ge> 0)) \<or>
     out = Fail (Exited EXIT_OK) \<and> last_call w Fork (\<lambda>rc. rc > 0) \<or>
     (\<exists>(c, msg) \<in> set daemon_failures. out = Fail (Thrown (Runtime_error msg)) \<and> last_call w c (\<lambda>rc. rc < 0)) \<or>
     out = Ret EXIT_CONFIG \<and> last_call w Getcwd (\<lambda>rc. rc < 0) \<or>
     out = Ret EXIT_OSERR \<and> last_call w (Chdir ''/'') (\<lambda>rc. rc < 0) \<or>
     out = Ret EXIT_SOFTWARE \<and> last_call w (Close SERVER_PORT) (\<lambda>_. True) \<or>
     out = Fail Pending"

lemma started_refl [simp]: "started w w"
  by (simp add: started_def)

lemma started_answered [simp]: "startup_call c \<Longrightarrow> started v w \<Longrightarrow> started v (answered c r w)"
  by (auto simp: started_def)

lemma last_call_answered [simp]: "last_call (answered c r w) d p \<longleftrightarrow> c = d \<and> p (rp_rc r)"
  by (auto simp: last_call_def)

lemma startup_pending [simp]: "startup_end sigs n (Fail Pending) w"
  by (simp add: startup_end_def)

text \<open>From the creation of the poll set on.\<close>

lemma echo_main_ends:
  assumes "started v w"
  shows "wp (echo_main as_key e n) (\<lambda>out w'. started v w' \<and> (case out of
      Fail (Thrown x) \<Rightarrow> last_call w' (Close SERVER_PORT) (\<lambda>_. True)
    | _ \<Rightarrow> startup_end (termination_signals e) n out w')) w"
proof (cases rule: sys_cases [of w "Epoll_create 1"])
  case stuck
  then show ?thesis
    using assms by (simp add: wp_def echo_main_def finally_run_def bnd_apply pollset_new_def create_epollfd_def poll_world_def zoom_def)
next
  case (reply r rs)
  let ?w = "answered (Epoll_create 1) r w"
  let ?ps = "\<lparr>ps_mutex = new_mutex Std_mutex, ps_epollfd = rp_rc r, ps_map = []\<rparr>"
  have w: "started v ?w" using assms by simp
  show ?thesis
  proof (cases "rp_rc r < 0")
    case True
    have "\<exists>msg. pollset_new w = (Fail (Thrown (Runtime_error msg)), ?w)"
      using reply True
      by (simp add: pollset_new_def create_epollfd_def poll_world_def poll_modify_def zoom_def bnd_apply thn_apply throw_runtime_def)
    then obtain msg where new: "pollset_new w = (Fail (Thrown (Runtime_error msg)), ?w)" by blast
    have "wp (drop_socket (socket_of SERVER_PORT)) (\<lambda>out w'. started v w' \<and>
        (out = Fail Pending \<or> out = Ret () \<and> last_call w' (Close SERVER_PORT) (\<lambda>_. True))) ?w"
      by (cases rule: sys_cases [of ?w "Close SERVER_PORT"])
        (use w in \<open>auto simp: wp_def drop_socket_def socket_of_def bnd_apply SERVER_PORT_def INVALID_SOCKET_def\<close>)
    then show ?thesis
      using new by (auto simp: wp_def echo_main_def finally_run_def bnd_apply thn_apply split: prod.splits outcome.splits)
  next
    case False
    have new: "pollset_new w = (Ret ?ps, ?w)"
      using reply False
      by (simp add: pollset_new_def create_epollfd_def poll_world_def poll_modify_def zoom_def bnd_apply thn_apply)
    obtain u where u: "echo_body as_key e n (service_init ?ps ?w) =
        (if n = 0 \<and> fst (wait_signals (termination_signals e) ?w) = Fail Pending then Fail Pending else Fail (Undef Null_deref), u)"
        "rx_world u = (if n = 0 then snd (wait_signals (termination_signals e) ?w) else ?w)"
      using echo_body_null [of ?ps as_key e n ?w] by (auto simp: new_mutex_def)
    have "echo_main as_key e n w = (fst (echo_body as_key e n (service_init ?ps ?w)), rx_world u)"
      using new u(1) by (simp add: echo_main_def finally_run_def bnd_apply)
    then show ?thesis
      using u w False wait_signals_cases [of "termination_signals e" ?w]
      by (auto simp: wp_def startup_end_def)
  qed
qed

text \<open>What comes before: becoming a daemon and finding out the path.\<close>

lemma wp_app_sys:
  assumes "Q (Fail Pending) s" "\<And>r. reply_ok c r \<Longrightarrow> Q (Ret r) (s\<lparr>ap_world := answered c r (ap_world s)\<rparr>)"
  shows "wp (app_sys c) Q s"
  by (cases rule: sys_cases [of "ap_world s" c]) (use assms in \<open>auto simp: wp_def app_sys_def app_os_def zoom_def\<close>)

lemma wp_reopen_null:
  assumes "started v (ap_world s)" "(Freopen ''/dev/null'' ''r+'' k, msg) \<in> set daemon_failures"
    and "\<And>w. started v w \<Longrightarrow> Q (Ret ()) (s\<lparr>ap_world := w\<rparr>)"
    and "\<And>f w. started v w \<Longrightarrow> startup_end sigs n (Fail f) w \<Longrightarrow> Q (Fail f) (s\<lparr>ap_world := w\<rparr>)"
  shows "wp (reopen_null k msg) Q s"
  unfolding reopen_null_def wp_bnd
proof (rule wp_app_sys)
  have "Q (Fail Pending) (s\<lparr>ap_world := ap_world s\<rparr>)" using assms(1) by (intro assms(4)) simp_all
  then show "case Fail Pending of Ret x \<Rightarrow> wp (if rp_rc x < 0 then throw_runtime msg else ret ()) Q s | Fail e \<Rightarrow> Q (Fail e) s" by simp
next
  fix r assume "reply_ok (Freopen ''/dev/null'' ''r+'' k) r"
  let ?w = "answered (Freopen ''/dev/null'' ''r+'' k) r (ap_world s)"
  have "rp_rc r < 0 \<Longrightarrow> startup_end sigs n (Fail (Thrown (Runtime_error msg))) ?w"
    using assms(2) by (auto simp: startup_end_def)
  then show "case Ret r of Ret x \<Rightarrow> wp (if rp_rc x < 0 then throw_runtime msg else ret ()) Q (s\<lparr>ap_world := ?w\<rparr>)
      | Fail e \<Rightarrow> Q (Fail e) (s\<lparr>ap_world := ?w\<rparr>)"
    using assms(1,3,4) by (simp add: throw_runtime_def wp_rules)
qed

definition so_far :: "app \<Rightarrow> int list \<Rightarrow> nat \<Rightarrow> 'a outcome \<Rightarrow> app \<Rightarrow> bool" where
  "so_far s sigs n out t \<longleftrightarrow> started (ap_world s) (ap_world t) \<and> ap_env t = ap_env s \<and>
     (case out of Ret x \<Rightarrow> True | Fail f \<Rightarrow> startup_end sigs n (Fail f) (ap_world t))"

lemma be_daemon_ends: "wp be_daemon (so_far s sigs n) s"
  unfolding be_daemon_def wp_bnd wp_thn wp_if throw_runtime_def
  by (auto simp: wp_rules so_far_def startup_end_def daemon_failures_def intro!: wp_app_sys wp_reopen_null [where v = "ap_world s" and sigs = sigs and n = n])

lemma init_ends:
  assumes "so_far s sigs n (Ret ()) t"
  shows "wp (app_init_args (a # as)) (\<lambda>out u. so_far s sigs n (Ret ()) u \<and> (case out of
      Ret x \<Rightarrow> True
    | Fail (Thrown e) \<Rightarrow> last_call (ap_world u) Getcwd (\<lambda>rc. rc < 0)
    | Fail f \<Rightarrow> f = Pending)) t"
  using assms
  by (auto simp: app_init_args_def app_init_def set_args_def application_path_def wp_rules throw_runtime_def so_far_def
      intro!: wp_app_sys)

text \<open>C8. The program as it stands never serves anybody and never ends well. Whatever its arguments are, whatever the system answers
  and however many turns the thread of the reactor makes before the termination signal comes: the only system calls are those
  to become a daemon, to find out the path, to make the epoll instance and to wait for the signal, and the close of a
  descriptor that the program does not own; no socket is made, bound, listened on or polled, and nothing is received or sent.
  The run ends in one of these ways: the dereference of a null pointer, in the first turn or, when none was made, after the signal;
  \<open>exit\<close> in the parent of a daemon; the exception for a fork or a stream that failed; \<open>EXIT_CONFIG\<close> without a current
  directory, \<open>EXIT_OSERR\<close> when it cannot be changed; \<open>EXIT_SOFTWARE\<close> without an epoll instance, after the close of the
  descriptor whose number is the port; or it waits for an answer.\<close>

theorem echo_never_serves:
  assumes "echo_app as_key n (a # as) s = (out, t)"
  shows "(\<exists>tr. w_trace (ap_world t) = w_trace (ap_world s) @ tr \<and> list_all (startup_call \<circ> fst) tr) \<and>
    startup_end (termination_signals (ap_env s)) n out (ap_world t)"
proof -
  let ?sigs = "termination_signals (ap_env s)"
  let ?P = "\<lambda>out t. started (ap_world s) (ap_world t) \<and> startup_end ?sigs n out (ap_world t)"
  let ?d = "is_daemon (a # as)"
  have life: "wp (app_run echo_initialize (\<lambda>args. bnd (gets ap_env) (\<lambda>e. app_os (echo_main as_key e n)))) ?P u"
    if u: "so_far s ?sigs n (Ret ()) u" for u
  proof -
    have e: "ap_env u = ap_env s" "started (ap_world s) (ap_world u)" using u by (simp_all add: so_far_def)
    obtain o' w where run: "echo_main as_key (ap_env s) n (ap_world u) = (o', w)" by (rule prod.exhaust)
    have "started (ap_world s) w \<and> (case o' of Fail (Thrown x) \<Rightarrow> last_call w (Close SERVER_PORT) (\<lambda>_. True)
        | _ \<Rightarrow> startup_end ?sigs n o' w)"
      by (rule wpD [OF echo_main_ends run]) (rule e(2))
    moreover have "(case o' of Fail (Thrown x) \<Rightarrow> last_call w (Close SERVER_PORT) (\<lambda>_. True) | _ \<Rightarrow> startup_end ?sigs n o' w) \<Longrightarrow>
        startup_end ?sigs n (case o' of Fail (Thrown x) \<Rightarrow> Ret EXIT_SOFTWARE | _ \<Rightarrow> o') w"
      by (auto simp: startup_end_def split: outcome.splits failure.splits)
    ultimately show ?thesis
      using run e(1)
      by (auto simp: wp_def app_run_life life_result_def echo_initialize_def app_initialize_def bnd_apply app_os_def zoom_def
          split: outcome.splits failure.splits)
  qed
  have prepare: "wp (if ?d then be_daemon else ret ()) (so_far s ?sigs n) s"
    using be_daemon_ends by (simp add: wp_rules so_far_def)
  have path: "wp (app_init_args (a # as)) Q u"
    if "so_far s ?sigs n (Ret ()) u"
      "\<And>v. so_far s ?sigs n (Ret ()) v \<Longrightarrow> Q (Ret ()) v"
      "\<And>v e. so_far s ?sigs n (Ret ()) v \<Longrightarrow> last_call (ap_world v) Getcwd (\<lambda>rc. rc < 0) \<Longrightarrow> Q (Fail (Thrown e)) v"
      "\<And>v. so_far s ?sigs n (Ret ()) v \<Longrightarrow> Q (Fail Pending) v" for u Q
    by (rule wp_mono [OF init_ends [OF that(1)]]) (use that(2-4) in \<open>auto split: outcome.splits failure.splits\<close>)
  have "wp (echo_app as_key n (a # as)) ?P s"
    unfolding echo_app_def app_run_args_def app_prepare_def wp_bnd wp_thn wp_catch_all
  proof (rule wp_mono [OF prepare], goal_cases)
    case (1 o' u)
    show ?case
    proof (cases o')
      case (Ret x)
      then have u: "so_far s ?sigs n (Ret ()) u" using 1 by (simp add: so_far_def)
      show ?thesis
        unfolding Ret outcome.case
      proof (rule path [OF u], goal_cases)
        case (1 v)
        then have at: "so_far s ?sigs n (Ret ()) (v\<lparr>ap_world := answered (Chdir ''/'') r (ap_world v)\<rparr>)" for r
          by (simp add: so_far_def)
        have "status_ok r \<Longrightarrow> rp_rc r \<noteq> 0 \<Longrightarrow> rp_rc r < 0" for r by (auto simp: status_ok_def)
        then show ?case
          using 1 life [OF 1] life [OF at]
          by (cases ?d) (auto simp: wp_rules startup_end_def so_far_def intro!: wp_app_sys)
      next
        case (2 v e)
        then show ?case by (simp add: wp_rules so_far_def startup_end_def)
      next
        case (3 v)
        then show ?case by (simp add: so_far_def)
      qed
    next
      case (Fail f)
      then show ?thesis using 1 by (simp add: so_far_def)
    qed
  qed
  from wpD [OF this assms] show ?thesis unfolding started_def .
qed

subsection \<open>Witnesses\<close>

definition sample_service :: "char fifo \<Rightarrow> char fifo \<Rightarrow> reply list \<Rightarrow> service" where
  "sample_service i q rs = (service_init sample_poll (boot rs))
     \<lparr>so_acceptors := [6 \<mapsto> \<lparr>ac_socket = socket_of 4, ac_reactor = True\<rparr>],
      so_handlers := [7 \<mapsto> \<lparr>eh_socket = socket_of 5, eh_in = i, eh_out = q\<rparr>]\<rparr>"

lemma sample_service_ok:
  "reactor_ok (sample_service i q rs)" "no_notes (sample_service i q rs)" "rx_world (sample_service i q rs) = boot rs"
  "so_acceptors (sample_service i q rs) = [6 \<mapsto> \<lparr>ac_socket = socket_of 4, ac_reactor = True\<rparr>]"
  "so_handlers (sample_service i q rs) = [7 \<mapsto> \<lparr>eh_socket = socket_of 5, eh_in = i, eh_out = q\<rparr>]"
  by (simp_all add: sample_service_def service_init_def reactor_init_def reactor_ok_def no_notes_def new_mutex_def)

text \<open>A handler made for the descriptor 5.\<close>

theorem echo_first_event_blocks_witness:
  "\<exists>p s t u. handler_new sk_fd (socket_of 5) (sample_service fresh_queue fresh_queue []) = (Ret p, s) \<and>
    on_socket_readable sk_fd p s = (Fail Deadlock, t) \<and> rx_world t = rx_world s \<and>
    on_socket_writable sk_fd p s = (Fail Deadlock, u) \<and> rx_world u = rx_world s"
proof -
  have "idle_reactor (sample_service fresh_queue fresh_queue [])" by (simp add: sample_service_ok idle_reactor_def)
  then obtain p s where s: "handler_new sk_fd (socket_of 5) (sample_service fresh_queue fresh_queue []) = (Ret p, s)"
    using handler_new_idle by blast
  from s echo_first_event_blocks [OF s refl] show ?thesis by blast
qed

theorem on_accept_closes_witness:
  "\<exists>t q h c. on_accept sk_fd 6 (sample_service fresh_queue fresh_queue
      [\<lparr>rp_rc = 9, rp_err = 0, rp_data = No_data\<rparr>, \<lparr>rp_rc = 0, rp_err = 0, rp_data = No_data\<rparr>]) = (Ret (), t) \<and>
    so_handlers t q = Some h \<and> sk_fd (eh_socket h) = 9 \<and> last (w_trace (rx_world t)) = (Close 9, c)"
proof -
  let ?r = "\<lparr>rp_rc = 9, rp_err = 0, rp_data = No_data\<rparr>" and ?c = "\<lparr>rp_rc = 0, rp_err = 0, rp_data = No_data\<rparr>"
  let ?s = "sample_service fresh_queue fresh_queue [?r, ?c]" and ?a = "\<lparr>ac_socket = socket_of 4, ac_reactor = True\<rparr>"
  have s: "so_acceptors ?s 6 = Some ?a" "ac_reactor ?a" "sk_fd (ac_socket ?a) \<noteq> INVALID_SOCKET" "w_script (rx_world ?s) = [?r, ?c]"
      "reply_ok (Accept (sk_fd (ac_socket ?a))) ?r" "0 \<le> rp_rc ?r" "status_ok ?c" "idle_reactor ?s"
    by (simp_all add: sample_service_ok socket_of_def INVALID_SOCKET_def boot_def status_ok_def idle_reactor_def)
  obtain t where t: "on_accept sk_fd 6 ?s = (Ret (), t)" using on_accept_idle [OF s] by blast
  from on_accept_closes [OF s(1-6) t] t show ?thesis by fastforce
qed

text \<open>The program is started in the ordinary way; as a daemon whose standard input cannot be reopened; and without
  an epoll instance.\<close>

theorem echo_never_serves_witness:
  "(\<exists>t. echo_app sk_fd 3 [''/srv/echo''] (sample_app (map rc_reply [5])) = (Fail (Undef Null_deref), t) \<and>
     last_call (ap_world t) (Epoll_create 1) (\<lambda>rc. rc \<ge> 0)) \<and>
   (\<exists>t. echo_app sk_fd 3 [''/srv/echo'', ''--daemon''] (sample_app (map rc_reply [0, 7, 18, -1])) =
       (Fail (Thrown (Runtime_error stdin_msg)), t) \<and>
     (\<exists>(c, msg) \<in> set daemon_failures. stdin_msg = msg \<and> last_call (ap_world t) c (\<lambda>rc. rc < 0))) \<and>
   (\<exists>t. echo_app sk_fd 0 [''echo''] (sample_app [\<lparr>rp_rc = 0, rp_err = 0, rp_data = Bytes ''/home''\<rparr>, rc_reply (-1), rc_reply (-1)]) =
       (Ret EXIT_SOFTWARE, t) \<and> last_call (ap_world t) (Close SERVER_PORT) (\<lambda>_. True))"
proof -
  let ?A = "echo_app sk_fd 3 [''/srv/echo''] (sample_app (map rc_reply [5]))"
  let ?B = "echo_app sk_fd 3 [''/srv/echo'', ''--daemon''] (sample_app (map rc_reply [0, 7, 18, -1]))"
  let ?C = "echo_app sk_fd 0 [''echo''] (sample_app [\<lparr>rp_rc = 0, rp_err = 0, rp_data = Bytes ''/home''\<rparr>, rc_reply (-1), rc_reply (-1)])"
  note run = echo_app_def app_run_args_def app_prepare_def is_daemon_def daemon_option_def app_init_args_def set_args_def
    app_init_def application_path_def app_run_life life_result_def bnd_apply thn_apply catch_all_apply app_sys_reply
    sample_app_def app_new_def echo_initialize_def app_initialize_def app_os_def zoom_def sys_reply be_daemon_def
  let ?w = "answered (Epoll_create 1) (rc_reply 5) (boot [rc_reply 5])"
  let ?ps = "\<lparr>ps_mutex = new_mutex Std_mutex, ps_epollfd = 5, ps_map = []\<rparr>"
  have new: "pollset_new (boot [rc_reply 5]) = (Ret ?ps, ?w)"
    by (simp add: pollset_new_def create_epollfd_def poll_world_def poll_modify_def zoom_def bnd_apply thn_apply sys_reply)
  obtain u where "echo_body sk_fd Map.empty 3 (service_init ?ps ?w) = (Fail (Undef Null_deref), u)"
    using echo_body_null [of ?ps sk_fd Map.empty 3 ?w] by (auto simp: new_mutex_def)
  then have "echo_main sk_fd Map.empty 3 (boot [rc_reply 5]) = (Fail (Undef Null_deref), rx_world u)"
    using new by (simp add: echo_main_def finally_run_def bnd_apply)
  then obtain t where A: "?A = (Fail (Undef Null_deref), t)"
    by (simp add: run)
  have "fst ?B = Fail (Thrown (Runtime_error stdin_msg))"
    by (simp add: run reopen_null_apply status_ok_def)
  then obtain t' where B: "?B = (Fail (Thrown (Runtime_error stdin_msg)), t')" by (metis prod.collapse)
  have "fst ?C = Ret EXIT_SOFTWARE"
    by (simp add: run echo_main_def pollset_new_def create_epollfd_def poll_world_def poll_modify_def finally_run_def
        throw_runtime_def drop_socket_def socket_of_def SERVER_PORT_def INVALID_SOCKET_def status_ok_def)
  then obtain t'' where C: "?C = (Ret EXIT_SOFTWARE, t'')" by (metis prod.collapse)
  show ?thesis
    using A B C echo_never_serves [OF A] echo_never_serves [OF B] echo_never_serves [OF C]
    by (auto simp: startup_end_def EXIT_OK_def EXIT_SOFTWARE_def EXIT_CONFIG_def EXIT_OSERR_def)
qed

end
