(* ===== verification/Note_Typing.thy ===== *)
theory Note_Typing
  imports Echo_Server
begin

section \<open>The types of notifications\<close>

text \<open>
  An observer is a template over a class of notifications, and the method it calls takes a pointer to
  that class. The list of a center forgets the class; \<^verbatim>\<open>notify\<close> gets it back with a
  \<^verbatim>\<open>dynamic_cast\<close>. This theory shows that this is type safe for the acceptor and the echo handler:
  their methods may as well test the class of every notification they are called with. The methods of the
  connector declare no parameter; an observer that calls one does not compile, so \<open>registerConnector\<close> cannot be used, and
  no such observer is well typed here. The
  argument carries a typing of the observers on the heap through all that the methods do.
\<close>

subsection \<open>Observers of the right class\<close>

text \<open>The parameter types that the methods declare, by the numbers that \<open>service_callback\<close> gives them: \<open>onAccept\<close>,
  \<open>onSocketReadable\<close>, \<open>onSocketWritable\<close> and \<open>onSocketShutdown\<close>; \<open>onReadable\<close>, \<open>onWritable\<close> and
  \<open>onError\<close> of the connector have none.\<close>

definition method_param :: "nat \<Rightarrow> note_kind option" where
  "method_param m =
     (if m = 0 \<or> m = 1 then Some Readable_Note else if m = 2 then Some Writable_Note
      else if m = 3 then Some Shutdown_Note else None)"

definition typed_observer :: "observer \<Rightarrow> bool" where
  "typed_observer ob \<longleftrightarrow> method_param (ob_method ob) = Some (ob_note ob)"

definition well_typed :: "'z env_scheme \<Rightarrow> bool" where
  "well_typed s \<longleftrightarrow> (\<forall>a ob. ev_observers s a = Some ob \<longrightarrow> typed_observer ob)"

text \<open>A method that tests its parameter; one without a parameter must not be called with a notification.\<close>

definition checked_callback :: "(socket \<Rightarrow> int) \<Rightarrow> nat \<Rightarrow> nat \<Rightarrow> nat \<Rightarrow> unit so_prog" where
  "checked_callback as_key obj m n = bnd (get_note n) (\<lambda>nt.
     case method_param m of
       None \<Rightarrow> fail Abort
     | Some k \<Rightarrow> if is_a (nt_kind nt) k then service_callback as_key obj m n else fail Abort)"

lemma typed_observers [simp]:
  "typed_observer (accept_observer p)" "typed_observer (readable_observer p)" "typed_observer (writable_observer p)"
  "typed_observer (shutdown_observer p)" "ob \<in> set (connector_observers p) \<Longrightarrow> \<not> typed_observer ob"
  by (auto simp: typed_observer_def accept_observer_def readable_observer_def writable_observer_def shutdown_observer_def
      connector_observers_def observer_of_def method_param_def)

lemma typed_observer_updates [simp]:
  "typed_observer (ob\<lparr>ob_mutex := m\<rparr>) = typed_observer ob" "typed_observer (ob\<lparr>ob_object := x\<rparr>) = typed_observer ob"
  "typed_observer (observer_copy ob) = typed_observer ob"
  by (simp_all add: typed_observer_def observer_copy_def)

lemma well_typed_frame: "ev_observers t = ev_observers s \<Longrightarrow> well_typed t = well_typed s"
  by (simp add: well_typed_def)

lemma well_typed_updates [simp]:
  "well_typed (s\<lparr>ev_next := a\<rparr>) = well_typed s" "well_typed (s\<lparr>ev_notes := b\<rparr>) = well_typed s"
  "well_typed (s\<lparr>ev_centers := c\<rparr>) = well_typed s" "well_typed (set_center d k s) = well_typed s"
  by (simp_all add: well_typed_def)

lemma well_typed_rx_updates [simp]:
  fixes s :: "'z reactor_scheme"
  shows "well_typed (s\<lparr>rx_notifiers := a\<rparr>) = well_typed s" "well_typed (s\<lparr>rx_handlers := b\<rparr>) = well_typed s"
    "well_typed (s\<lparr>rx_mutex := c\<rparr>) = well_typed s" "well_typed (s\<lparr>rx_poll := d\<rparr>) = well_typed s"
    "well_typed (s\<lparr>rx_world := e\<rparr>) = well_typed s" "well_typed (s\<lparr>rx_stop := f\<rparr>) = well_typed s"
    "well_typed (put_notifier p n s) = well_typed s"
  by (simp_all add: well_typed_def put_notifier_def)

lemma well_typed_so_updates [simp]:
  "well_typed (put_acceptor p a s) = well_typed s" "well_typed (put_connector p c s) = well_typed s"
  "well_typed (put_handler p h s) = well_typed s"
  by (simp_all add: well_typed_def put_acceptor_def put_connector_def put_handler_def)

lemma well_typed_set_observer: "well_typed s \<Longrightarrow> typed_observer ob \<Longrightarrow> well_typed (set_observer a ob s)"
  by (simp add: well_typed_def set_observer_def)

subsection \<open>What the center, the notifiers and the reactor keep\<close>

named_theorems typed_rules \<open>programs that keep the observers well typed\<close>

lemmas typed_structure = keeps_rules keeps_zoom keeps_with_lock keeps_finally

lemma keeps_catch_rethrow: "keeps P m \<Longrightarrow> keeps P h \<Longrightarrow> keeps P (catch_rethrow m h)"
proof (rule keepsI)
  fix s assume a: "keeps P m" "keeps P h" "P s"
  obtain out t where m: "m s = (out, t)" by (rule prod.exhaust)
  have t: "P t" using keepsD [OF a(1,3)] m by simp
  have "P (snd (thn h (fail (Thrown e)) t))" for e using keepsD [OF keeps_thn [OF a(2) keeps_fail] t] .
  then show "P (snd (catch_rethrow m h s))"
    using m t by (auto simp: catch_rethrow_def split: outcome.split failure.split)
qed

lemma keeps_noexcept: "keeps P m \<Longrightarrow> keeps P (noexcept m)"
proof (rule keepsI)
  fix s assume a: "keeps P m" "P s"
  obtain out t where m: "m s = (out, t)" by (rule prod.exhaust)
  have "P t" using keepsD [OF a] m by simp
  then show "P (snd (noexcept m s))" using m by (auto simp: noexcept_def split: outcome.split failure.split)
qed

lemma keeps_run_each: "(\<And>x. x \<in> set xs \<Longrightarrow> keeps P (f x)) \<Longrightarrow> keeps P (run_each f xs)"
  by (induction xs) (auto intro!: keeps_rules)

lemma keeps_get_observer:
  assumes "\<And>ob. typed_observer ob \<Longrightarrow> keeps well_typed (f ob)"
  shows "keeps well_typed (bnd (get_observer a) f)"
proof (rule keepsI)
  fix s :: "'a env_scheme" assume s: "well_typed s"
  show "well_typed (snd (bnd (get_observer a) f s))"
  proof (cases "ev_observers s a")
    case None
    then show ?thesis using s by (simp add: get_observer_def bnd_apply)
  next
    case (Some ob)
    then have "typed_observer ob" using s by (simp add: well_typed_def)
    then show ?thesis using Some keepsD [OF assms s] by (simp add: bnd_apply)
  qed
qed

lemma observer_locked_typed [typed_rules]: "keeps well_typed m \<Longrightarrow> keeps well_typed (observer_locked a m)"
  unfolding observer_locked_def
  by (rule keeps_with_lock) (auto simp: well_typed_def set_observer_def split: option.split)

lemma center_locked_typed [typed_rules]: "keeps well_typed m \<Longrightarrow> keeps well_typed (center_locked c m)"
  unfolding center_locked_def by (rule keeps_with_lock) (auto split: option.split)

lemma get_typed [typed_rules]:
  "keeps well_typed (get_note n)" "keeps well_typed (get_center c)" "keeps well_typed (get_observer a)"
  by (auto simp: get_note_def get_center_def get_observer_def intro!: keeps_rules)

lemma set_observers_typed [typed_rules]: "keeps well_typed (set_observers c as)"
  by (auto simp: set_observers_def intro!: keeps_rules typed_rules)

lemma observer_disable_typed [typed_rules]: "keeps well_typed (observer_disable a)"
  unfolding observer_disable_def
  by (intro observer_locked_typed keeps_get_observer keeps_modify) (simp add: well_typed_set_observer)

lemma nc_add_typed [typed_rules]: "typed_observer ob \<Longrightarrow> keeps well_typed (nc_add c ob)"
  unfolding nc_add_def observer_clone_def
  by (auto intro!: typed_rules keeps_rules simp: well_typed_set_observer)

lemma nc_remove_typed [typed_rules]: "keeps well_typed (nc_remove c ob)"
proof -
  have "keeps well_typed (remove_loop c ob seen as)" for seen as
    by (induction as arbitrary: seen) (auto simp: keeps_def [of _ "Pair _"] intro!: keeps_rules typed_rules)
  then show ?thesis unfolding nc_remove_def by (intro typed_rules keeps_rules)
qed

lemma nc_query_typed [typed_rules]:
  "keeps well_typed (nc_has c ob)" "keeps well_typed (nc_count c)"
proof -
  have "keeps well_typed (has_loop ob as)" for as
    by (induction as) (auto simp: keeps_def [of _ "Pair _"] intro!: keeps_rules typed_rules)
  then show "keeps well_typed (nc_has c ob)" unfolding nc_has_def by (intro typed_rules keeps_rules)
  show "keeps well_typed (nc_count c)" unfolding nc_count_def by (intro typed_rules keeps_rules)
qed

lemma accepts_typed [typed_rules]: "keeps well_typed (observer_accepts ob p)"
  by (cases p) (auto simp: observer_accepts_def intro!: keeps_rules typed_rules)

lemma rx_typed [typed_rules]:
  "keeps well_typed (rx_os m)" "keeps well_typed (on_poll q)"
  "keeps well_typed (get_notifier_at p)" "keeps well_typed n \<Longrightarrow> keeps well_typed (notifier_locked p n)"
  "keeps well_typed n \<Longrightarrow> keeps well_typed (reactor_locked n)" "keeps well_typed (change_events p f)"
  by (auto simp: rx_os_def on_poll_def get_notifier_at_def notifier_locked_def reactor_locked_def change_events_def
      intro!: typed_structure split: option.split prod.split)

lemma first_accepted_typed [typed_rules]: "keeps well_typed (first_accepted ob ps)"
  by (induction ps) (auto simp: keeps_def [of _ "Pair _"] intro!: keeps_rules typed_rules)

lemma notifier_typed [typed_rules]:
  "typed_observer ob \<Longrightarrow> keeps well_typed (notifier_add p ob)" "keeps well_typed (notifier_remove p ob')"
  "keeps well_typed (notifier_accepts p e)"
  by (auto simp: notifier_add_def notifier_remove_def notifier_accepts_def intro!: keeps_rules typed_rules)

lemma note_typed [typed_rules]: "keeps well_typed (set_note_socket q sock)" "keeps well_typed (delete_note q)"
  by (auto simp: set_note_socket_def delete_note_def intro!: keeps_rules typed_rules)

lemma share_typed [typed_rules]:
  "keeps well_typed (share_notifier p)" "keeps well_typed (release_notifier p)" "keeps well_typed (notifier_mode p)"
  "keeps well_typed (get_notifier sock mk)"
  by (auto simp: share_notifier_def release_notifier_def notifier_mode_def get_notifier_def notifier_new_def
      intro!: keeps_rules typed_rules split: option.split)

lemma with_notifier_typed [typed_rules]:
  "(\<And>x. keeps well_typed (body x)) \<Longrightarrow> keeps well_typed (with_notifier sock mk body)"
  by (auto simp: with_notifier_def intro!: keeps_rules typed_rules keeps_finally split: option.split)

lemma handler_ops_typed [typed_rules]:
  "typed_observer ob \<Longrightarrow> keeps well_typed (add_event_handler as_key addr sock ob)"
  "keeps well_typed (has_event_handler sock ob')" "keeps well_typed (erase_handler sock)"
  "keeps well_typed (remove_event_handler as_key addr sock ob')"
  by (auto simp: add_event_handler_def has_event_handler_def erase_handler_def remove_event_handler_def
      intro!: keeps_rules typed_rules split: option.split prod.split)

subsection \<open>What the methods keep\<close>

lemma get_object_typed [typed_rules]:
  "keeps well_typed (get_acceptor p)" "keeps well_typed (get_connector p)" "keeps well_typed (get_handler p)"
  "keeps well_typed new_address"
  by (auto simp: get_acceptor_def get_connector_def get_handler_def new_address_def intro!: keeps_rules)

lemma object_socket_typed [typed_rules]:
  "keeps well_typed (acceptor_socket p m)" "keeps well_typed (connector_socket p m)"
  by (auto simp: acceptor_socket_def connector_socket_def intro!: keeps_rules keeps_zoom typed_rules split: prod.split)

lemma fifo_new_typed [typed_rules]: "keeps well_typed (fifo_new n b)"
  by (auto simp: fifo_new_def buffer_new_def new_array_def intro!: keeps_rules)

lemma handler_typed [typed_rules]:
  "keeps well_typed (handler_free p)" "keeps well_typed (handler_new as_key sock)" "keeps well_typed (handler_delete as_key p)"
  "keeps well_typed (on_fifo_out_readable as_key p b)" "keeps well_typed (on_fifo_in_writable as_key p b)"
  by (auto simp: handler_free_def handler_new_def handler_delete_def on_fifo_out_readable_def on_fifo_in_writable_def
      intro!: keeps_rules typed_rules keeps_catch_rethrow keeps_noexcept)

lemma slot_typed [typed_rules]: "keeps well_typed (in_slot as_key p sg)" "keeps well_typed (out_slot as_key p sg)"
  by (cases sg; auto intro!: keeps_rules typed_rules)+

lemma emitting_typed [typed_rules]:
  assumes "\<And>sg. keeps well_typed (slot sg)"
  shows "keeps well_typed (emitting p q set_q slot m)"
proof -
  have each: "keeps well_typed (run_each slot sgs)" for sgs using assms by (intro keeps_run_each)
  have "well_typed (snd (emitting p q set_q slot m s))" if "well_typed s" for s
  proof (cases "so_handlers s p")
    case None
    then show ?thesis using that by (simp add: emitting_def get_handler_def bnd_apply)
  next
    case (Some h)
    obtain out f k w where m: "m (q h, eh_socket h, rx_world s) = (out, f, k, w)" by (metis prod.collapse)
    let ?u = "put_handler p (Some (set_q f (h\<lparr>eh_socket := k\<rparr>))) (s\<lparr>rx_world := w\<rparr>)"
    have "well_typed ?u" using that by simp
    then have "well_typed (snd (run_each slot sgs ?u))" for sgs by (rule keepsD [OF each])
    then show ?thesis
      using m by (simp add: emitting_def get_handler_apply [OF Some] bnd_apply split: prod.split outcome.split) (metis snd_conv)
  qed
  then show ?thesis by (rule keepsI)
qed

lemma methods_typed [typed_rules]:
  "keeps well_typed (on_accept as_key p)" "keeps well_typed (on_socket_readable as_key p)"
  "keeps well_typed (on_socket_writable as_key p)" "keeps well_typed (on_socket_shutdown as_key p)"
  by (auto simp: on_accept_def acceptor_create_def wake_up_def on_socket_readable_def on_socket_writable_def on_socket_shutdown_def handler_relay_def
      with_in_def with_out_def intro!: keeps_rules typed_rules keeps_finally split: option.split)

lemma connector_typed [typed_rules]:
  "keeps well_typed (connector_unregister as_key p)" "keeps well_typed (on_connect as_key p)"
  "keeps well_typed (connector_readable as_key p)" "keeps well_typed (connector_writable as_key p)"
  "keeps well_typed (connector_error as_key p)"
  by (auto simp: connector_unregister_def on_connect_def connector_create_def connector_failed_def connector_readable_def connector_writable_def connector_error_def
      intro!: keeps_rules typed_rules keeps_run_each)

lemma service_callback_typed [typed_rules]: "keeps well_typed (service_callback as_key obj m n)"
  unfolding service_callback_def by (intro keeps_if typed_rules)

lemma acceptor_on_typed [typed_rules]: "keeps well_typed (acceptor_on as_key sock)"
  by (auto simp: acceptor_on_def acceptor_free_def intro!: keeps_rules typed_rules keeps_catch_rethrow)

subsection \<open>A test that never fails\<close>

text \<open>Two programs that agree on all well-typed states, and leave well-typed states.\<close>

definition agree :: "('z env_scheme, 'a) prog \<Rightarrow> ('z env_scheme, 'a) prog \<Rightarrow> bool" where
  "agree m m' \<longleftrightarrow> keeps well_typed m' \<and> (\<forall>s. well_typed s \<longrightarrow> m s = m' s)"

lemma agree_keeps: "keeps well_typed m \<Longrightarrow> agree m m"
  by (simp add: agree_def)

lemma agreeD: "agree m m' \<Longrightarrow> well_typed s \<Longrightarrow> m s = m' s" "agree m m' \<Longrightarrow> keeps well_typed m'"
  by (simp_all add: agree_def)

lemma agreeI: "keeps well_typed m' \<Longrightarrow> (\<And>s. well_typed s \<Longrightarrow> m s = m' s) \<Longrightarrow> agree m m'"
  by (simp add: agree_def)

lemma agree_run: "agree m m' \<Longrightarrow> well_typed s \<Longrightarrow> m' s = (out, t) \<Longrightarrow> m s = (out, t) \<and> well_typed t"
  using keepsD [of well_typed m' s] by (simp add: agree_def)

lemma agree_bnd:
  assumes "agree m m'" "\<And>x. agree (f x) (f' x)"
  shows "agree (bnd m f) (bnd m' f')"
proof (rule agreeI)
  fix s :: "'a env_scheme" assume s: "well_typed s"
  obtain out t where m: "m' s = (out, t)" by (rule prod.exhaust)
  show "bnd m f s = bnd m' f' s"
    using m agree_run [OF assms(1) s m] agreeD(1) [OF assms(2)] by (simp add: bnd_apply split: outcome.split)
qed (intro keeps_bnd agreeD(2) [OF assms(1)] agreeD(2) [OF assms(2)])

lemma agree_thn: "agree m m' \<Longrightarrow> agree n n' \<Longrightarrow> agree (thn m n) (thn m' n')"
  unfolding thn_def by (rule agree_bnd)

lemma agree_if: "agree m m' \<Longrightarrow> agree n n' \<Longrightarrow> agree (if b then m else n) (if b then m' else n')"
  by simp

lemma agree_on_exit:
  assumes "agree m m'" "\<And>s. well_typed s \<Longrightarrow> well_typed (f s)"
  shows "agree (on_exit m f) (on_exit m' f)"
  by (rule agreeI [OF keeps_on_exit [OF agreeD(2) [OF assms(1)] assms(2)]]) (simp_all add: on_exit_apply agreeD(1) [OF assms(1)])

lemma agree_observer_locked: "agree m m' \<Longrightarrow> agree (observer_locked a m) (observer_locked a m')"
  unfolding observer_locked_def with_lock_def
  by (intro agree_thn agree_on_exit agree_keeps keeps_zoom)
    (auto simp: well_typed_def set_observer_def split: option.split)

lemma agree_catch_all:
  assumes "agree m m'" "agree h h'"
  shows "agree (catch_all m h) (catch_all m' h')"
proof (rule agreeI)
  fix s :: "'a env_scheme" assume s: "well_typed s"
  obtain out t where m: "m' s = (out, t)" by (rule prod.exhaust)
  show "catch_all m h s = catch_all m' h' s"
    using m agree_run [OF assms(1) s m] agreeD(1) [OF assms(2)]
    by (simp add: catch_all_apply split: outcome.split failure.split)
qed (intro keeps_catch agreeD(2) [OF assms(1)] agreeD(2) [OF assms(2)])

lemma agree_catch_rethrow: "agree m m' \<Longrightarrow> keeps well_typed h \<Longrightarrow> agree (catch_rethrow m h) (catch_rethrow m' h)"
  by (rule agreeI, intro keeps_catch_rethrow agreeD(2) [of m m']) (simp_all add: catch_rethrow_def agreeD(1) [of m m'])

lemma agree_finally: "agree m m' \<Longrightarrow> keeps well_typed f \<Longrightarrow> agree (finally_run m f) (finally_run m' f)"
  by (rule agreeI, intro keeps_finally agreeD(2) [of m m']) (simp_all add: finally_run_def agreeD(1) [of m m'])

lemma agree_run_each: "(\<And>x. agree (f x) (f' x)) \<Longrightarrow> agree (run_each f xs) (run_each f' xs)"
  by (induction xs) (auto intro!: agree_thn agree_keeps keeps_ret)

lemma agree_with_notifier:
  "(\<And>x. agree (body x) (body' x)) \<Longrightarrow> agree (with_notifier sock mk body) (with_notifier sock mk body')"
  unfolding with_notifier_def
  by (auto intro!: agree_bnd agree_finally agree_keeps typed_rules split: option.split)

lemma agree_cond: "agree m m' \<Longrightarrow> agree n n' \<Longrightarrow> agree (cond b m n) (cond b m' n')"
  by (rule agreeI) (auto intro: keeps_cond agreeD(2) simp: agreeD(1))

text \<open>The heart: the cast of \<open>notify\<close> makes the test of the method superfluous.\<close>

lemma notify_agrees:
  "agree (observer_notify (checked_callback as_key) a p) (observer_notify (service_callback as_key) a p)"
proof -
  let ?body = "\<lambda>cb ob. case ob_object ob of None \<Rightarrow> ret ()
      | Some obj \<Rightarrow> (case p of None \<Rightarrow> ret ()
          | Some n \<Rightarrow> bnd (observer_accepts ob (Some n)) (\<lambda>castable. if castable then cb obj (ob_method ob) n else ret ()))"
  have body: "?body (checked_callback as_key) ob s = ?body (service_callback as_key) ob s" if t: "typed_observer ob" for ob s
  proof (cases "ob_object ob")
    case (Some obj)
    show ?thesis
    proof (cases p)
      case (Some n)
      then show ?thesis
        using \<open>ob_object ob = Some obj\<close> t
        by (cases "ev_notes s n")
          (simp_all add: observer_accepts_def checked_callback_def get_note_def bnd_apply typed_observer_def)
    qed (simp add: \<open>ob_object ob = Some obj\<close>)
  qed simp
  have kept: "keeps well_typed (bnd (get_observer a) (?body (service_callback as_key)))"
    by (auto intro!: keeps_rules typed_rules split: option.split)
  have "agree (bnd (get_observer a) (?body (checked_callback as_key))) (bnd (get_observer a) (?body (service_callback as_key)))"
  proof (rule agreeI [OF kept])
    fix s :: service assume "well_typed s"
    then show "bnd (get_observer a) (?body (checked_callback as_key)) s = bnd (get_observer a) (?body (service_callback as_key)) s"
      using body by (cases "ev_observers s a") (simp_all add: get_observer_def bnd_apply well_typed_def)
  qed
  then show ?thesis unfolding observer_notify_def by (rule agree_observer_locked)
qed

lemma post_agrees: "agree (nc_post (checked_callback as_key) c p) (nc_post (service_callback as_key) c p)"
proof -
  have "agree (notify_all (checked_callback as_key) p as) (notify_all (service_callback as_key) p as)" for as
    by (induction as) (auto simp: keeps_def [of _ "Pair _"] intro!: agree_thn notify_agrees agree_keeps)
  then show ?thesis unfolding nc_post_def by (intro agree_bnd agree_keeps) (auto intro!: keeps_rules typed_rules)
qed

lemma dispatch_agrees:
  "agree (dispatch_to (checked_callback as_key) q note) (dispatch_to (service_callback as_key) q note)"
  unfolding dispatch_to_def notifier_dispatch_def
  by (intro agree_catch_all agree_bnd agree_thn agree_catch_rethrow agree_finally post_agrees agree_keeps typed_rules keeps_ret)

lemma dispatch_socket_agrees:
  "agree (dispatch_socket (checked_callback as_key) sock note) (dispatch_socket (service_callback as_key) sock note)"
  unfolding dispatch_socket_def
  by (rule agree_with_notifier) (auto intro!: dispatch_agrees agree_keeps keeps_ret split: option.split)

lemma dispatch_all_agrees:
  "agree (dispatch_all (checked_callback as_key) note) (dispatch_all (service_callback as_key) note)"
  unfolding dispatch_all_def
  by (intro agree_bnd agree_finally agree_run_each dispatch_agrees agree_keeps typed_rules keeps_rules keeps_run_each)

lemma dispatch_modes_agrees:
  "agree (dispatch_modes (checked_callback as_key) xs r) (dispatch_modes (service_callback as_key) xs r)"
  by (induction xs arbitrary: r) (auto intro!: agree_thn agree_bnd agree_keeps dispatch_socket_agrees keeps_rules)

lemma poll_question_typed [typed_rules]: "keeps well_typed has_socket_handlers"
proof -
  have "keeps well_typed (some_handler_accepts ps)" for ps
  proof (induction ps)
    case Nil
    then show ?case by (simp only: some_handler_accepts.simps keeps_ret)
  next
    case (Cons p ps)
    show ?case unfolding some_handler_accepts.simps by (intro keeps_bnd keeps_if keeps_gets keeps_ret typed_rules Cons)
  qed
  then show ?thesis by (auto simp: has_socket_handlers_def intro!: keeps_rules typed_rules)
qed

lemma turn_agrees: "agree (reactor_turn (checked_callback as_key)) (reactor_turn (service_callback as_key))"
  unfolding reactor_turn_def on_idle_def on_timeout_def on_busy_def
  by (intro agree_catch_all agree_bnd agree_if agree_finally agree_thn dispatch_all_agrees dispatch_modes_agrees agree_keeps
      typed_rules keeps_rules)

lemma run_agrees: "agree (reactor_run (checked_callback as_key) n) (reactor_run (service_callback as_key) n)"
proof (induction n)
  case 0
  then show ?case unfolding reactor_run.simps by (intro agree_keeps keeps_fail)
next
  case (Suc n)
  then show ?case
    unfolding reactor_run.simps on_shutdown_def
    by (intro agree_cond agree_thn agree_bnd turn_agrees dispatch_all_agrees agree_keeps keeps_gets)
qed

subsection \<open>Properties\<close>

lemma started_typed: "well_typed (service_init ps w)"
  by (simp add: well_typed_def service_init_def reactor_init_def)

lemma serving_agrees:
  "agree (bnd (acceptor_on as_key sock) (\<lambda>_. reactor_run (checked_callback as_key) n))
     (bnd (acceptor_on as_key sock) (\<lambda>_. reactor_run (service_callback as_key) n))"
  by (intro agree_bnd run_agrees agree_keeps typed_rules)

text \<open>C22. Type safety of the notifications: when every observer on the heap was made for a method that declares its class as parameter,
  as every observer of the acceptor and the echo handler is, then
  posting a notification, a turn of the reactor and its loop behave as if each method
  tested that its argument is alive and of the class that it declares: the test never
  fails, and no method without a parameter is called. The heap stays well typed in all of this, whatever observers the methods
  register; it is well typed when the service is constructed, so the acceptor and the loop of the
  reactor that serves it are type safe from the start, without a premise.\<close>

theorem echo_type_safe:
  assumes "well_typed s"
  shows "nc_post (checked_callback as_key) c p s = nc_post (service_callback as_key) c p s \<and>
    reactor_turn (checked_callback as_key) s = reactor_turn (service_callback as_key) s \<and>
    reactor_run (checked_callback as_key) n s = reactor_run (service_callback as_key) n s \<and>
    well_typed (snd (nc_post (service_callback as_key) c p s)) \<and>
    well_typed (snd (service_callback as_key obj m q s)) \<and> well_typed (snd (acceptor_on as_key sock s)) \<and>
    well_typed (snd (reactor_turn (service_callback as_key) s)) \<and> well_typed (snd (reactor_run (service_callback as_key) n s)) \<and>
    well_typed (service_init ps w) \<and>
    bnd (acceptor_on as_key sock) (\<lambda>_. reactor_run (checked_callback as_key) n) (service_init ps w) =
      bnd (acceptor_on as_key sock) (\<lambda>_. reactor_run (service_callback as_key) n) (service_init ps w)"
  using agreeD(1) [OF post_agrees assms] agreeD(1) [OF turn_agrees assms] agreeD(1) [OF run_agrees assms]
    keepsD [OF agreeD(2) [OF post_agrees] assms] keepsD [OF service_callback_typed assms] keepsD [OF acceptor_on_typed assms]
    keepsD [OF agreeD(2) [OF turn_agrees] assms] keepsD [OF agreeD(2) [OF run_agrees] assms]
    started_typed agreeD(1) [OF serving_agrees started_typed]
  by simp

subsection \<open>Witnesses\<close>

text \<open>An acceptor is told that its socket is readable, and waits for the answer to its \<open>accept\<close>; the handler next to
  it would be called at the end of the server only.\<close>

definition typed_sample :: service where
  "typed_sample = (service_init sample_poll (boot []))
     \<lparr>ev_notes := [9 \<mapsto> readable_note], ev_observers := [0 \<mapsto> shutdown_observer 101, 1 \<mapsto> accept_observer 100],
       ev_next := 200, ev_centers := [5 \<mapsto> \<lparr>nc_observers = [0, 1], nc_mutex = new_mutex Std_mutex\<rparr>],
       so_acceptors := [100 \<mapsto> \<lparr>ac_socket = socket_of 4, ac_reactor = True\<rparr>]\<rparr>"

lemma typed_sample_ok: "well_typed typed_sample"
  by (simp add: well_typed_def typed_sample_def)

lemma sys_retry_empty: "w_script w = [] \<Longrightarrow> sys_retry again c w = (Fail Pending, w)"
  by (rule sys_retry_stuck) (simp add: sys_def)

lemma typed_sample_post: "fst (nc_post (service_callback sk_fd) 5 (Some 9) typed_sample) = Fail Pending"
  by (simp add: nc_post_def center_locked_def with_lock_free bnd_apply thn_apply get_center_def get_observer_def typed_sample_def new_mutex_def on_exit_apply
      observer_notify_def observer_locked_def shutdown_observer_def accept_observer_def observer_of_def observer_accepts_def
      get_note_def readable_note_def socket_note_def is_a_def set_observer_def set_center_def service_callback_def
      on_accept_def acceptor_socket_def get_acceptor_def zoom_def sock_accept_def if_invalid_def fd_loop_def sys_retry_empty socket_of_def INVALID_SOCKET_def on_world_def service_init_def reactor_init_def boot_def locked_def)

lemma echo_type_safe_witness:
  "fst (nc_post (checked_callback sk_fd) 5 (Some 9) typed_sample) = Fail Pending"
  using echo_type_safe [OF typed_sample_ok, of sk_fd 5 "Some 9" 0 100 0 9 "socket_of 4"] typed_sample_post by simp

end
