(* ===== verification/Connector_Life.thy ===== *)
theory Connector_Life
  imports Echo_Server
begin

section \<open>The descriptor of a connector\<close>

text \<open>
  The constructor of \<^verbatim>\<open>src/epoll_server/socket_connector.h\<close> creates a socket and starts to connect it; both
  may throw. This theory follows the descriptor through the constructor: \<open>scan_fd\<close> (see \<open>Server_Socket\<close>)
  reads from the trace which one is held.
\<close>

lemma get_connector_apply: "so_connectors s p = Some c \<Longrightarrow> get_connector p s = (Ret c, s)"
  by (simp add: get_connector_def bnd_apply)

lemma connector_socket_apply:
  assumes "so_connectors s p = Some c" "m (cn_socket c, rx_world s) = (out, k, w)"
  shows "connector_socket p m s = (out, put_connector p (Some (c\<lparr>cn_socket := k\<rparr>)) (s\<lparr>rx_world := w\<rparr>))"
  using assms by (simp add: connector_socket_def bnd_apply get_connector_apply zoom_def)

lemma put_connector_simps [simp]:
  "so_connectors (put_connector p c s) = (so_connectors s)(p := c)" "rx_world (put_connector p c s) = rx_world s"
  "ev_next (put_connector p c s) = ev_next s"
  by (simp_all add: put_connector_def)

text \<open>The end of a connector closes the descriptor it holds.\<close>

lemma connector_free_closes:
  assumes "so_connectors s p = Some c" "fd_tracked fd0 (cn_socket c, rx_world s)" "connector_free p s = (out, t)"
  shows "out = Fail Pending \<or> out = Ret () \<and> so_connectors t = (so_connectors s)(p := None) \<and>
    scan_fd fd0 (w_trace (rx_world t)) = Some INVALID_SOCKET"
proof (cases "sk_fd (cn_socket c) = INVALID_SOCKET")
  case True
  then show ?thesis
    using assms by (auto simp: connector_free_def bnd_apply thn_apply get_connector_apply rx_os_apply drop_socket_def fd_tracked_def)
next
  case False
  then show ?thesis
    by (cases rule: sys_cases [of "rx_world s" "Close (sk_fd (cn_socket c))"])
      (use assms in \<open>auto simp: connector_free_def bnd_apply thn_apply get_connector_apply rx_os_apply drop_socket_def fd_tracked_def
        scan_fd_append INVALID_SOCKET_def\<close>)
qed

lemma connect_nb_tracked: "fd_tracked fd0 s \<Longrightarrow> sock_connect_nb ip port s = (out, t) \<Longrightarrow> fd_tracked fd0 t"
  using keepsD [OF sock_exec_tracked, of fd0 s "S_connect_nb ip port"] by (simp add: run_only_state)

text \<open>C39. The constructor of a connector leaks no descriptor: when it returns, the object at the new address holds exactly the
  descriptor that was created; when an exception leaves it, whatever call of the system has failed, each
  descriptor it created was closed, once, and there is no object.\<close>

theorem connector_new_leaks_nothing:
  assumes "connector_new ip port s = (out, t)" "rx_world s = boot rs"
  shows "case out of
      Ret p \<Rightarrow> p = ev_next s \<and> (\<exists>c. so_connectors t = (so_connectors s)(p \<mapsto> c) \<and> cn_reactor c = False \<and>
        scan_fd INVALID_SOCKET (w_trace (rx_world t)) = Some (sk_fd (cn_socket c)))
    | Fail (Thrown e) \<Rightarrow> so_connectors t = (so_connectors s)(ev_next s := None) \<and>
        scan_fd INVALID_SOCKET (w_trace (rx_world t)) = Some INVALID_SOCKET
    | Fail e \<Rightarrow> True"
proof -
  let ?p = "ev_next s" and ?c = "\<lparr>cn_socket = socket_default, cn_reactor = False\<rparr>"
  let ?u = "put_connector ?p (Some ?c) (s\<lparr>ev_next := Suc ?p\<rparr>)"
  obtain o1 k w where m: "sock_connect_nb ip port (socket_default, rx_world s) = (o1, k, w)" by (metis prod.collapse)
  let ?v = "put_connector ?p (Some (?c\<lparr>cn_socket := k\<rparr>)) (?u\<lparr>rx_world := w\<rparr>)"
  have "fd_tracked INVALID_SOCKET (socket_default, rx_world s)"
    using assms(2) by (simp add: fd_tracked_def socket_default_def)
  then have k: "fd_tracked INVALID_SOCKET (k, w)" using m by (rule connect_nb_tracked)
  have v: "connector_socket ?p (sock_connect_nb ip port) ?u = (o1, ?v)"
    by (rule connector_socket_apply) (use m in \<open>simp_all add: put_connector_def\<close>)
  have run: "(out, t) = catch_rethrow (thn (connector_socket ?p (sock_connect_nb ip port)) (ret ?p)) (connector_free ?p) ?u"
    using assms(1) by (simp add: connector_new_def new_address_def bnd_apply thn_apply)
  show ?thesis
  proof (cases o1)
    case (Ret ip')
    then have "out = Ret ?p" "t = ?v" using run v by (simp_all add: catch_rethrow_def thn_apply)
    then show ?thesis
      using k by (auto simp: fd_tracked_def put_connector_def intro!: exI [of _ "?c\<lparr>cn_socket := k\<rparr>"])
  next
    case (Fail e)
    show ?thesis
    proof (cases e)
      case (Thrown x)
      obtain o2 z where z: "connector_free ?p ?v = (o2, z)" by (rule prod.exhaust)
      have "o2 = Fail Pending \<or> o2 = Ret () \<and> so_connectors z = (so_connectors ?v)(?p := None) \<and>
          scan_fd INVALID_SOCKET (w_trace (rx_world z)) = Some INVALID_SOCKET"
        by (rule connector_free_closes [OF _ _ z, of "?c\<lparr>cn_socket := k\<rparr>"]) (use k in \<open>simp_all add: put_connector_def\<close>)
      then show ?thesis
        using run v z Fail Thrown by (auto simp: catch_rethrow_def thn_apply put_connector_def)
    qed (use run v Fail in \<open>simp_all add: catch_rethrow_def thn_apply\<close>)
  qed
qed

subsection \<open>Witnesses\<close>

text \<open>The connection is refused.\<close>

definition refused_replies :: "reply list" where
  "refused_replies = map (\<lambda>(rc, e). \<lparr>rp_rc = rc, rp_err = e, rp_data = No_data\<rparr>) [(5, 0), (2, 0), (0, 0), (-1, 111), (0, 0)]"

definition refused_start :: service where
  "refused_start = service_init sample_poll (boot refused_replies)"

lemma connector_new_leaks_nothing_witness:
  "\<exists>e t. connector_new ''10.0.0.1'' 80 refused_start = (Fail (Thrown e), t) \<and> so_connectors t 0 = None \<and>
     map fst (w_trace (rx_world t)) = [Socket AF_INET SOCK_STREAM IPPROTO_TCP, Fcntl 5 F_GETFL, Fcntl 5 (F_SETFL 2050),
       Connect 5 (make_addr 80), Close 5] \<and>
     scan_fd INVALID_SOCKET (w_trace (rx_world t)) = Some INVALID_SOCKET"
proof -
  let ?c = "\<lparr>cn_socket = socket_default, cn_reactor = False\<rparr>"
  let ?u = "put_connector 0 (Some ?c) (refused_start\<lparr>ev_next := 1\<rparr>)"
  have start: "ev_next refused_start = 0" "rx_world refused_start = boot refused_replies"
    by (simp_all add: refused_start_def service_init_def reactor_init_def)
  obtain e k w where m: "sock_connect_nb ''10.0.0.1'' 80 (socket_default, boot refused_replies) = (Fail (Thrown e), k, w)"
      "sk_fd k = 5" "w_script w = [\<lparr>rp_rc = 0, rp_err = 0, rp_data = No_data\<rparr>]"
      "map fst (w_trace w) = [Socket AF_INET SOCK_STREAM IPPROTO_TCP, Fcntl 5 F_GETFL, Fcntl 5 (F_SETFL 2050), Connect 5 (make_addr 80)]"
    by (simp add: sock_connect_nb_def sock_init_def init_socket_def set_blocking_def sock_fcntl_def make_addr_with_ip_eq
        if_invalid_apply bnd_apply thn_apply on_world_apply fd_call_apply sys_reply set_fd_def INVALID_SOCKET_def socket_default_def
        refused_replies_def last_error_apply error_code_arg_def Let_def EINPROGRESS_def EWOULDBLOCK_def status_ok_def O_NONBLOCK_def)
  let ?v = "put_connector 0 (Some (?c\<lparr>cn_socket := k\<rparr>)) (?u\<lparr>rx_world := w\<rparr>)"
  have v: "connector_socket 0 (sock_connect_nb ''10.0.0.1'' 80) ?u = (Fail (Thrown e), ?v)"
    by (rule connector_socket_apply) (use m start in \<open>simp_all add: put_connector_def\<close>)
  have "\<exists>t. connector_new ''10.0.0.1'' 80 refused_start = (Fail (Thrown e), t) \<and>
      w_trace (rx_world t) = w_trace w @ [(Close 5, \<lparr>rp_rc = 0, rp_err = 0, rp_data = No_data\<rparr>)]"
    using v m(2,3) start
    by (simp add: connector_new_def new_address_def bnd_apply thn_apply catch_rethrow_def connector_free_def get_connector_def
        rx_os_apply drop_socket_def INVALID_SOCKET_def sys_reply status_ok_def put_connector_def)
  then obtain t where t: "connector_new ''10.0.0.1'' 80 refused_start = (Fail (Thrown e), t)"
      "w_trace (rx_world t) = w_trace w @ [(Close 5, \<lparr>rp_rc = 0, rp_err = 0, rp_data = No_data\<rparr>)]" by blast
  have "so_connectors t 0 = None \<and> scan_fd INVALID_SOCKET (w_trace (rx_world t)) = Some INVALID_SOCKET"
    using connector_new_leaks_nothing [OF t(1) start(2)] start(1) by simp
  then show ?thesis using t m(4) by (intro exI [of _ e] exI [of _ t]) simp
qed

end
