(* ===== verification/Application_Runs.thy ===== *)
theory Application_Runs
  imports Server_Application
begin

section \<open>The two ways to run an application\<close>

text \<open>
  \<^verbatim>\<open>src/epoll_server/server_application.cpp\<close> has a \<open>run\<close> for the arguments of \<^verbatim>\<open>main\<close> and one
  for a vector of strings. This theory compares them.
\<close>

definition no_args_yet :: "'z app_scheme \<Rightarrow> bool" where
  "no_args_yet s \<longleftrightarrow> ap_unprocessed s = []"

lemma app_sys_no_args: "keeps no_args_yet (app_sys c)"
  unfolding app_sys_def app_os_def by (rule keeps_zoom) (simp add: no_args_yet_def)

lemma be_daemon_no_args: "keeps no_args_yet be_daemon"
  by (auto simp: be_daemon_def reopen_null_def intro!: keeps_rules app_sys_no_args)

text \<open>On an object that has no arguments, the two \<open>init\<close> do the same.\<close>

lemma init_same: "no_args_yet s \<Longrightarrow> app_init_args args s = app_init_vec args s \<or> args = []"
  by (cases args) (simp_all add: app_init_args_def app_init_vec_def set_args_def set_arg_vec_def no_args_yet_def)

lemma prepare_same:
  fixes s :: "'z app_scheme"
  assumes "no_args_yet s" "args \<noteq> []"
  shows "app_prepare d (app_init_args args) s = app_prepare d (app_init_vec args) s"
proof -
  let ?rest = "\<lambda>ini. catch_all (thn ini (if d then bnd (app_sys (Chdir ''/'')) (\<lambda>r. ret (if rp_rc r \<noteq> 0 then Some EXIT_OSERR else None))
      else ret None)) (ret (Some EXIT_CONFIG))"
  have rest: "?rest (app_init_args args) u = ?rest (app_init_vec args) u" if "no_args_yet u" for u
    using init_same [OF that, of args] assms(2) by (simp add: catch_all_apply thn_apply)
  have "keeps no_args_yet (if d then be_daemon else (ret () :: ('z, unit) app_prog))"
    using be_daemon_no_args by (intro keeps_if keeps_ret)
  then have "no_args_yet (snd ((if d then be_daemon else ret ()) s))" using assms(1) by (rule keepsD)
  then show ?thesis
    unfolding app_prepare_def thn_apply [of "if d then be_daemon else ret ()"]
    using rest by (auto split: prod.split outcome.split)
qed

text \<open>No operation assigns the start time, so \<open>uptime\<close> is the time that the clock shows, counted from its epoch.\<close>

definition start_is :: "int \<Rightarrow> 'z app_scheme \<Rightarrow> bool" where
  "start_is t s \<longleftrightarrow> ap_start s = t"

lemma app_sys_start: "keeps (start_is t) (app_sys c)"
  unfolding app_sys_def app_os_def by (rule keeps_zoom) (simp add: start_is_def)

lemma app_path_start: "keeps (start_is t) application_path"
  unfolding application_path_def throw_runtime_def
  by (intro keeps_bnd keeps_gets keeps_if keeps_ret keeps_fail app_sys_start)

lemma uptime_counts_from_the_epoch:
  "fst (app_uptime now (app_new e w z)) = Ret now" "keeps (start_is t) app_setup" "keeps (start_is t) (app_init_args args)"
  "keeps (start_is t) (app_init_vec args)" "keeps (start_is t) app_initialize" "keeps (start_is t) app_uninitialize"
  "keeps (start_is t) be_daemon" "keeps (start_is t) app_terminate"
proof -
  show "fst (app_uptime now (app_new e w z)) = Ret now" by (simp add: app_uptime_def app_new_def bnd_apply)
  show "keeps (start_is t) app_setup" "keeps (start_is t) app_initialize" "keeps (start_is t) app_uninitialize"
    by (auto simp: app_setup_def app_initialize_def app_uninitialize_def start_is_def intro!: keeps_rules)
  show "keeps (start_is t) (app_init_args args)" "keeps (start_is t) (app_init_vec args)"
    by (auto simp: app_init_args_def app_init_vec_def app_init_def set_args_def set_arg_vec_def start_is_def
        intro!: keeps_rules app_path_start split: list.split)
  show "keeps (start_is t) be_daemon" "keeps (start_is t) app_terminate"
    by (auto simp: be_daemon_def reopen_null_def app_terminate_def intro!: keeps_rules app_sys_start)
qed

text \<open>C38. Equivalence of the two runs: on an object that was not yet given arguments, \<open>run(argc, argv)\<close> and \<open>run(vector)\<close>
  do the same for every application, every list of arguments and every behaviour of the system, a daemon included; the only
  exception is a program that is itself called \<^verbatim>\<open>--daemon\<close>.\<close>

theorem app_runs_agree:
  assumes "ap_unprocessed s = []" "a \<noteq> daemon_option \<or> daemon_option \<in> set as"
  shows "app_run_args ini main (a # as) s = app_run_vec ini main (a # as) s"
proof -
  have d: "is_daemon (a # as) = (daemon_option \<in> set (a # as))" using assms(2) by (auto simp: is_daemon_def)
  have s: "no_args_yet s" using assms(1) by (simp add: no_args_yet_def)
  show ?thesis
    using prepare_same [OF s, of "a # as" "daemon_option \<in> set (a # as)"]
    by (simp only: app_run_args_def app_run_vec_def d bnd_apply list.distinct simp_thms)
qed

text \<open>An object that was constructed with the arguments and is then run with them has them twice: \<open>setArgs(argc, argv)\<close>
  adds to the list, the one for a vector replaces it.\<close>

lemma app_args_twice:
  assumes "app_new_args e w z (a # as) = (Ret (), s)" "daemon_option \<notin> set as"
    and "application_path (s\<lparr>ap_unprocessed := ap_unprocessed s @ a # as\<rparr>) = (Ret p, u)"
  shows "app_run_args app_initialize main (a # as) s =
    (case main ((a # as) @ a # as) (u\<lparr>ap_initialized := True\<rparr>) of (out, t) \<Rightarrow> main_result out t)"
proof -
  have path: "ap_unprocessed v = ap_unprocessed t \<and> ap_command v = ap_command t" if "application_path t = (out, v)" for out and t v :: "'a app_scheme"
    using that by (auto simp: application_path_def bnd_apply app_sys_def app_os_def zoom_def split: if_splits prod.splits outcome.splits)
  obtain q where "application_path (app_new e w z\<lparr>ap_command := a, ap_unprocessed := a # as\<rparr>) = (Ret q, s)"
    using assms(1) by (auto simp: app_new_args_def app_setup_def app_init_args_def set_args_def app_init_def thn_apply bnd_apply app_new_def
        split: prod.splits outcome.splits)
  then have s: "ap_unprocessed s = a # as" "ap_command s = a" using path by fastforce+
  have u: "ap_unprocessed u = (a # as) @ a # as" using path [OF assms(3)] s by simp
  have "s\<lparr>ap_command := a, ap_unprocessed := ap_unprocessed s @ a # as\<rparr> = s\<lparr>ap_unprocessed := ap_unprocessed s @ a # as\<rparr>"
    using s(2) by (cases s) simp
  then show ?thesis using app_run_args_eq [OF assms(2), of main a s] assms(3) u by simp
qed

subsection \<open>Witnesses\<close>

lemma app_runs_agree_witness:
  "fst (app_run_vec app_initialize app_main [''/bin/prog'', ''--daemon'']
     (sample_app (map (\<lambda>rc. \<lparr>rp_rc = rc, rp_err = 0, rp_data = No_data\<rparr>) [-1]))) = Fail (Thrown (Runtime_error fork_msg))"
proof -
  let ?s = "sample_app (map (\<lambda>rc. \<lparr>rp_rc = rc, rp_err = 0, rp_data = No_data\<rparr>) [-1])"
  have "fst (app_run_args app_initialize app_main [''/bin/prog'', ''--daemon''] ?s) = Fail (Thrown (Runtime_error fork_msg))"
    by (simp add: app_run_args_def app_prepare_def is_daemon_def daemon_option_def be_daemon_def bnd_apply thn_apply app_sys_reply
        sample_app_def app_new_def)
  then show ?thesis
    using app_runs_agree [of ?s "''/bin/prog''" "[''--daemon'']" app_initialize app_main]
    by (simp add: sample_app_def app_new_def daemon_option_def)
qed

end
