(* ===== verification/Simple_Epoll.thy ===== *)
theory Simple_Epoll
  imports Poll_Set
begin

section \<open>The plain epoll server\<close>

text \<open>
  Models \<^verbatim>\<open>src/simple_epoll/event.cpp\<close>, \<^verbatim>\<open>event.h\<close> and
  \<^verbatim>\<open>server.cpp\<close>: an echo server whose connections live in the slots of the static array
  \<^verbatim>\<open>g_events\<close>. A pointer to a slot is its index; the last slot belongs to the listening
  socket. A slot is free when its status is 0. The call-back function of a slot switches between
  \<open>Handle_Recv\<close> and \<open>Handle_Send\<close>. Output that is only printed (the time of the last activity, the
  address of the peer) is left out. \<^verbatim>\<open>handle_send\<close> calls \<^verbatim>\<open>send\<close> with no flags: where that raises
  \<^verbatim>\<open>SIGPIPE\<close> (see \<open>Kernel\<close>), the run ends at the call, and the branch that closes the connection is reached
  by the other errors only.
\<close>

datatype handler = No_Handler | Handle_Accept | Handle_Recv | Handle_Send

record slot =
  sl_fd :: int
  sl_events :: nat
  sl_arg :: "nat option"
  sl_call :: handler
  sl_status :: int
  sl_buf :: string
  sl_len :: int

record srv =
  sv_slots :: "slot list"
  sv_efd :: int
  sv_world :: world

type_synonym 'a srv_prog = "(srv, 'a) prog"

definition MAX_EVENTS :: nat where "MAX_EVENTS = 1024"
definition BUFF_LEN :: nat where "BUFF_LEN = 128"

definition slot_init :: slot where
  "slot_init = \<lparr>sl_fd = 0, sl_events = 0, sl_arg = None, sl_call = No_Handler, sl_status = 0,
     sl_buf = zero_bytes BUFF_LEN, sl_len = 0\<rparr>"

definition srv_init :: "world \<Rightarrow> srv" where
  "srv_init w = \<lparr>sv_slots = replicate (Suc MAX_EVENTS) slot_init, sv_efd = 0, sv_world = w\<rparr>"

definition srv_sys :: "syscall \<Rightarrow> reply srv_prog" where
  "srv_sys c = zoom sv_world (\<lambda>w s. s\<lparr>sv_world := w\<rparr>) (sys c)"

definition get_slot :: "nat \<Rightarrow> slot srv_prog" where
  "get_slot i = bnd (gets (\<lambda>s. if i < length (sv_slots s) then Some (sv_slots s ! i) else None))
     (defined Out_of_bounds)"

definition change_slot :: "nat \<Rightarrow> (slot \<Rightarrow> slot) \<Rightarrow> unit srv_prog" where
  "change_slot i f = bnd (get_slot i) (\<lambda>ev. modify (\<lambda>s. s\<lparr>sv_slots := (sv_slots s)[i := f ev]\<rparr>))"

subsection \<open>event.cpp\<close>

definition set_event :: "nat \<Rightarrow> int \<Rightarrow> handler \<Rightarrow> nat \<Rightarrow> unit srv_prog" where
  "set_event i fd call arg = change_slot i
     (\<lambda>ev. ev\<lparr>sl_fd := fd, sl_call := call, sl_events := 0, sl_arg := Some arg, sl_status := 0\<rparr>)"

definition init_epoll :: "bool srv_prog" where
  "init_epoll = bnd (srv_sys (Epoll_create 1)) (\<lambda>r.
     thn (modify (\<lambda>s. s\<lparr>sv_efd := rp_rc r\<rparr>)) (ret (\<not> rp_rc r < 0)))"

text \<open>\<open>set_epoll\<close>; its callers pass a slot as data and ignore the result.\<close>

definition set_epoll :: "int \<Rightarrow> nat \<Rightarrow> nat \<Rightarrow> epoll_op \<Rightarrow> bool srv_prog" where
  "set_epoll fd i events op = bnd (gets sv_efd) (\<lambda>efd.
     bnd (srv_sys (Epoll_ctl efd op fd events (int i))) (\<lambda>r. ret (\<not> rp_rc r < 0)))"

definition event_add :: "nat \<Rightarrow> nat \<Rightarrow> unit srv_prog" where
  "event_add events i = bnd (get_slot i) (\<lambda>ev.
     thn (change_slot i (\<lambda>ev. ev\<lparr>sl_status := (if sl_status ev = 1 then sl_status ev else 1), sl_events := events\<rparr>))
         (bnd (set_epoll (sl_fd ev) i events (if sl_status ev = 1 then EPOLL_CTL_MOD else EPOLL_CTL_ADD))
              (\<lambda>_. ret ())))"

definition event_del :: "nat \<Rightarrow> unit srv_prog" where
  "event_del i = bnd (get_slot i) (\<lambda>ev.
     if sl_status ev \<noteq> 1 then ret ()
     else thn (change_slot i (\<lambda>ev. ev\<lparr>sl_status := 0\<rparr>))
              (bnd (set_epoll (sl_fd ev) i 0 EPOLL_CTL_DEL) (\<lambda>_. ret ())))"

subsection \<open>server.cpp: the handlers\<close>

definition set_non_block :: "int \<Rightarrow> bool srv_prog" where
  "set_non_block fd = bnd (srv_sys (Fcntl fd F_GETFL)) (\<lambda>r.
     if rp_rc r < 0 then ret False
     else bnd (srv_sys (Fcntl fd (F_SETFL (or (rp_rc r) O_NONBLOCK)))) (\<lambda>r2. ret (\<not> rp_rc r2 < 0)))"

text \<open>The loop that looks for a free slot; \<open>MAX_EVENTS\<close> when there is none.\<close>

fun free_slot :: "nat \<Rightarrow> slot list \<Rightarrow> nat" where
  "free_slot i [] = i"
| "free_slot i (ev # evs) = (if sl_status ev = 0 then i else free_slot (Suc i) evs)"

definition handle_accept :: "int \<Rightarrow> unit srv_prog" where
  "handle_accept fd = bnd (srv_sys (Accept fd)) (\<lambda>r.
     if rp_rc r = -1 then ret ()
     else bnd (gets (\<lambda>s. free_slot 0 (take MAX_EVENTS (sv_slots s)))) (\<lambda>i.
       if i = MAX_EVENTS then ret ()
       else bnd (set_non_block (rp_rc r)) (\<lambda>ok.
         if \<not> ok then ret ()
         else thn (set_event i (rp_rc r) Handle_Recv i) (event_add EPOLLIN i))))"

text \<open>Storing the bytes that \<open>recv\<close> delivers, and the terminating zero behind them.\<close>

definition store_bytes :: "nat \<Rightarrow> string \<Rightarrow> unit srv_prog" where
  "store_bytes i bs = bnd (get_slot i) (\<lambda>ev.
     bnd (defined Out_of_bounds (mem_write 0 bs (sl_buf ev))) (\<lambda>buf.
       change_slot i (\<lambda>ev. ev\<lparr>sl_buf := buf\<rparr>)))"

definition terminate_buf :: "nat \<Rightarrow> nat \<Rightarrow> unit srv_prog" where
  "terminate_buf i n = bnd (get_slot i) (\<lambda>ev.
     bnd (defined Out_of_bounds (mem_write n [CHR 0x00] (sl_buf ev))) (\<lambda>buf.
       change_slot i (\<lambda>ev. ev\<lparr>sl_buf := buf\<rparr>)))"

definition close_slot :: "nat \<Rightarrow> unit srv_prog" where
  "close_slot i = bnd (get_slot i) (\<lambda>ev. bnd (srv_sys (Close (sl_fd ev))) (\<lambda>_. ret ()))"

definition handle_recv :: "int \<Rightarrow> nat \<Rightarrow> unit srv_prog" where
  "handle_recv fd i = bnd (srv_sys (Recv fd BUFF_LEN 0)) (\<lambda>r.
     thn (store_bytes i (bytes_of (rp_data r)))
    (thn (event_del i)
         (if rp_rc r > 0
          then thn (change_slot i (\<lambda>ev. ev\<lparr>sl_len := rp_rc r\<rparr>))
              (thn (terminate_buf i (nat (rp_rc r)))
              (thn (set_event i fd Handle_Send i)
                   (event_add EPOLLOUT i)))
          else close_slot i)))"

definition handle_send :: "int \<Rightarrow> nat \<Rightarrow> unit srv_prog" where
  "handle_send fd i = bnd (get_slot i) (\<lambda>ev.
     bnd (defined Out_of_bounds (mem_read 0 (size_of_int (sl_len ev)) (sl_buf ev))) (\<lambda>bs.
     bnd (srv_sys (Send fd bs 0)) (\<lambda>r.
     thn (event_del i)
         (if rp_rc r > 0
          then thn (set_event i fd Handle_Recv i) (event_add EPOLLIN i)
          else close_slot i))))"

definition call_handler :: "handler \<Rightarrow> int \<Rightarrow> nat option \<Rightarrow> unit srv_prog" where
  "call_handler h fd arg = (case h of
       No_Handler \<Rightarrow> fail (Undef Null_deref)
     | Handle_Accept \<Rightarrow> handle_accept fd
     | Handle_Recv \<Rightarrow> bnd (defined Null_deref arg) (handle_recv fd)
     | Handle_Send \<Rightarrow> bnd (defined Null_deref arg) (handle_send fd))"

subsection \<open>Dispatching, starting, running\<close>

text \<open>One reported event; the second test reads the slot again, after the first call.\<close>

definition fire :: "nat \<Rightarrow> nat \<Rightarrow> nat \<Rightarrow> unit srv_prog" where
  "fire flag events i = bnd (get_slot i) (\<lambda>ev.
     if and events flag \<noteq> 0 \<and> and (sl_events ev) flag \<noteq> 0
     then call_handler (sl_call ev) (sl_fd ev) (sl_arg ev) else ret ())"

definition dispatch_event :: "nat \<times> int \<Rightarrow> unit srv_prog" where
  "dispatch_event e = thn (fire EPOLLIN (fst e) (nat (snd e))) (fire EPOLLOUT (fst e) (nat (snd e)))"

primrec dispatch_list :: "(nat \<times> int) list \<Rightarrow> unit srv_prog" where
  "dispatch_list [] = ret ()"
| "dispatch_list (e # es) = thn (dispatch_event e) (dispatch_list es)"

definition dispatch_events :: "bool srv_prog" where
  "dispatch_events = bnd (gets sv_efd) (\<lambda>efd.
     bnd (srv_sys (Epoll_wait efd (Suc MAX_EVENTS) 1000)) (\<lambda>r.
       if rp_rc r < 0 then ret False
       else thn (dispatch_list (take (nat (rp_rc r)) (events_of (rp_data r)))) (ret True)))"

definition listen_addr :: "16 word \<Rightarrow> sockaddr" where
  "listen_addr port = \<lparr>sin_family = AF_INET, sin_addr = zero_bytes 4, sin_port = htons port\<rparr>"

definition init_listen_socket :: "16 word \<Rightarrow> int srv_prog" where
  "init_listen_socket port =
     bnd (srv_sys (Socket AF_INET SOCK_STREAM IPPROTO_TCP)) (\<lambda>r.
     bnd (set_non_block (rp_rc r)) (\<lambda>_.
     bnd (srv_sys (Bind (rp_rc r) (listen_addr port))) (\<lambda>b.
       if rp_rc b < 0 then ret (-1)
       else bnd (srv_sys (Listen (rp_rc r) 20)) (\<lambda>_. ret (rp_rc r)))))"

subsection \<open>What the handlers do to the table\<close>

lemma wp_srv_sys:
  assumes "\<And>r w'. reply_ok c r \<Longrightarrow> Q (Ret r) (s\<lparr>sv_world := w'\<rparr>)" "Q (Fail Pending) s"
  shows "wp (srv_sys c) Q s"
  by (rule sys_cases [of "sv_world s" c]) (use assms in \<open>auto simp: wp_def srv_sys_def zoom_def\<close>)

lemma wp_get_slot:
  "i < length (sv_slots s) \<Longrightarrow> wp (get_slot i) Q s \<longleftrightarrow> Q (Ret (sv_slots s ! i)) s"
  by (simp add: get_slot_def wp_rules)

lemma wp_change_slot:
  "i < length (sv_slots s) \<Longrightarrow>
     wp (change_slot i f) Q s \<longleftrightarrow> Q (Ret ()) (s\<lparr>sv_slots := (sv_slots s)[i := f (sv_slots s ! i)]\<rparr>)"
  by (simp add: change_slot_def wp_rules wp_get_slot)

text \<open>The life of a connection slot.\<close>

datatype phase = Free | Reading | Writing

definition phase_of :: "slot \<Rightarrow> phase" where
  "phase_of ev = (if sl_status ev = 0 then Free else if sl_call ev = Handle_Send then Writing else Reading)"

inductive slot_step :: "phase \<Rightarrow> phase \<Rightarrow> bool" where
  accepted: "slot_step Free Reading"
| received: "slot_step Reading Writing"
| hung_up: "slot_step Reading Free"
| sent: "slot_step Writing Reading"
| broken: "slot_step Writing Free"

code_pred slot_step .

inductive_cases slot_stepE: "slot_step Free ph"

inductive_simps slot_step_from_reading: "slot_step Reading ph"

definition slot_ok :: "nat \<Rightarrow> slot \<Rightarrow> bool" where
  "slot_ok i ev \<longleftrightarrow> length (sl_buf ev) = BUFF_LEN \<and>
     (sl_status ev = 0 \<or>
      sl_status ev = 1 \<and> sl_arg ev = Some i \<and>
      (if i = MAX_EVENTS then sl_call ev = Handle_Accept \<and> sl_events ev = EPOLLIN
       else sl_call ev = Handle_Recv \<and> sl_events ev = EPOLLIN \<or>
            sl_call ev = Handle_Send \<and> sl_events ev = EPOLLOUT \<and> 0 < sl_len ev \<and> sl_len ev < int BUFF_LEN))"

definition table_ok :: "slot list \<Rightarrow> bool" where
  "table_ok evs \<longleftrightarrow> length evs = Suc MAX_EVENTS \<and> (\<forall>i \<le> MAX_EVENTS. slot_ok i (evs ! i))"

text \<open>
  A change of one slot that keeps the table well formed and is one step in the life of the slot. A slot
  that is freed keeps its event mask: \<open>event_del\<close> only resets the status.
\<close>

definition good_change :: "slot list \<Rightarrow> nat \<Rightarrow> slot list \<Rightarrow> bool" where
  "good_change evs i evs' \<longleftrightarrow> (\<exists>ev. evs' = evs[i := ev] \<and> slot_ok i ev \<and>
     slot_step (phase_of (evs ! i)) (phase_of ev) \<and>
     (sl_status ev = 0 \<longrightarrow> sl_events ev = sl_events (evs ! i)))"

lemma good_changeI:
  "evs' = evs[i := ev] \<Longrightarrow> slot_ok i ev \<Longrightarrow> slot_step (phase_of (evs ! i)) (phase_of ev) \<Longrightarrow>
     (sl_status ev = 0 \<longrightarrow> sl_events ev = sl_events (evs ! i)) \<Longrightarrow> good_change evs i evs'"
  unfolding good_change_def by blast

text \<open>A handler that returns has made such a change; one that waits for its first answer has changed nothing.\<close>

definition change_end :: "slot list \<Rightarrow> nat \<Rightarrow> unit outcome \<Rightarrow> slot list \<Rightarrow> bool" where
  "change_end evs i out evs' \<longleftrightarrow> good_change evs i evs' \<or> out \<noteq> Ret () \<and> evs' = evs"

lemma good_change_ok: "table_ok evs \<Longrightarrow> i \<le> MAX_EVENTS \<Longrightarrow> good_change evs i evs' \<Longrightarrow> table_ok evs'"
  by (auto simp: good_change_def table_ok_def nth_list_update)

lemma mem_write_buf:
  "length bs \<le> length buf \<Longrightarrow> \<exists>buf'. mem_write 0 bs buf = Some buf' \<and> length buf' = length buf"
  by (simp add: mem_write_def)

lemma wp_set_event:
  "i < length (sv_slots s) \<Longrightarrow> wp (set_event i fd call arg) Q s \<longleftrightarrow>
     Q (Ret ()) (s\<lparr>sv_slots := (sv_slots s)[i := (sv_slots s ! i)
       \<lparr>sl_fd := fd, sl_call := call, sl_events := 0, sl_arg := Some arg, sl_status := 0\<rparr>]\<rparr>)"
  by (simp add: set_event_def wp_change_slot)

lemma wp_set_epoll:
  assumes "\<And>b w'. Q (Ret b) (s\<lparr>sv_world := w'\<rparr>)" "Q (Fail Pending) s"
  shows "wp (set_epoll fd i events op) Q s"
  unfolding set_epoll_def wp_bnd wp_gets outcome.case
  by (rule wp_srv_sys) (simp_all add: wp_rules assms)

lemma wp_event_add:
  assumes "i < length (sv_slots s)"
    and "\<And>w'. Q (Ret ()) (s\<lparr>sv_slots := (sv_slots s)[i := (sv_slots s ! i)\<lparr>sl_status := 1, sl_events := events\<rparr>], sv_world := w'\<rparr>)"
    and "Q (Fail Pending) (s\<lparr>sv_slots := (sv_slots s)[i := (sv_slots s ! i)\<lparr>sl_status := 1, sl_events := events\<rparr>]\<rparr>)"
  shows "wp (event_add events i) Q s"
  using assms
  by (simp add: event_add_def wp_rules wp_get_slot wp_change_slot cong: if_cong)
    (intro conjI impI wp_set_epoll; simp add: wp_rules)

lemma wp_event_del:
  assumes "i < length (sv_slots s)" "sl_status (sv_slots s ! i) = 1"
    and "\<And>w'. Q (Ret ()) (s\<lparr>sv_slots := (sv_slots s)[i := (sv_slots s ! i)\<lparr>sl_status := 0\<rparr>], sv_world := w'\<rparr>)"
    and "Q (Fail Pending) (s\<lparr>sv_slots := (sv_slots s)[i := (sv_slots s ! i)\<lparr>sl_status := 0\<rparr>]\<rparr>)"
  shows "wp (event_del i) Q s"
  using assms
  by (simp add: event_del_def wp_rules wp_get_slot wp_change_slot) (intro wp_set_epoll; simp add: wp_rules)

lemma wp_close_slot:
  assumes "i < length (sv_slots s)" "\<And>w'. Q (Ret ()) (s\<lparr>sv_world := w'\<rparr>)" "Q (Fail Pending) s"
  shows "wp (close_slot i) Q s"
  using assms by (simp add: close_slot_def wp_rules wp_get_slot) (intro wp_srv_sys; simp add: wp_rules)

text \<open>A slot that is registered for a handler.\<close>

definition armed :: "nat \<Rightarrow> int \<Rightarrow> handler \<Rightarrow> nat \<Rightarrow> slot \<Rightarrow> slot" where
  "armed i fd h events x =
     x\<lparr>sl_fd := fd, sl_call := h, sl_arg := Some i, sl_status := 1, sl_events := events\<rparr>"

text \<open>A handler returns, waits for the next answer, or runs over the buffer.\<close>

definition settled :: "unit outcome \<Rightarrow> bool" where
  "settled out \<longleftrightarrow> out \<in> {Ret (), Fail Pending, Fail (Undef Out_of_bounds)}"

lemma settled_simps [simp]:
  "settled (Ret ())" "settled (Fail Pending)" "settled (Fail (Undef u)) \<longleftrightarrow> u = Out_of_bounds"
  by (auto simp: settled_def)

lemma arm_slot:
  assumes "sv_slots s = evs[i := x]" "i < length evs"
  shows "wp (thn (set_event i fd h i) (event_add events i))
     (\<lambda>out t. settled out \<and> sv_slots t = evs[i := armed i fd h events x]) s"
  using assms
  by (simp add: wp_rules wp_set_event) (intro wp_event_add; simp add: armed_def)

lemma phase_of_armed: "phase_of (armed i fd h events x) = (if h = Handle_Send then Writing else Reading)"
  by (simp add: phase_of_def armed_def)

text \<open>What \<open>handle_recv\<close> does with \<open>n\<close> bytes after it has taken the slot out of the poll set.\<close>

abbreviation recv_tail :: "int \<Rightarrow> nat \<Rightarrow> int \<Rightarrow> unit srv_prog" where
  "recv_tail fd i n \<equiv> thn (change_slot i (\<lambda>ev. ev\<lparr>sl_len := n\<rparr>))
     (thn (terminate_buf i (nat n)) (thn (set_event i fd Handle_Send i) (event_add EPOLLOUT i)))"

text \<open>The second half of \<open>handle_recv\<close>: a terminating zero outside the buffer stops the run.\<close>

lemma after_recv:
  assumes "sv_slots s = evs[i := x]" "i < length evs" "length (sl_buf x) = BUFF_LEN" "0 < n"
  shows "wp (recv_tail fd i n)
     (\<lambda>out t. settled out \<and> (\<exists>buf. length buf = BUFF_LEN \<and>
       (if n < int BUFF_LEN
        then sv_slots t = evs[i := armed i fd Handle_Send EPOLLOUT (x\<lparr>sl_len := n, sl_buf := buf\<rparr>)]
        else sv_slots t = evs[i := x\<lparr>sl_len := n\<rparr>]))) s"
proof -
  let ?s = "s\<lparr>sv_slots := evs[i := x\<lparr>sl_len := n\<rparr>]\<rparr>"
  have first: "change_slot i (\<lambda>ev. ev\<lparr>sl_len := n\<rparr>) s = (Ret (), ?s)"
    using assms(1,2) by (simp add: change_slot_def get_slot_def bnd_def)
  show ?thesis
  proof (cases "nat n < BUFF_LEN")
    case True
    obtain buf where buf: "mem_write (nat n) [CHR 0x00] (sl_buf x) = Some buf" "length buf = BUFF_LEN"
      using True assms(3) by (simp add: mem_write_def)
    let ?t = "s\<lparr>sv_slots := evs[i := x\<lparr>sl_len := n, sl_buf := buf\<rparr>]\<rparr>"
    have second: "terminate_buf i (nat n) ?s = (Ret (), ?t)"
      using assms(2) buf by (simp add: terminate_buf_def change_slot_def get_slot_def bnd_def)
    have "wp (thn (set_event i fd Handle_Send i) (event_add EPOLLOUT i))
        (\<lambda>out t. settled out \<and> sv_slots t = evs[i := armed i fd Handle_Send EPOLLOUT (x\<lparr>sl_len := n, sl_buf := buf\<rparr>)]) ?t"
      by (rule arm_slot) (use assms(2) in simp_all)
    then show ?thesis
      using first second buf(2) True assms(4)
      by (auto simp: wp_def thn_apply split: prod.splits)
  next
    case False
    then have "mem_write (nat n) [CHR 0x00] (sl_buf x) = None" using assms(3) by (simp add: mem_write_def)
    then have "terminate_buf i (nat n) ?s = (Fail (Undef Out_of_bounds), ?s)"
      using assms(2) by (simp add: terminate_buf_def get_slot_def bnd_def)
    then show ?thesis
      using first False assms(3,4) by (auto simp: wp_def thn_apply)
  qed
qed

text \<open>A slot that reads may be given up, or armed to write what it has received.\<close>

lemma reading_changes:
  assumes "phase_of (evs ! i) = Reading" "i < MAX_EVENTS" "length (sl_buf y) = BUFF_LEN"
  shows "sl_status y = 0 \<Longrightarrow> sl_events y = sl_events (evs ! i) \<Longrightarrow> good_change evs i (evs[i := y])"
    and "0 < sl_len y \<Longrightarrow> sl_len y < int BUFF_LEN \<Longrightarrow> good_change evs i (evs[i := armed i fd Handle_Send EPOLLOUT y])"
  using assms
  by (auto simp: phase_of_def slot_step.simps slot_ok_def intro!: good_changeI [OF refl])
    (auto simp: phase_of_armed phase_of_def slot_step.simps slot_ok_def armed_def intro!: good_changeI [OF refl])

lemma recv_tail_change:
  assumes "phase_of (evs ! i) = Reading" "i < MAX_EVENTS" "length evs = Suc MAX_EVENTS" "0 < n"
    and y: "length (sl_buf y) = BUFF_LEN" "sl_status y = 0" "sl_events y = sl_events (evs ! i)"
    and u: "sv_slots u = evs[i := y]"
  shows "wp (recv_tail fd i n) (\<lambda>out u. settled out \<and> change_end evs i out (sv_slots u)) u"
proof (rule wp_mono [OF after_recv [OF u]])
  fix out t
  assume "settled out \<and> (\<exists>buf. length buf = BUFF_LEN \<and> (if n < int BUFF_LEN
     then sv_slots t = evs[i := armed i fd Handle_Send EPOLLOUT (y\<lparr>sl_len := n, sl_buf := buf\<rparr>)]
     else sv_slots t = evs[i := y\<lparr>sl_len := n\<rparr>]))"
  then show "settled out \<and> change_end evs i out (sv_slots t)"
    using assms(4) y reading_changes [OF assms(1,2)] by (auto simp: change_end_def split: if_splits)
qed (use assms in auto)

lemma handle_recv_change:
  assumes t: "table_ok (sv_slots s)" and i: "i < MAX_EVENTS"
    and ev: "sl_status (sv_slots s ! i) = 1" "sl_call (sv_slots s ! i) = Handle_Recv"
  shows "wp (handle_recv fd i) (\<lambda>out u. settled out \<and> change_end (sv_slots s) i out (sv_slots u)) s"
proof -
  let ?evs = "sv_slots s" and ?x = "sv_slots s ! i"
  have len: "length ?evs = Suc MAX_EVENTS" "length (sl_buf ?x) = BUFF_LEN"
    using t i by (auto simp: table_ok_def slot_ok_def)
  have il: "i < Suc MAX_EVENTS" "i \<noteq> MAX_EVENTS" using i by simp_all
  have same: "change_end ?evs i (Fail e) ?evs" for e by (simp add: change_end_def)
  have ph: "phase_of ?x = Reading" using ev by (simp add: phase_of_def)
  show ?thesis
    unfolding handle_recv_def wp_bnd
  proof (rule wp_srv_sys, goal_cases)
    case (1 r w)
    let ?bs = "bytes_of (rp_data r)"
    have lb: "length ?bs \<le> length (sl_buf ?x)" using 1 len by (auto simp: transfer_ok_def)
    obtain buf where buf: "mem_write 0 ?bs (sl_buf ?x) = Some buf" "length buf = BUFF_LEN"
      using mem_write_buf [OF lb] len by auto
    let ?y = "?x\<lparr>sl_buf := buf, sl_status := 0\<rparr>"
    have "good_change ?evs i (?evs[i := ?y])" using buf by (intro reading_changes [OF ph i]) simp_all
    then have fr: "change_end ?evs i out (?evs[i := ?y])" for out by (simp add: change_end_def)
    have tail: "wp (if rp_rc r > 0 then recv_tail fd i (rp_rc r) else close_slot i)
        (\<lambda>out u. settled out \<and> change_end ?evs i out (sv_slots u)) u" if u: "sv_slots u = ?evs[i := ?y]" for u
    proof (cases "rp_rc r > 0")
      case True
      then show ?thesis using recv_tail_change [OF ph i len(1) True _ _ _ u] buf by simp
    next
      case False
      have "wp (close_slot i) (\<lambda>out u. settled out \<and> change_end ?evs i out (sv_slots u)) u"
        by (rule wp_close_slot) (use il len u fr in simp_all)
      then show ?thesis using False by simp
    qed
    have "wp (event_del i) (\<lambda>out t. case out of
          Ret x \<Rightarrow> wp (if rp_rc r > 0 then recv_tail fd i (rp_rc r) else close_slot i)
            (\<lambda>out u. settled out \<and> change_end ?evs i out (sv_slots u)) t
        | Fail e \<Rightarrow> settled (Fail e) \<and> change_end ?evs i (Fail e) (sv_slots t))
        (s\<lparr>sv_world := w, sv_slots := ?evs[i := ?x\<lparr>sl_buf := buf\<rparr>]\<rparr>)"
      by (rule wp_event_del, use il len in simp, use il len ev in simp, simp only: outcome.case, rule tail)
        (use il len fr in simp_all)
    then show ?case
      using len il buf
      by (simp only: outcome.case wp_thn [of "store_bytes i ?bs"] wp_thn [of "event_del i"])
        (simp add: wp_rules store_bytes_def wp_get_slot wp_change_slot del: wp_if)
  qed (use same in simp)
qed


lemma size_of_buf_len: "0 < n \<Longrightarrow> n < int BUFF_LEN \<Longrightarrow> size_of_int n = nat n"
  by (simp add: size_of_int_def BUFF_LEN_def size_max_def)

lemma handle_send_change:
  assumes t: "table_ok (sv_slots s)" and i: "i < MAX_EVENTS"
    and ev: "sl_status (sv_slots s ! i) = 1" "sl_call (sv_slots s ! i) = Handle_Send"
  shows "wp (handle_send fd i) (\<lambda>out u. settled out \<and> change_end (sv_slots s) i out (sv_slots u)) s"
proof -
  let ?evs = "sv_slots s" and ?x = "sv_slots s ! i"
  have len: "length ?evs = Suc MAX_EVENTS" "length (sl_buf ?x) = BUFF_LEN" "0 < sl_len ?x" "sl_len ?x < int BUFF_LEN"
    using t i ev by (auto simp: table_ok_def slot_ok_def dest!: spec [of _ i])
  have il: "i < Suc MAX_EVENTS" "i \<noteq> MAX_EVENTS" using i by simp_all
  have same: "change_end ?evs i (Fail e) ?evs" for e by (simp add: change_end_def)
  have ph: "phase_of ?x = Writing" using ev by (simp add: phase_of_def)
  let ?y = "?x\<lparr>sl_status := 0\<rparr>"
  have "good_change ?evs i (?evs[i := ?y])"
    using ph len by (intro good_changeI [OF refl]) (auto simp: slot_ok_def phase_of_def slot_step.simps)
  then have freed: "change_end ?evs i out (?evs[i := ?y])" for out by (simp add: change_end_def)
  have "good_change ?evs i (?evs[i := armed i fd Handle_Recv EPOLLIN ?y])"
    using ph il len
    by (intro good_changeI [OF refl]) (auto simp: phase_of_armed slot_step.simps, auto simp: slot_ok_def armed_def)
  then have reading: "change_end ?evs i out (?evs[i := armed i fd Handle_Recv EPOLLIN ?y])" for out by (simp add: change_end_def)
  obtain bs where bs: "mem_read 0 (size_of_int (sl_len ?x)) (sl_buf ?x) = Some bs"
    using len by (simp add: size_of_buf_len)
  have tail: "wp (if rp_rc r > 0 then thn (set_event i fd Handle_Recv i) (event_add EPOLLIN i) else close_slot i)
      (\<lambda>out u. settled out \<and> change_end ?evs i out (sv_slots u)) u"
    if u: "sv_slots u = ?evs[i := ?y]" for u r
  proof (cases "rp_rc r > 0")
    case True
    have "wp (thn (set_event i fd Handle_Recv i) (event_add EPOLLIN i))
        (\<lambda>out u. settled out \<and> change_end ?evs i out (sv_slots u)) u"
      by (rule wp_mono [OF arm_slot [OF u]]) (use il len reading in simp_all)
    then show ?thesis using True by simp
  next
    case False
    have "wp (close_slot i) (\<lambda>out u. settled out \<and> change_end ?evs i out (sv_slots u)) u"
      by (rule wp_close_slot) (use il len u freed in simp_all)
    then show ?thesis using False by simp
  qed
  have del: "wp (event_del i) (\<lambda>out t. case out of Ret x \<Rightarrow> wp (if rp_rc r > 0
        then thn (set_event i fd Handle_Recv i) (event_add EPOLLIN i) else close_slot i)
        (\<lambda>out u. settled out \<and> change_end ?evs i out (sv_slots u)) t
        | Fail e \<Rightarrow> settled (Fail e) \<and> change_end ?evs i (Fail e) (sv_slots t)) (s\<lparr>sv_world := w\<rparr>)" for r w
    by (rule wp_event_del, use il len in simp, use il len ev in simp, simp only: outcome.case, rule tail)
      (use il len freed in simp_all)
  have sent: "wp (bnd (srv_sys (Send fd bs 0)) (\<lambda>r. thn (event_del i)
         (if rp_rc r > 0 then thn (set_event i fd Handle_Recv i) (event_add EPOLLIN i) else close_slot i)))
      (\<lambda>out u. settled out \<and> change_end ?evs i out (sv_slots u)) s"
    unfolding wp_bnd wp_thn
    by (rule wp_srv_sys, simp only: outcome.case, rule del) (use same in simp)
  show ?thesis
    using il len bs sent by (simp add: handle_send_def wp_bnd [of "get_slot i"] wp_get_slot wp_bnd [of "defined u x" for u x] wp_defined)
qed

text \<open>Accepting a connection.\<close>

lemma free_slot_range: "k \<le> free_slot k evs \<and> free_slot k evs \<le> k + length evs"
  by (induction k evs rule: free_slot.induct) auto

lemma free_slot_free: "free_slot k evs < k + length evs \<Longrightarrow> sl_status (evs ! (free_slot k evs - k)) = 0"
proof (induction k evs rule: free_slot.induct)
  case (2 k ev evs)
  then show ?case using free_slot_range [of "Suc k" evs] by (auto simp: nth_Cons')
qed simp

lemma free_slot_first: "k \<le> j \<Longrightarrow> j < free_slot k evs \<Longrightarrow> sl_status (evs ! (j - k)) \<noteq> 0"
proof (induction k evs rule: free_slot.induct)
  case (2 k ev evs)
  then show ?case by (cases "j = k") (auto simp: nth_Cons' split: if_splits)
qed simp

lemma free_slot_full: "free_slot k evs = k + length evs \<longleftrightarrow> (\<forall>ev \<in> set evs. sl_status ev \<noteq> 0)"
proof (induction k evs rule: free_slot.induct)
  case (2 k ev evs)
  then show ?case by auto
qed simp

lemma wp_set_non_block:
  assumes "\<And>b w'. Q (Ret b) (s\<lparr>sv_world := w'\<rparr>)" "\<And>w'. Q (Fail Pending) (s\<lparr>sv_world := w'\<rparr>)" "Q (Fail Pending) s"
  shows "wp (set_non_block fd) Q s"
  unfolding set_non_block_def wp_bnd
proof (rule wp_srv_sys, goal_cases)
  case (1 r w)
  show ?case
    by (simp add: wp_rules assms) (intro impI wp_srv_sys; use assms in \<open>simp add: wp_rules\<close>)
qed (use assms in simp)

text \<open>Accepting changes at most one slot, the first free one.\<close>

definition first_free :: "nat \<Rightarrow> phase list \<Rightarrow> bool" where
  "first_free k ps \<longleftrightarrow> k < MAX_EVENTS \<and> ps ! k = Free \<and> (\<forall>j < k. ps ! j \<noteq> Free)"

definition phases :: "slot list \<Rightarrow> phase list" where
  "phases evs = map phase_of evs"

lemma phase_Free: "phase_of ev = Free \<longleftrightarrow> sl_status ev = 0"
  by (simp add: phase_of_def)

lemma phases_nth [simp]: "i < length evs \<Longrightarrow> phases evs ! i = phase_of (evs ! i)"
  by (simp add: phases_def)

lemma phases_update: "phases (evs[i := ev]) = (phases evs)[i := phase_of ev]"
  by (simp add: phases_def map_update)

lemma handle_accept_change:
  assumes t: "table_ok (sv_slots s)"
  shows "wp (handle_accept fd) (\<lambda>out u. settled out \<and>
     (sv_slots u = sv_slots s \<or>
      (\<exists>k. first_free k (phases (sv_slots s)) \<and> good_change (sv_slots s) k (sv_slots u)))) s"
    (is "wp _ ?Q s")
proof -
  let ?k = "free_slot 0 (take MAX_EVENTS (sv_slots s))"
  have len: "length (sv_slots s) = Suc MAX_EVENTS" using t by (simp add: table_ok_def)
  have k: "?k \<le> MAX_EVENTS" using free_slot_range [of 0 "take MAX_EVENTS (sv_slots s)"] len by simp
  have stay: "?Q (Ret ()) u" "?Q (Fail Pending) u" if "sv_slots u = sv_slots s" for u using that by simp_all
  have arm: "wp (thn (set_event ?k cfd Handle_Recv ?k) (event_add EPOLLIN ?k)) ?Q u"
    if u: "sv_slots u = sv_slots s" and m: "?k \<noteq> MAX_EVENTS" for u cfd
  proof -
    have free: "sl_status (sv_slots s ! ?k) = 0"
      using free_slot_free [of 0 "take MAX_EVENTS (sv_slots s)"] k m len by simp
    have "sl_status (sv_slots s ! j) \<noteq> 0" if "j < ?k" for j
      using free_slot_first [of 0 j "take MAX_EVENTS (sv_slots s)"] that k len by simp
    then have first: "first_free ?k (phases (sv_slots s))"
      using free k m len by (auto simp: first_free_def phase_Free)
    have "length (sl_buf (sv_slots s ! ?k)) = BUFF_LEN" using t k by (simp add: table_ok_def slot_ok_def)
    then have good: "good_change (sv_slots s) ?k ((sv_slots s)[?k := armed ?k cfd Handle_Recv EPOLLIN (sv_slots s ! ?k)])"
      using free m
      by (intro good_changeI [OF refl])
        (auto simp: slot_ok_def armed_def, auto simp: phase_of_def slot_step.simps)
    show ?thesis
      by (rule wp_mono [OF arm_slot [where evs = "sv_slots s" and x = "sv_slots s ! ?k"]])
        (use u k m len first good in auto)
  qed
  have rest: "wp (bnd (set_non_block cfd) (\<lambda>ok. if \<not> ok then ret ()
        else thn (set_event ?k cfd Handle_Recv ?k) (event_add EPOLLIN ?k))) ?Q (s\<lparr>sv_world := w\<rparr>)"
    if m: "?k \<noteq> MAX_EVENTS" for cfd w
    unfolding wp_bnd
  proof (rule wp_set_non_block, goal_cases)
    case (1 b w')
    then show ?case by (cases b) (use arm [of _ cfd] m stay in \<open>simp_all add: wp_ret\<close>)
  qed (use stay in simp_all)
  show ?thesis
    unfolding handle_accept_def wp_bnd [of "srv_sys c" for c]
  proof (rule wp_srv_sys, goal_cases)
    case (1 r w)
    then show ?case using rest stay by (simp add: wp_ret wp_bnd [of "gets f" for f] wp_gets)
  qed (use stay in simp)
qed


subsection \<open>Dispatching a batch of events\<close>

text \<open>Which event a slot waits for, and what a slot does with one of the two tests of \<open>dispatch_events\<close>: nothing
  when the event is not reported or not waited for; otherwise one step of its life, except for the listening slot,
  which may start the life of the first free one.\<close>

fun phase_wants :: "nat \<Rightarrow> phase \<Rightarrow> bool" where
  "phase_wants flag Free \<longleftrightarrow> False"
| "phase_wants flag Reading \<longleftrightarrow> flag = EPOLLIN"
| "phase_wants flag Writing \<longleftrightarrow> flag = EPOLLOUT"

definition phase_moved :: "nat \<Rightarrow> phase list \<Rightarrow> phase list \<Rightarrow> bool" where
  "phase_moved i ps ps' \<longleftrightarrow>
     (if i = MAX_EVENTS then ps' = ps \<or> (\<exists>k. first_free k ps \<and> ps' = ps[k := Reading])
      else \<exists>ph. slot_step (ps ! i) ph \<and> ps' = ps[i := ph])"

definition reacts :: "nat \<Rightarrow> nat \<Rightarrow> nat \<Rightarrow> phase list \<Rightarrow> phase list \<Rightarrow> bool" where
  "reacts flag events i ps ps' \<longleftrightarrow>
     (if and events flag \<noteq> 0 \<and> phase_wants flag (ps ! i) then phase_moved i ps ps' else ps' = ps)"

text \<open>The events of a batch, one after the other, each with the test for input first.\<close>

inductive batch :: "(nat \<times> int) list \<Rightarrow> phase list \<Rightarrow> phase list \<Rightarrow> bool" where
  batch_done: "batch [] ps ps"
| batch_event: "reacts EPOLLIN (fst e) (nat (snd e)) ps ps1 \<Longrightarrow> reacts EPOLLOUT (fst e) (nat (snd e)) ps1 ps2 \<Longrightarrow>
     batch es ps2 ps3 \<Longrightarrow> batch (e # es) ps ps3"

inductive_simps batch_simps [simp]: "batch [] ps ps'" "batch (e # es) ps ps'"

text \<open>The slot of the listening socket is not changed, whichever slot is handled.\<close>

definition keeps_others :: "nat \<Rightarrow> slot list \<Rightarrow> slot list \<Rightarrow> bool" where
  "keeps_others i evs evs' \<longleftrightarrow> (\<forall>j \<le> MAX_EVENTS. j \<noteq> i \<or> j = MAX_EVENTS \<longrightarrow>
     sl_status (evs ! j) = 1 \<longrightarrow> evs' ! j = evs ! j)"

definition handled :: "nat \<Rightarrow> slot list \<Rightarrow> slot list \<Rightarrow> bool" where
  "handled i evs evs' \<longleftrightarrow> table_ok evs' \<and> keeps_others i evs evs'"

definition honest_batch :: "slot list \<Rightarrow> (nat \<times> int) list \<Rightarrow> bool" where
  "honest_batch evs es \<longleftrightarrow> distinct (map (nat \<circ> snd) es) \<and>
     (\<forall>e \<in> set es. nat (snd e) \<le> MAX_EVENTS \<and> sl_status (evs ! nat (snd e)) = 1)"

lemma handled_refl: "table_ok evs \<Longrightarrow> handled i evs evs"
  by (simp add: handled_def keeps_others_def)

lemma handled_trans: "handled i a b \<Longrightarrow> handled i b c \<Longrightarrow> handled i a c"
  unfolding handled_def keeps_others_def by metis

lemma good_change_handled:
  assumes "table_ok evs" "k < MAX_EVENTS" "good_change evs k evs'" "k = i \<or> sl_status (evs ! k) = 0"
  shows "handled i evs evs'"
  unfolding handled_def
proof (intro conjI)
  show "table_ok evs'" using assms less_imp_le by (blast intro: good_change_ok)
  show "keeps_others i evs evs'"
    using assms by (auto simp: good_change_def keeps_others_def table_ok_def nth_list_update)
qed

lemma good_change_freed:
  assumes "table_ok evs" "i \<le> MAX_EVENTS" "good_change evs i evs'" "sl_status (evs' ! i) = 0"
  shows "sl_events (evs' ! i) = sl_events (evs ! i)"
  using assms by (auto simp: good_change_def table_ok_def)

lemma slot_okD: "table_ok evs \<Longrightarrow> i \<le> MAX_EVENTS \<Longrightarrow> slot_ok i (evs ! i)"
  by (simp add: table_ok_def)

text \<open>What one call of a handler leaves behind.\<close>

definition fired :: "nat \<Rightarrow> slot list \<Rightarrow> unit outcome \<Rightarrow> srv \<Rightarrow> bool" where
  "fired i evs out u \<longleftrightarrow> settled out \<and> handled i evs (sv_slots u) \<and>
     (sl_status (sv_slots u ! i) = 0 \<longrightarrow> sl_events (sv_slots u ! i) = sl_events (evs ! i))"

definition called :: "nat \<Rightarrow> slot list \<Rightarrow> unit outcome \<Rightarrow> srv \<Rightarrow> bool" where
  "called i evs out u \<longleftrightarrow> fired i evs out u \<and> (out = Ret () \<longrightarrow> phase_moved i (phases evs) (phases (sv_slots u)))"

lemma called_change_end:
  assumes t: "table_ok evs" and i: "i < MAX_EVENTS" and out: "settled out" and c: "change_end evs i out (sv_slots u)"
  shows "called i evs out u"
proof (cases "good_change evs i (sv_slots u)")
  case True
  have len: "i < length evs" "i \<noteq> MAX_EVENTS" using t i by (auto simp: table_ok_def)
  have "phase_moved i (phases evs) (phases (sv_slots u))"
    using True len by (auto simp: good_change_def phase_moved_def phases_update)
  then show ?thesis
    using good_change_handled [OF t i True] good_change_freed [OF t _ True] i out by (auto simp: called_def fired_def)
next
  case False
  then show ?thesis using c t out by (auto simp: change_end_def called_def fired_def handled_refl)
qed

lemma call_handler_called:
  assumes t: "table_ok (sv_slots s)" and i: "i \<le> MAX_EVENTS" and st: "sl_status (sv_slots s ! i) = 1"
  shows "wp (call_handler (sl_call (sv_slots s ! i)) (sl_fd (sv_slots s ! i)) (sl_arg (sv_slots s ! i)))
     (called i (sv_slots s)) s"
proof (cases "i = MAX_EVENTS")
  case True
  have len: "length (sv_slots s) = Suc MAX_EVENTS" using t by (simp add: table_ok_def)
  have "sl_call (sv_slots s ! i) = Handle_Accept"
    using slot_okD [OF t i] st True by (simp add: slot_ok_def)
  moreover have "wp (handle_accept (sl_fd (sv_slots s ! i))) (called i (sv_slots s)) s"
  proof (rule wp_mono [OF handle_accept_change [OF t]], elim conjE disjE exE)
    fix out and u :: srv assume "settled out" "sv_slots u = sv_slots s"
    then show "called i (sv_slots s) out u" using t True by (simp add: called_def fired_def handled_refl phase_moved_def)
  next
    fix out k and u :: srv
    assume k: "settled out" "first_free k (phases (sv_slots s))" "good_change (sv_slots s) k (sv_slots u)"
    then have free: "k < MAX_EVENTS" "sl_status (sv_slots s ! k) = 0" using len by (auto simp: first_free_def phase_Free)
    then have "handled i (sv_slots s) (sv_slots u)" using t k(3) by (intro good_change_handled [of _ k]) auto
    moreover have "k \<noteq> i" using free st by auto
    then have "sv_slots u ! i = sv_slots s ! i" using k(3) by (auto simp: good_change_def)
    moreover have "phases (sv_slots u) = (phases (sv_slots s))[k := Reading]"
    proof -
      obtain ev where ev: "sv_slots u = (sv_slots s)[k := ev]" "slot_step (phase_of (sv_slots s ! k)) (phase_of ev)"
        using k(3) by (auto simp: good_change_def)
      have "phase_of (sv_slots s ! k) = Free" using free by (simp add: phase_Free)
      then have "phase_of ev = Reading" using ev(2) by (auto elim: slot_stepE)
      then show ?thesis using ev(1) by (simp add: phases_update)
    qed
    ultimately show "called i (sv_slots s) out u" using k True by (auto simp: called_def fired_def phase_moved_def)
  qed
  ultimately show ?thesis by (simp add: call_handler_def)
next
  case False
  have good: "called i (sv_slots s) out u" if "settled out \<and> change_end (sv_slots s) i out (sv_slots u)" for out and u :: srv
    using that t i False by (intro called_change_end) auto
  have call: "sl_arg (sv_slots s ! i) = Some i"
      "sl_call (sv_slots s ! i) = Handle_Recv \<or> sl_call (sv_slots s ! i) = Handle_Send"
    using slot_okD [OF t i] st False by (auto simp: slot_ok_def)
  have lt: "i < MAX_EVENTS" using i False by simp
  from call(2) show ?thesis
  proof
    assume h: "sl_call (sv_slots s ! i) = Handle_Recv"
    have "wp (handle_recv (sl_fd (sv_slots s ! i)) i) (called i (sv_slots s)) s"
      by (rule wp_mono [OF handle_recv_change [OF t lt st h]]) (rule good)
    then show ?thesis using call(1) h by (simp add: call_handler_def wp_bnd wp_defined)
  next
    assume h: "sl_call (sv_slots s ! i) = Handle_Send"
    have "wp (handle_send (sl_fd (sv_slots s ! i)) i) (called i (sv_slots s)) s"
      by (rule wp_mono [OF handle_send_change [OF t lt st h]]) (rule good)
    then show ?thesis using call(1) h by (simp add: call_handler_def wp_bnd wp_defined)
  qed
qed

lemma masks_disjoint: "and EPOLLIN EPOLLOUT = (0::nat)" "and EPOLLOUT EPOLLIN = (0::nat)"
  by (simp_all add: EPOLLIN_def EPOLLOUT_def)

lemma masks_differ: "EPOLLIN \<noteq> EPOLLOUT" "EPOLLIN \<noteq> 0" "EPOLLOUT \<noteq> 0"
  by (simp_all add: EPOLLIN_def EPOLLOUT_def)

lemma mask_wants:
  assumes "slot_ok i ev" "sl_status ev = 1" "flag = EPOLLIN \<or> flag = EPOLLOUT"
  shows "and (sl_events ev) flag \<noteq> 0 \<longleftrightarrow> phase_wants flag (phase_of ev)"
  using assms masks_differ by (auto simp: slot_ok_def phase_of_def masks_disjoint split: if_splits)

lemma fire_reacts:
  assumes t: "table_ok (sv_slots s)" and i: "i \<le> MAX_EVENTS" and flag: "flag = EPOLLIN \<or> flag = EPOLLOUT"
    and st: "and (sl_events (sv_slots s ! i)) flag \<noteq> 0 \<Longrightarrow> sl_status (sv_slots s ! i) = 1"
  shows "wp (fire flag events i) (\<lambda>out u. fired i (sv_slots s) out u \<and>
     (out = Ret () \<longrightarrow> reacts flag events i (phases (sv_slots s)) (phases (sv_slots u)))) s"
proof -
  have il: "i < length (sv_slots s)" using t i by (simp add: table_ok_def)
  have ok: "slot_ok i (sv_slots s ! i)" by (rule slot_okD [OF t i])
  have on: "and (sl_events (sv_slots s ! i)) flag \<noteq> 0 \<longleftrightarrow> phase_wants flag (phase_of (sv_slots s ! i))"
  proof (cases "sl_status (sv_slots s ! i) = 1")
    case True
    then show ?thesis using mask_wants [OF ok _ flag] by simp
  next
    case False
    then have "phase_of (sv_slots s ! i) = Free" using ok by (auto simp: slot_ok_def phase_Free)
    then show ?thesis using False st by auto
  qed
  have stay: "fired i (sv_slots s) (Ret ()) s" using t by (simp add: fired_def handled_refl)
  show ?thesis
  proof (cases "and events flag \<noteq> 0 \<and> and (sl_events (sv_slots s ! i)) flag \<noteq> 0")
    case True
    have "wp (call_handler (sl_call (sv_slots s ! i)) (sl_fd (sv_slots s ! i)) (sl_arg (sv_slots s ! i)))
       (\<lambda>out u. fired i (sv_slots s) out u \<and> (out = Ret () \<longrightarrow> reacts flag events i (phases (sv_slots s)) (phases (sv_slots u)))) s"
      by (rule wp_mono [OF call_handler_called [OF t i]]) (use True st on il in \<open>auto simp: called_def reacts_def\<close>)
    then show ?thesis using True il by (simp add: fire_def wp_bnd wp_get_slot)
  next
    case False
    then have "fire flag events i s = (Ret (), s)" using il by (auto simp: fire_def get_slot_def bnd_def)
    moreover have "reacts flag events i (phases (sv_slots s)) (phases (sv_slots s))"
      using False on il by (auto simp: reacts_def)
    ultimately show ?thesis using stay by (simp add: wp_def)
  qed
qed

lemma fire_fired:
  assumes "table_ok (sv_slots s)" "i \<le> MAX_EVENTS" "flag = EPOLLIN \<or> flag = EPOLLOUT"
    and "and (sl_events (sv_slots s ! i)) flag \<noteq> 0 \<Longrightarrow> sl_status (sv_slots s ! i) = 1"
  shows "wp (fire flag events i) (fired i (sv_slots s)) s"
  by (rule wp_mono [OF fire_reacts [OF assms]]) simp_all

lemma dispatch_event_handled:
  assumes t: "table_ok (sv_slots s)" and i: "i \<le> MAX_EVENTS" and st: "sl_status (sv_slots s ! i) = 1" and e: "nat (snd e) = i"
  shows "wp (dispatch_event e) (\<lambda>out u. settled out \<and> handled i (sv_slots s) (sv_slots u) \<and>
     (out = Ret () \<longrightarrow> (\<exists>ps. reacts EPOLLIN (fst e) i (phases (sv_slots s)) ps \<and>
        reacts EPOLLOUT (fst e) i ps (phases (sv_slots u))))) s" (is "wp _ ?Q s")
proof -
  have il: "i < length (sv_slots s)" using t i by (simp add: table_ok_def)
  have ok: "slot_ok i (sv_slots s ! i)" by (rule slot_okD [OF t i])
  show ?thesis
    unfolding dispatch_event_def wp_thn e
  proof (rule wp_mono [OF fire_reacts [OF t i]], simp, use st in simp, elim conjE)
    fix out and u :: srv
    assume u: "fired i (sv_slots s) out u" "out = Ret () \<longrightarrow> reacts EPOLLIN (fst e) i (phases (sv_slots s)) (phases (sv_slots u))"
    then have tu: "settled out" "table_ok (sv_slots u)" "handled i (sv_slots s) (sv_slots u)" by (auto simp: fired_def handled_def)
    then have iu: "i < length (sv_slots u)" using i by (simp add: table_ok_def)
    show "case out of Ret x \<Rightarrow> wp (fire EPOLLOUT (fst e) i) ?Q u | Fail f \<Rightarrow> ?Q (Fail f) u"
    proof (cases out)
      case (Ret x)
      then have r: "reacts EPOLLIN (fst e) i (phases (sv_slots s)) (phases (sv_slots u))" using u(2) by simp
      have on: "sl_status (sv_slots u ! i) = 1" if m: "and (sl_events (sv_slots u ! i)) EPOLLOUT \<noteq> 0"
      proof (rule ccontr)
        assume n: "sl_status (sv_slots u ! i) \<noteq> 1"
        then have z: "sl_status (sv_slots u ! i) = 0" using slot_okD [OF tu(2) i] by (auto simp: slot_ok_def)
        then have "and (sl_events (sv_slots s ! i)) EPOLLOUT \<noteq> 0" using m u(1) by (simp add: fired_def)
        then have "phase_of (sv_slots s ! i) = Writing"
          using mask_wants [OF ok st, of EPOLLOUT] masks_differ by (cases "phase_of (sv_slots s ! i)") auto
        then have "phase_of (sv_slots u ! i) = Writing" using r il iu masks_differ by (auto simp: reacts_def dest: arg_cong [of _ _ "\<lambda>ps. ps ! i"])
        then show False using z by (simp add: phase_of_def)
      qed
      have "wp (fire EPOLLOUT (fst e) i) ?Q u"
        by (rule wp_mono [OF fire_reacts [OF tu(2) i]]) (use on r tu(3) handled_trans in \<open>auto simp: fired_def\<close>)
      then show ?thesis using Ret by simp
    qed (use tu in simp)
  qed
qed

lemma honest_batch_handled:
  "honest_batch evs (e # es) \<Longrightarrow> handled (nat (snd e)) evs evs' \<Longrightarrow> honest_batch evs' es"
proof -
  assume h: "honest_batch evs (e # es)" "handled (nat (snd e)) evs evs'"
  have "nat (snd x) \<le> MAX_EVENTS \<and> sl_status (evs' ! nat (snd x)) = 1" if x: "x \<in> set es" for x
  proof -
    have "nat (snd x) \<noteq> nat (snd e)" "nat (snd x) \<le> MAX_EVENTS" "sl_status (evs ! nat (snd x)) = 1"
      using h(1) x by (auto simp: honest_batch_def image_iff)
    then show ?thesis using h(2) by (simp add: handled_def keeps_others_def)
  qed
  then show ?thesis using h(1) by (simp add: honest_batch_def)
qed

text \<open>What a whole batch leaves behind.\<close>

definition good_turn :: "slot list \<Rightarrow> slot list \<Rightarrow> bool" where
  "good_turn evs evs' \<longleftrightarrow> table_ok evs' \<and>
     (sl_status (evs ! MAX_EVENTS) = 1 \<longrightarrow> evs' ! MAX_EVENTS = evs ! MAX_EVENTS)"

lemma good_turn_refl: "table_ok evs \<Longrightarrow> good_turn evs evs"
  by (simp add: good_turn_def)

lemma good_turn_trans: "good_turn a b \<Longrightarrow> good_turn b c \<Longrightarrow> good_turn a c"
  unfolding good_turn_def by auto

lemma handled_good_turn: "handled i a b \<Longrightarrow> good_turn a b"
  by (auto simp: handled_def good_turn_def keeps_others_def)

lemma dispatch_list_handled:
  assumes "table_ok (sv_slots s)" "honest_batch (sv_slots s) es"
  shows "wp (dispatch_list es) (\<lambda>out u. settled out \<and> good_turn (sv_slots s) (sv_slots u) \<and>
     (out = Ret () \<longrightarrow> batch es (phases (sv_slots s)) (phases (sv_slots u)))) s"
  using assms
proof (induction es arbitrary: s)
  case Nil
  then show ?case by (simp add: wp_def good_turn_refl)
next
  case (Cons e es)
  let ?Q = "\<lambda>out w. settled out \<and> good_turn (sv_slots s) (sv_slots w) \<and>
     (out = Ret () \<longrightarrow> batch (e # es) (phases (sv_slots s)) (phases (sv_slots w)))"
  have e: "nat (snd e) \<le> MAX_EVENTS" "sl_status (sv_slots s ! nat (snd e)) = 1"
    using Cons.prems(2) by (auto simp: honest_batch_def)
  show ?case
    unfolding dispatch_list.simps wp_thn
  proof (rule wp_mono [OF dispatch_event_handled [OF Cons.prems(1) e refl]], elim conjE)
    fix out and u :: srv
    assume u: "settled out" "handled (nat (snd e)) (sv_slots s) (sv_slots u)"
      and r: "out = Ret () \<longrightarrow> (\<exists>ps. reacts EPOLLIN (fst e) (nat (snd e)) (phases (sv_slots s)) ps \<and>
        reacts EPOLLOUT (fst e) (nat (snd e)) ps (phases (sv_slots u)))"
    have g: "good_turn (sv_slots s) (sv_slots u)" using u(2) by (rule handled_good_turn)
    show "case out of Ret x \<Rightarrow> wp (dispatch_list es) ?Q u | Fail f \<Rightarrow> ?Q (Fail f) u"
    proof (cases out)
      case (Ret x)
      have "wp (dispatch_list es) ?Q u"
      proof (rule wp_mono [OF Cons.IH])
        show "table_ok (sv_slots u)" using g by (simp add: good_turn_def)
        show "honest_batch (sv_slots u) es" using Cons.prems(2) u(2) by (rule honest_batch_handled)
        fix o2 and w :: srv
        assume "settled o2 \<and> good_turn (sv_slots u) (sv_slots w) \<and> (o2 = Ret () \<longrightarrow> batch es (phases (sv_slots u)) (phases (sv_slots w)))"
        then show "?Q o2 w" using g r Ret good_turn_trans by auto
      qed
      then show ?thesis using Ret by simp
    qed (use u(1) g in simp)
  qed
qed

subsection \<open>The server loop\<close>

text \<open>No handler gives replies back to the script, and \<open>dispatch_events\<close> takes at least one.\<close>

definition script_bound :: "nat \<Rightarrow> srv \<Rightarrow> bool" where
  "script_bound n s \<longleftrightarrow> length (w_script (sv_world s)) \<le> n"

lemma srv_sys_bound: "keeps (script_bound n) (srv_sys c)"
proof (rule keepsI)
  fix s assume "script_bound n s"
  then show "script_bound n (snd (srv_sys c s))"
    by (cases rule: sys_cases [of "sv_world s" c]) (auto simp: script_bound_def srv_sys_def zoom_def)
qed

lemma slot_bound: "keeps (script_bound n) (get_slot i)" "keeps (script_bound n) (change_slot i f)"
  by (auto simp: get_slot_def change_slot_def script_bound_def intro!: keeps_rules)

lemmas bound_rules = keeps_rules srv_sys_bound slot_bound

lemma event_bound:
  "keeps (script_bound n) (event_add events i)" "keeps (script_bound n) (event_del i)"
  "keeps (script_bound n) (set_event i fd h a)"
  by (auto simp: event_add_def event_del_def set_event_def set_epoll_def intro!: bound_rules)

lemma call_handler_bound: "keeps (script_bound n) (call_handler h fd arg)"
  by (cases h)
    (auto simp: call_handler_def handle_accept_def handle_recv_def handle_send_def set_non_block_def
      store_bytes_def terminate_buf_def close_slot_def intro!: bound_rules event_bound)

lemma dispatch_list_bound: "keeps (script_bound n) (dispatch_list es)"
proof (induction es)
  case Nil
  then show ?case by (simp add: keeps_def)
next
  case (Cons e es)
  then show ?case by (auto simp: dispatch_event_def fire_def intro!: bound_rules call_handler_bound)
qed

lemma dispatch_events_shrinks:
  assumes "dispatch_events s = (Ret b, t)"
  shows "length (w_script (sv_world t)) < length (w_script (sv_world s))"
proof (cases rule: sys_cases [of "sv_world s" "Epoll_wait (sv_efd s) (Suc MAX_EVENTS) 1000", case_names reply stuck])
  case (reply r rs)
  let ?u = "s\<lparr>sv_world := answered (Epoll_wait (sv_efd s) (Suc MAX_EVENTS) 1000) r (sv_world s)\<rparr>"
  let ?es = "take (nat (rp_rc r)) (events_of (rp_data r))"
  have "script_bound (length rs) ?u" using reply by (simp add: script_bound_def)
  then have "script_bound (length rs) (snd (dispatch_list ?es ?u))" by (rule keepsD [OF dispatch_list_bound])
  moreover have "t = ?u \<or> t = snd (dispatch_list ?es ?u)"
    using assms reply(3)
    by (auto simp: dispatch_events_def bnd_apply thn_apply srv_sys_def zoom_def split: if_splits prod.splits outcome.splits)
  ultimately show ?thesis using reply(1) by (auto simp: script_bound_def)
next
  case stuck
  then show ?thesis using assms by (simp add: dispatch_events_def bnd_apply srv_sys_def zoom_def)
qed

text \<open>\<open>run\<close>: the loop ends with the script, or when \<open>epoll_wait\<close> fails.\<close>

function srv_run :: "srv \<Rightarrow> unit outcome \<times> srv" where
  "srv_run s = (case dispatch_events s of
       (Ret True, t) \<Rightarrow> srv_run t
     | (Ret False, t) \<Rightarrow> (Ret (), t)
     | (Fail e, t) \<Rightarrow> (Fail e, t))"
  by pat_completeness auto

termination srv_run
  by (relation "measure (\<lambda>s. length (w_script (sv_world s)))")
    (auto dest!: dispatch_events_shrinks [OF sym])

declare srv_run.simps [simp del]

definition watch_listener :: "int \<Rightarrow> unit srv_prog" where
  "watch_listener fd = thn (set_event MAX_EVENTS fd Handle_Accept MAX_EVENTS) (event_add EPOLLIN MAX_EVENTS)"

definition start_server :: "16 word \<Rightarrow> int srv_prog" where
  "start_server port = bnd (init_listen_socket port) (\<lambda>fd.
     if fd < 0 then ret (-1)
     else bnd init_epoll (\<lambda>ok.
       if \<not> ok then ret (-1)
       else thn (watch_listener fd) (thn srv_run (ret 0))))"


subsection \<open>Reachable tables\<close>

text \<open>The kernel reports registered slots, each at most once in a batch.\<close>

definition honest_wait :: "srv \<Rightarrow> bool" where
  "honest_wait s \<longleftrightarrow> (case w_script (sv_world s) of [] \<Rightarrow> True
     | r # rs \<Rightarrow> honest_batch (sv_slots s) (take (nat (rp_rc r)) (events_of (rp_data r))))"

inductive srv_reach :: "srv \<Rightarrow> bool" where
  started: "sv_slots s = replicate (Suc MAX_EVENTS) slot_init \<Longrightarrow>
     watch_listener fd s = (Ret (), t) \<Longrightarrow> srv_reach t"
| turned: "srv_reach s \<Longrightarrow> honest_wait s \<Longrightarrow> dispatch_events s = (Ret b, t) \<Longrightarrow> srv_reach t"

definition listening :: "slot list \<Rightarrow> bool" where
  "listening evs \<longleftrightarrow> sl_status (evs ! MAX_EVENTS) = 1 \<and> sl_call (evs ! MAX_EVENTS) = Handle_Accept \<and>
     sl_events (evs ! MAX_EVENTS) = EPOLLIN"

lemma watch_listener_table:
  assumes "sv_slots s = replicate (Suc MAX_EVENTS) slot_init"
  shows "wp (watch_listener fd) (\<lambda>out t. table_ok (sv_slots t) \<and> listening (sv_slots t)) s"
proof -
  let ?evs = "replicate (Suc MAX_EVENTS) slot_init"
  let ?arm = "armed MAX_EVENTS fd Handle_Accept EPOLLIN slot_init"
  have "table_ok (?evs[MAX_EVENTS := ?arm])"
    by (auto simp: table_ok_def slot_ok_def nth_list_update armed_def slot_init_def zero_bytes_def simp del: replicate.simps)
  moreover have "listening (?evs[MAX_EVENTS := ?arm])"
    by (simp add: listening_def armed_def del: replicate.simps)
  moreover have "wp (watch_listener fd) (\<lambda>out t. settled out \<and> sv_slots t = ?evs[MAX_EVENTS := ?arm]) s"
    unfolding watch_listener_def
    by (rule arm_slot) (use assms in \<open>auto simp: list_update_same_conv slot_init_def simp del: replicate.simps
        intro!: nth_equalityI simp: nth_list_update\<close>)
  ultimately show ?thesis by (elim wp_mono) simp
qed

text \<open>The events that the next \<open>epoll_wait\<close> reports.\<close>

definition next_events :: "srv \<Rightarrow> (nat \<times> int) list" where
  "next_events s = (case w_script (sv_world s) of [] \<Rightarrow> [] | r # rs \<Rightarrow> take (nat (rp_rc r)) (events_of (rp_data r)))"

lemma dispatch_events_good:
  assumes "table_ok (sv_slots s)" "honest_wait s"
  shows "wp dispatch_events (\<lambda>out t. good_turn (sv_slots s) (sv_slots t) \<and>
     (case out of Ret True \<Rightarrow> batch (next_events s) (phases (sv_slots s)) (phases (sv_slots t))
        | Ret False \<Rightarrow> sv_slots t = sv_slots s | Fail e \<Rightarrow> e = Pending \<or> e = Undef Out_of_bounds)) s"
    (is "wp _ ?Q s")
proof (cases rule: sys_cases [of "sv_world s" "Epoll_wait (sv_efd s) (Suc MAX_EVENTS) 1000", case_names reply stuck])
  case (reply r rs)
  let ?u = "s\<lparr>sv_world := answered (Epoll_wait (sv_efd s) (Suc MAX_EVENTS) 1000) r (sv_world s)\<rparr>"
  let ?es = "take (nat (rp_rc r)) (events_of (rp_data r))"
  have w: "srv_sys (Epoll_wait (sv_efd s) (Suc MAX_EVENTS) 1000) s = (Ret r, ?u)"
    using reply(3) by (simp add: srv_sys_def zoom_def)
  have es: "next_events s = ?es" using reply(1) by (simp add: next_events_def)
  have "wp (dispatch_list ?es) (\<lambda>out u. settled out \<and> good_turn (sv_slots s) (sv_slots u) \<and>
      (out = Ret () \<longrightarrow> batch ?es (phases (sv_slots s)) (phases (sv_slots u)))) ?u"
    using dispatch_list_handled [of ?u ?es] assms reply(1) by (simp add: honest_wait_def)
  then have "wp (thn (dispatch_list ?es) (ret True)) ?Q ?u"
    unfolding wp_thn by (rule wp_mono) (auto simp: wp_def settled_def es split: outcome.splits)
  then show ?thesis
    using w good_turn_refl [OF assms(1)] by (simp add: dispatch_events_def wp_def bnd_apply)
next
  case stuck
  then show ?thesis
    using good_turn_refl [OF assms(1)]
    by (simp add: dispatch_events_def wp_def bnd_apply srv_sys_def zoom_def)
qed

lemma srv_reach_listening: "srv_reach s \<Longrightarrow> table_ok (sv_slots s) \<and> listening (sv_slots s)"
proof (induction rule: srv_reach.induct)
  case (started s fd t)
  then show ?case using wpD [OF watch_listener_table] by blast
next
  case (turned s b t)
  then have "good_turn (sv_slots s) (sv_slots t)" using wpD [OF dispatch_events_good] by blast
  then show ?case using turned.IH by (auto simp: good_turn_def listening_def)
qed


subsection \<open>Exact runs\<close>

lemma srv_sys_reply:
  "w_script (sv_world s) = r # rs \<Longrightarrow> reply_ok c r \<Longrightarrow>
     srv_sys c s = (Ret r, s\<lparr>sv_world := answered c r (sv_world s)\<rparr>)"
  by (simp add: srv_sys_def zoom_def sys_reply)

lemma get_slot_apply: "i < length (sv_slots s) \<Longrightarrow> get_slot i s = (Ret (sv_slots s ! i), s)"
  by (simp add: get_slot_def bnd_apply)

lemma change_slot_apply:
  "i < length (sv_slots s) \<Longrightarrow>
     change_slot i f s = (Ret (), s\<lparr>sv_slots := (sv_slots s)[i := f (sv_slots s ! i)]\<rparr>)"
  by (simp add: change_slot_def bnd_apply get_slot_apply)

lemma event_add_apply:
  assumes "i < length (sv_slots s)" "sl_status (sv_slots s ! i) = 0" "w_script (sv_world s) = r # rs" "status_ok r"
  shows "event_add events i s = (Ret (), s\<lparr>sv_slots := (sv_slots s)[i := (sv_slots s ! i)\<lparr>sl_status := 1, sl_events := events\<rparr>],
     sv_world := answered (Epoll_ctl (sv_efd s) EPOLL_CTL_ADD (sl_fd (sv_slots s ! i)) events (int i)) r (sv_world s)\<rparr>)"
  using assms
  by (simp add: event_add_def bnd_apply thn_apply get_slot_apply change_slot_apply set_epoll_def srv_sys_reply)

lemma event_del_apply:
  assumes "i < length (sv_slots s)" "sl_status (sv_slots s ! i) = 1" "w_script (sv_world s) = r # rs" "status_ok r"
  shows "event_del i s = (Ret (), s\<lparr>sv_slots := (sv_slots s)[i := (sv_slots s ! i)\<lparr>sl_status := 0\<rparr>],
     sv_world := answered (Epoll_ctl (sv_efd s) EPOLL_CTL_DEL (sl_fd (sv_slots s ! i)) 0 (int i)) r (sv_world s)\<rparr>)"
  using assms
  by (simp add: event_del_def bnd_apply thn_apply get_slot_apply change_slot_apply set_epoll_def srv_sys_reply)

lemma close_slot_apply:
  assumes "i < length (sv_slots s)" "w_script (sv_world s) = r # rs" "status_ok r"
  shows "close_slot i s = (Ret (), s\<lparr>sv_world := answered (Close (sl_fd (sv_slots s ! i))) r (sv_world s)\<rparr>)"
  using assms by (simp add: close_slot_def bnd_apply get_slot_apply srv_sys_reply)

lemma set_event_apply:
  "i < length (sv_slots s) \<Longrightarrow> set_event i fd call arg s =
     (Ret (), s\<lparr>sv_slots := (sv_slots s)[i := (sv_slots s ! i)
       \<lparr>sl_fd := fd, sl_call := call, sl_events := 0, sl_arg := Some arg, sl_status := 0\<rparr>]\<rparr>)"
  by (simp add: set_event_def change_slot_apply)

lemmas exact_run = bnd_apply thn_apply srv_sys_reply get_slot_apply change_slot_apply event_add_apply
  event_del_apply close_slot_apply set_event_apply

text \<open>The slot after \<open>bs\<close> was received on it.\<close>

definition echoing :: "nat \<Rightarrow> int \<Rightarrow> string \<Rightarrow> slot \<Rightarrow> slot" where
  "echoing i fd bs x = x\<lparr>sl_len := int (length bs),
     sl_buf := bs @ CHR 0x00 # drop (Suc (length bs)) (sl_buf x), sl_fd := fd, sl_call := Handle_Send,
     sl_arg := Some i, sl_status := 1, sl_events := EPOLLOUT\<rparr>"

lemma store_and_terminate:
  assumes "i < length (sv_slots s)" "length (sl_buf (sv_slots s ! i)) = BUFF_LEN" "length bs < BUFF_LEN"
  shows "mem_write 0 bs (sl_buf (sv_slots s ! i)) = Some (bs @ drop (length bs) (sl_buf (sv_slots s ! i)))"
    "mem_write (length bs) [CHR 0x00] (bs @ drop (length bs) (sl_buf (sv_slots s ! i))) =
       Some (bs @ CHR 0x00 # drop (Suc (length bs)) (sl_buf (sv_slots s ! i)))"
  using assms by simp_all

lemma handle_recv_exact:
  assumes i: "i < length (sv_slots s)" and buf: "length (sl_buf (sv_slots s ! i)) = BUFF_LEN"
    and st: "sl_status (sv_slots s ! i) = 1"
    and scr: "w_script (sv_world s) = r # d # a # rs" "reply_ok (Recv fd BUFF_LEN 0) r" "status_ok d" "status_ok a"
    and bs: "bytes_of (rp_data r) = bs" "rp_rc r = int (length bs)" "bs \<noteq> []" "length bs < BUFF_LEN"
  shows "handle_recv fd i s = (Ret (), s\<lparr>sv_slots := (sv_slots s)[i := echoing i fd bs (sv_slots s ! i)],
     sv_world := answered (Epoll_ctl (sv_efd s) EPOLL_CTL_ADD fd EPOLLOUT (int i)) a
       (answered (Epoll_ctl (sv_efd s) EPOLL_CTL_DEL (sl_fd (sv_slots s ! i)) 0 (int i)) d
       (answered (Recv fd BUFF_LEN 0) r (sv_world s)))\<rparr>)"
  using assms store_and_terminate [OF i buf bs(4)]
  by (simp add: handle_recv_def store_bytes_def terminate_buf_def exact_run echoing_def del: mem_write_Some reply_ok.simps)


lemma handle_send_exact:
  assumes i: "i < length (sv_slots s)" and slot: "sv_slots s ! i = echoing i fd bs x"
    and bs: "bs \<noteq> []" "length bs < BUFF_LEN"
    and scr: "w_script (sv_world s) = q # d # a # rs" "reply_ok (Send fd bs 0) q" "status_ok d" "status_ok a"
  shows "\<exists>u. handle_send fd i s = (Ret (), u) \<and>
     phase_of (sv_slots u ! i) = (if 0 < rp_rc q then Reading else Free) \<and>
     w_trace (sv_world u) = w_trace (sv_world s) @ [(Send fd bs 0, q),
       (Epoll_ctl (sv_efd s) EPOLL_CTL_DEL fd 0 (int i), d),
       (if 0 < rp_rc q then Epoll_ctl (sv_efd s) EPOLL_CTL_ADD fd EPOLLIN (int i) else Close fd, a)]"
proof -
  have bs': "length bs < size_max" using bs(2) by (simp add: BUFF_LEN_def size_max_def)
  have rd: "mem_read 0 (size_of_int (int (length bs))) (sl_buf (sv_slots s ! i)) = Some bs"
    using bs' slot by (simp add: mem_read_def echoing_def)
  show ?thesis
    using i slot scr rd
    by (cases "0 < rp_rc q")
      (simp_all add: handle_send_def exact_run echoing_def phase_of_def del: mem_read_Some size_of_int_small reply_ok.simps)
qed

subsection \<open>Properties\<close>

text \<open>A server that listens on descriptor 4; its next turn accepts a connection.\<close>

definition sample_srv :: srv where
  "sample_srv = (srv_init (boot (map (\<lambda>(rc, d). \<lparr>rp_rc = rc, rp_err = 0, rp_data = d\<rparr>)
     [(0, No_data), (1, Events [(EPOLLIN, int MAX_EVENTS)]), (7, No_data), (2, No_data), (0, No_data), (0, No_data)])))\<lparr>sv_efd := 3\<rparr>"

definition sample_listening :: srv where
  "sample_listening = snd (watch_listener 4 sample_srv)"

text \<open>C20. A turn of the plain epoll server, in every table reached from the start, when the batch names registered slots at most
  once: the table stays well formed and the listening slot registered. If the turn returns \<open>true\<close>, the slots have gone through
  exactly the steps of \<open>batch\<close> for the reported events, in their order: a slot that reads and is reported readable either
  starts to write or becomes free, one that writes and is reported writable either reads again or becomes free (by the same
  report also right after it was received), the listening slot leaves the table alone or takes the first free slot, which
  then reads, and no other slot changes its phase. If it returns \<open>false\<close>, nothing has changed. It never calls a null
  handler; the only undefined step it can take is the write behind the buffer.\<close>

theorem srv_turn_safe:
  assumes "srv_reach s" "honest_wait s" "dispatch_events s = (out, t)"
  shows "table_ok (sv_slots t) \<and> listening (sv_slots t) \<and>
    (case out of Ret True \<Rightarrow> batch (next_events s) (phases (sv_slots s)) (phases (sv_slots t))
       | Ret False \<Rightarrow> sv_slots t = sv_slots s | Fail e \<Rightarrow> e = Pending \<or> e = Undef Out_of_bounds)"
proof -
  have s: "table_ok (sv_slots s)" "listening (sv_slots s)" using srv_reach_listening [OF assms(1)] by simp_all
  show ?thesis
    using wpD [OF dispatch_events_good [OF s(1) assms(2)] assms(3)] s(2) by (auto simp: good_turn_def listening_def)
qed

text \<open>C23. The echo: after a read of fewer than \<open>BUFF_LEN\<close> bytes, \<open>handle_recv\<close> registers the slot for
  writing and \<open>handle_send\<close> sends exactly the bytes that were read. If the send takes any byte at all the slot
  goes back to reading, what was not taken is lost; otherwise the descriptor is closed and the slot is free.\<close>

theorem srv_echo_roundtrip:
  assumes "i < length (sv_slots s)" "length (sl_buf (sv_slots s ! i)) = BUFF_LEN"
    and "sl_status (sv_slots s ! i) = 1" "sl_fd (sv_slots s ! i) = fd"
    and "w_script (sv_world s) = r # d # a # q # d' # a' # rs" "reply_ok (Recv fd BUFF_LEN 0) r" "reply_ok (Send fd bs 0) q"
    and "status_ok d" "status_ok a" "status_ok d'" "status_ok a'"
    and "rp_data r = Bytes bs" "rp_rc r = int (length bs)" "bs \<noteq> []" "length bs < BUFF_LEN"
  shows "\<exists>t u. handle_recv fd i s = (Ret (), t) \<and> phase_of (sv_slots t ! i) = Writing \<and>
    handle_send fd i t = (Ret (), u) \<and> phase_of (sv_slots u ! i) = (if 0 < rp_rc q then Reading else Free) \<and>
    w_trace (sv_world u) = w_trace (sv_world s) @
      [(Recv fd BUFF_LEN 0, r), (Epoll_ctl (sv_efd s) EPOLL_CTL_DEL fd 0 (int i), d),
       (Epoll_ctl (sv_efd s) EPOLL_CTL_ADD fd EPOLLOUT (int i), a), (Send fd bs 0, q),
       (Epoll_ctl (sv_efd s) EPOLL_CTL_DEL fd 0 (int i), d'),
       (if 0 < rp_rc q then Epoll_ctl (sv_efd s) EPOLL_CTL_ADD fd EPOLLIN (int i) else Close fd, a')]"
proof -
  let ?x = "sv_slots s ! i"
  let ?t = "s\<lparr>sv_slots := (sv_slots s)[i := echoing i fd bs ?x],
     sv_world := answered (Epoll_ctl (sv_efd s) EPOLL_CTL_ADD fd EPOLLOUT (int i)) a
       (answered (Epoll_ctl (sv_efd s) EPOLL_CTL_DEL fd 0 (int i)) d (answered (Recv fd BUFF_LEN 0) r (sv_world s)))\<rparr>"
  have t: "handle_recv fd i s = (Ret (), ?t)"
    using handle_recv_exact [of i s r d a "q # d' # a' # rs" fd bs] assms by simp
  have x: "sv_slots ?t ! i = echoing i fd bs ?x" using assms(1) by simp
  obtain u where u: "handle_send fd i ?t = (Ret (), u)"
      "phase_of (sv_slots u ! i) = (if 0 < rp_rc q then Reading else Free)"
      "w_trace (sv_world u) = w_trace (sv_world ?t) @ [(Send fd bs 0, q),
       (Epoll_ctl (sv_efd ?t) EPOLL_CTL_DEL fd 0 (int i), d'),
       (if 0 < rp_rc q then Epoll_ctl (sv_efd ?t) EPOLL_CTL_ADD fd EPOLLIN (int i) else Close fd, a')]"
    using handle_send_exact [of i ?t fd bs ?x q d' a' rs, OF _ x] assms by auto
  have "phase_of (sv_slots ?t ! i) = Writing" using x by (simp add: phase_of_def echoing_def)
  then show ?thesis using t u by (intro exI [of _ ?t] exI [of _ u] conjI) simp_all
qed

text \<open>C24. The overflow of the slot buffer: \<open>handle_recv\<close> writes its terminating zero outside the slot buffer,
  into the field behind it, exactly when the peer sent a full buffer of \<open>BUFF_LEN\<close> bytes at once.\<close>

theorem srv_recv_overflow:
  assumes "i < length (sv_slots s)" "length (sl_buf (sv_slots s ! i)) = BUFF_LEN" "sl_status (sv_slots s ! i) = 1"
    and "w_script (sv_world s) = r # d # a # rs" "reply_ok (Recv fd BUFF_LEN 0) r" "status_ok d" "status_ok a"
  shows "fst (handle_recv fd i s) = Fail (Undef Out_of_bounds) \<longleftrightarrow> rp_rc r = int BUFF_LEN"
proof -
  let ?bs = "bytes_of (rp_data r)" and ?x = "sv_slots s ! i"
  have le: "rp_rc r \<le> int BUFF_LEN" "length ?bs \<le> BUFF_LEN" "0 \<le> rp_rc r \<longrightarrow> int (length ?bs) = rp_rc r"
    using assms(5) by (auto simp: transfer_ok_def)
  have st: "mem_write 0 ?bs (sl_buf ?x) = Some (?bs @ drop (length ?bs) (sl_buf ?x))" using le assms(2) by simp
  consider "rp_rc r \<le> 0" | "0 < rp_rc r" "rp_rc r < int BUFF_LEN" | "rp_rc r = int BUFF_LEN" using le by linarith
  then show ?thesis
  proof cases
    case 1
    then have "fst (handle_recv fd i s) = Ret ()"
      using assms st by (simp add: handle_recv_def store_bytes_def exact_run del: mem_write_Some reply_ok.simps)
    then show ?thesis using 1 by (simp add: BUFF_LEN_def)
  next
    case 2
    then have "?bs \<noteq> []" "length ?bs < BUFF_LEN" "rp_rc r = int (length ?bs)" using le by auto
    then show ?thesis using handle_recv_exact [of i s r d a rs fd ?bs] assms by simp
  next
    case 3
    then have bs: "length ?bs = BUFF_LEN" using le by simp
    have "mem_write (nat (int BUFF_LEN)) [CHR 0x00] ?bs = None" using bs by (simp add: mem_write_def)
    moreover have "0 < int BUFF_LEN" by (simp add: BUFF_LEN_def)
    ultimately show ?thesis
      using assms st bs 3
      by (simp add: handle_recv_def store_bytes_def terminate_buf_def exact_run del: mem_write_Some reply_ok.simps)
  qed
qed

text \<open>The limit of connections: when all connection slots are taken, \<open>handle_accept\<close> accepts the connection
  and forgets it. The descriptor is neither registered nor closed, nor is the peer told.\<close>

theorem srv_accept_full:
  assumes "\<forall>ev \<in> set (take MAX_EVENTS (sv_slots s)). sl_status ev \<noteq> 0" "MAX_EVENTS \<le> length (sv_slots s)"
    and "w_script (sv_world s) = r # rs" "reply_ok (Accept fd) r"
  shows "handle_accept fd s = (Ret (), s\<lparr>sv_world := answered (Accept fd) r (sv_world s)\<rparr>)"
proof -
  have "free_slot 0 (take MAX_EVENTS (sv_slots s)) = MAX_EVENTS"
    using free_slot_full [of 0 "take MAX_EVENTS (sv_slots s)"] assms(1,2) by simp
  then show ?thesis using assms(3,4) by (simp add: handle_accept_def exact_run del: reply_ok.simps)
qed


lemma dispatch_events_False:
  assumes "dispatch_events s = (Ret False, t)"
  shows "\<exists>r. rp_rc r < 0 \<and> t = s\<lparr>sv_world := answered (Epoll_wait (sv_efd s) (Suc MAX_EVENTS) 1000) r (sv_world s)\<rparr>"
proof (cases rule: sys_cases [of "sv_world s" "Epoll_wait (sv_efd s) (Suc MAX_EVENTS) 1000", case_names reply stuck])
  case (reply r rs)
  then show ?thesis
    using assms
    by (auto simp: dispatch_events_def bnd_apply thn_apply srv_sys_def zoom_def
        split: if_splits prod.splits outcome.splits intro!: exI [of _ r])
next
  case stuck
  then show ?thesis using assms by (simp add: dispatch_events_def bnd_apply srv_sys_def zoom_def)
qed

text \<open>How the loop ends, read off the trace of the calls. Only \<open>dispatch_events\<close> waits; the handlers never do.\<close>

fun failed_wait :: "syscall \<times> reply \<Rightarrow> bool" where
  "failed_wait (Epoll_wait efd n timeout, r) \<longleftrightarrow> rp_rc r < 0"
| "failed_wait _ \<longleftrightarrow> False"

fun is_wait :: "syscall \<Rightarrow> bool" where
  "is_wait (Epoll_wait efd n timeout) \<longleftrightarrow> True"
| "is_wait _ \<longleftrightarrow> False"

lemma failed_wait_is_wait: "failed_wait x \<Longrightarrow> is_wait (fst x)"
  by (cases x rule: failed_wait.cases) simp_all

definition extends :: "(syscall \<times> reply) list \<Rightarrow> srv \<Rightarrow> bool" where
  "extends tr s \<longleftrightarrow> (\<exists>cs. w_trace (sv_world s) = tr @ cs \<and> (\<forall>c\<in>set cs. \<not> is_wait (fst c)))"

lemma srv_sys_extends: "\<not> is_wait c \<Longrightarrow> keeps (extends tr) (srv_sys c)"
proof (rule keepsI)
  fix s assume "\<not> is_wait c" "extends tr s"
  then show "extends tr (snd (srv_sys c s))"
    by (cases rule: sys_cases [of "sv_world s" c]) (auto simp: extends_def srv_sys_def zoom_def)
qed

lemma slot_extends: "keeps (extends tr) (get_slot i)" "keeps (extends tr) (change_slot i f)"
  by (auto simp: get_slot_def change_slot_def extends_def intro!: keeps_rules)

lemmas extends_rules = keeps_rules srv_sys_extends slot_extends

lemma event_extends:
  "keeps (extends tr) (event_add events i)" "keeps (extends tr) (event_del i)"
  "keeps (extends tr) (set_event i fd h a)"
  by (auto simp: event_add_def event_del_def set_event_def set_epoll_def intro!: extends_rules)

lemma call_handler_extends: "keeps (extends tr) (call_handler h fd arg)"
  by (cases h)
    (auto simp: call_handler_def handle_accept_def handle_recv_def handle_send_def set_non_block_def
      store_bytes_def terminate_buf_def close_slot_def intro!: extends_rules event_extends)

lemma dispatch_list_extends: "keeps (extends tr) (dispatch_list es)"
proof (induction es)
  case Nil
  then show ?case by (simp add: keeps_def)
next
  case (Cons e es)
  then show ?case by (auto simp: dispatch_event_def fire_def intro!: extends_rules call_handler_extends)
qed

lemma dispatch_events_trace:
  assumes "dispatch_events s = (out, t)"
  shows "\<exists>cs. w_trace (sv_world t) = w_trace (sv_world s) @ cs \<and>
     (if out = Ret False then \<exists>x. cs = [x] \<and> failed_wait x else \<forall>x\<in>set cs. \<not> failed_wait x)"
proof (cases rule: sys_cases [of "sv_world s" "Epoll_wait (sv_efd s) (Suc MAX_EVENTS) 1000", case_names reply stuck])
  case (reply r rs)
  let ?c = "Epoll_wait (sv_efd s) (Suc MAX_EVENTS) 1000"
  let ?u = "s\<lparr>sv_world := answered ?c r (sv_world s)\<rparr>"
  let ?es = "take (nat (rp_rc r)) (events_of (rp_data r))"
  have w: "srv_sys ?c s = (Ret r, ?u)" using reply(3) by (simp add: srv_sys_def zoom_def)
  show ?thesis
  proof (cases "rp_rc r < 0")
    case True
    then have "out = Ret False" "t = ?u" using assms w by (auto simp: dispatch_events_def bnd_apply)
    then show ?thesis using True by simp
  next
    case False
    then have d: "thn (dispatch_list ?es) (ret True) ?u = (out, t)" using assms w by (simp add: dispatch_events_def bnd_apply)
    then have t: "t = snd (dispatch_list ?es ?u)" "out \<noteq> Ret False"
      by (auto simp: thn_apply split: prod.splits outcome.splits)
    have "extends (w_trace (sv_world ?u)) ?u" by (simp add: extends_def)
    then have "extends (w_trace (sv_world ?u)) t" using keepsD [OF dispatch_list_extends] t(1) by blast
    then obtain cs where cs: "w_trace (sv_world t) = w_trace (sv_world ?u) @ cs" "\<forall>c\<in>set cs. \<not> is_wait (fst c)"
      by (auto simp: extends_def)
    then have "\<forall>x\<in>set ((?c, r) # cs). \<not> failed_wait x" using False failed_wait_is_wait by auto
    then show ?thesis using t(2) cs(1) by (intro exI [of _ "(?c, r) # cs"]) simp
  qed
next
  case stuck
  then show ?thesis using assms by (auto simp: dispatch_events_def bnd_apply srv_sys_def zoom_def)
qed

text \<open>C36. How the loop of the plain server ends: \<open>run\<close> returns exactly when a call of \<open>epoll_wait\<close> fails, whatever the error number is (so
  a signal, \<open>EINTR\<close>, ends the server as well), and it returns at once: the failed wait is the last call it makes, and no wait
  before it has failed. Read off the calls of the run, whatever the system answers.\<close>

theorem srv_run_ends:
  assumes "srv_run s = (out, t)"
  shows "\<exists>calls. w_trace (sv_world t) = w_trace (sv_world s) @ calls \<and>
    (out = Ret () \<longleftrightarrow> calls \<noteq> [] \<and> failed_wait (last calls)) \<and> (\<forall>c\<in>set (butlast calls). \<not> failed_wait c)"
  using assms
proof (induction s arbitrary: out t rule: srv_run.induct)
  case (1 s)
  obtain d u where d: "dispatch_events s = (d, u)" by (rule prod.exhaust)
  obtain cs where cs: "w_trace (sv_world u) = w_trace (sv_world s) @ cs"
    "if d = Ret False then \<exists>x. cs = [x] \<and> failed_wait x else \<forall>x\<in>set cs. \<not> failed_wait x"
    using dispatch_events_trace [OF d] by blast
  consider "d = Ret True" | "d = Ret False" | e where "d = Fail e" by (metis (full_types) outcome.exhaust)
  then show ?case
  proof cases
    case 1
    then have "srv_run u = (out, t)" using "1.prems" d by (simp add: srv_run.simps [of s])
    from "1.IH" [OF d [symmetric] 1 _ this] obtain ds where ds: "w_trace (sv_world t) = w_trace (sv_world u) @ ds"
      "out = Ret () \<longleftrightarrow> ds \<noteq> [] \<and> failed_wait (last ds)" "\<forall>c\<in>set (butlast ds). \<not> failed_wait c" by auto
    have no: "\<forall>x\<in>set cs. \<not> failed_wait x" using cs(2) 1 by simp
    have "out = Ret () \<longleftrightarrow> cs @ ds \<noteq> [] \<and> failed_wait (last (cs @ ds))"
      using ds(2) no by (cases "ds = []"; cases "cs = []") (auto simp: last_append)
    moreover have "\<forall>c\<in>set (butlast (cs @ ds)). \<not> failed_wait c"
      using ds(3) no by (cases "ds = []") (auto simp: butlast_append dest: in_set_butlastD)
    ultimately show ?thesis using cs(1) ds(1) by (intro exI [of _ "cs @ ds"]) simp
  next
    case 2
    then have "out = Ret ()" "t = u" using "1.prems" d by (simp_all add: srv_run.simps [of s])
    then show ?thesis using cs 2 by auto
  next
    case 3
    then have o: "out = Fail e" "t = u" using "1.prems" d by (simp_all add: srv_run.simps [of s])
    have no: "\<forall>x\<in>set cs. \<not> failed_wait x" using cs(2) 3 by simp
    then have "cs \<noteq> [] \<Longrightarrow> \<not> failed_wait (last cs)" by simp
    then show ?thesis using o cs(1) no by (intro exI [of _ cs]) (auto dest: in_set_butlastD)
  qed
qed

subsection \<open>Witnesses\<close>

lemma srv_accept_full_witness:
  "let s = \<lparr>sv_slots = replicate (Suc MAX_EVENTS) (slot_init\<lparr>sl_status := 1\<rparr>), sv_efd = 3,
       sv_world = boot [\<lparr>rp_rc = 9, rp_err = 0, rp_data = No_data\<rparr>]\<rparr>
   in sv_slots (snd (handle_accept 4 s)) = sv_slots s \<and> map fst (w_trace (sv_world (snd (handle_accept 4 s)))) = [Accept 4]"
proof -
  let ?s = "\<lparr>sv_slots = replicate (Suc MAX_EVENTS) (slot_init\<lparr>sl_status := 1\<rparr>), sv_efd = 3,
       sv_world = boot [\<lparr>rp_rc = 9, rp_err = 0, rp_data = No_data\<rparr>]\<rparr>"
  have "handle_accept 4 ?s = (Ret (), ?s\<lparr>sv_world := answered (Accept 4) \<lparr>rp_rc = 9, rp_err = 0, rp_data = No_data\<rparr> (sv_world ?s)\<rparr>)"
    by (rule srv_accept_full [where rs = "[]"]) (auto simp: boot_def dest: in_set_takeD simp del: replicate.simps)
  then show ?thesis by (simp add: Let_def)
qed

text \<open>A slot that reads descriptor 7, in a table of one slot, and the answers to an echo of two bytes.\<close>

definition sample_echo :: srv where
  "sample_echo = \<lparr>sv_slots = [slot_init\<lparr>sl_fd := 7, sl_events := EPOLLIN, sl_arg := Some 0, sl_call := Handle_Recv, sl_status := 1\<rparr>],
     sv_efd = 3, sv_world = boot [\<lparr>rp_rc = 2, rp_err = 0, rp_data = Bytes ''hi''\<rparr>,
       \<lparr>rp_rc = 0, rp_err = 0, rp_data = No_data\<rparr>, \<lparr>rp_rc = 0, rp_err = 0, rp_data = No_data\<rparr>,
       \<lparr>rp_rc = 1, rp_err = 0, rp_data = No_data\<rparr>, \<lparr>rp_rc = 0, rp_err = 0, rp_data = No_data\<rparr>,
       \<lparr>rp_rc = 0, rp_err = 0, rp_data = No_data\<rparr>]\<rparr>"

lemma sample_echo_buf: "length (sl_buf (sv_slots sample_echo ! 0)) = BUFF_LEN"
  by (simp add: sample_echo_def slot_init_def zero_bytes_def)

lemma srv_echo_roundtrip_witness:
  "\<exists>t u. handle_recv 7 0 sample_echo = (Ret (), t) \<and> handle_send 7 0 t = (Ret (), u) \<and>
     phase_of (sv_slots u ! 0) = Reading \<and> map fst (w_trace (sv_world u)) =
     [Recv 7 BUFF_LEN 0, Epoll_ctl 3 EPOLL_CTL_DEL 7 0 0, Epoll_ctl 3 EPOLL_CTL_ADD 7 EPOLLOUT 0, Send 7 ''hi'' 0,
      Epoll_ctl 3 EPOLL_CTL_DEL 7 0 0, Epoll_ctl 3 EPOLL_CTL_ADD 7 EPOLLIN 0]"
proof -
  let ?r = "\<lambda>rc. \<lparr>rp_rc = rc, rp_err = 0, rp_data = No_data\<rparr>"
  obtain t u where "handle_recv 7 0 sample_echo = (Ret (), t)" "handle_send 7 0 t = (Ret (), u)"
    "phase_of (sv_slots u ! 0) = (if 0 < rp_rc (?r 1) then Reading else Free)"
    "w_trace (sv_world u) = w_trace (sv_world sample_echo) @
      [(Recv 7 BUFF_LEN 0, \<lparr>rp_rc = 2, rp_err = 0, rp_data = Bytes ''hi''\<rparr>), (Epoll_ctl (sv_efd sample_echo) EPOLL_CTL_DEL 7 0 (int 0), ?r 0),
       (Epoll_ctl (sv_efd sample_echo) EPOLL_CTL_ADD 7 EPOLLOUT (int 0), ?r 0), (Send 7 ''hi'' 0, ?r 1),
       (Epoll_ctl (sv_efd sample_echo) EPOLL_CTL_DEL 7 0 (int 0), ?r 0),
       (if 0 < rp_rc (?r 1) then Epoll_ctl (sv_efd sample_echo) EPOLL_CTL_ADD 7 EPOLLIN (int 0) else Close 7, ?r 0)]"
    using srv_echo_roundtrip [of 0 sample_echo 7 _ "?r 0" "?r 0" "?r 1" "?r 0" "?r 0" "[]" "''hi''"] sample_echo_buf
    by (auto simp: sample_echo_def boot_def transfer_ok_def status_ok_def BUFF_LEN_def slot_init_def zero_bytes_def)
  then show ?thesis by (auto simp: sample_echo_def)
qed

lemma srv_recv_overflow_witness:
  "let w = boot [\<lparr>rp_rc = 128, rp_err = 0, rp_data = Bytes (replicate 128 CHR ''x'')\<rparr>,
       \<lparr>rp_rc = 0, rp_err = 0, rp_data = No_data\<rparr>, \<lparr>rp_rc = 0, rp_err = 0, rp_data = No_data\<rparr>]
   in fst (handle_recv 7 0 (sample_echo\<lparr>sv_world := w\<rparr>)) = Fail (Undef Out_of_bounds)"
proof -
  let ?r = "\<lparr>rp_rc = 128, rp_err = 0, rp_data = Bytes (replicate 128 CHR ''x'')\<rparr>"
  let ?o = "\<lparr>rp_rc = 0, rp_err = 0, rp_data = No_data\<rparr>"
  show ?thesis
    using srv_recv_overflow [of 0 "sample_echo\<lparr>sv_world := boot [?r, ?o, ?o]\<rparr>" ?r ?o ?o "[]" 7] sample_echo_buf
    by (simp add: sample_echo_def boot_def transfer_ok_def status_ok_def BUFF_LEN_def)
qed

text \<open>The first turn of the sample server accepts a connection into slot 0.\<close>

lemma sample_listening_eq:
  "sample_listening = sample_srv\<lparr>sv_slots := (sv_slots sample_srv)[MAX_EVENTS := armed MAX_EVENTS 4 Handle_Accept EPOLLIN slot_init],
     sv_world := answered (Epoll_ctl 3 EPOLL_CTL_ADD 4 EPOLLIN (int MAX_EVENTS)) (hd (w_script (sv_world sample_srv))) (sv_world sample_srv)\<rparr>"
  by (simp add: sample_listening_def watch_listener_def sample_srv_def srv_init_def exact_run armed_def
      status_ok_def boot_def slot_init_def nth_append del: replicate.simps)


lemma sample_free_slot: "free_slot 0 (replicate MAX_EVENTS slot_init) = 0"
  by (simp add: MAX_EVENTS_def numeral_eq_Suc slot_init_def)

lemma sample_turn:
  "fst (dispatch_events sample_listening) = Ret True \<and>
   phase_of (sv_slots (snd (dispatch_events sample_listening)) ! 0) = Reading"
proof -
  have m: "0 < MAX_EVENTS" "MAX_EVENTS \<noteq> 0" by (simp_all add: MAX_EVENTS_def)
  show ?thesis
    using m
    by (simp add: sample_listening_eq sample_srv_def srv_init_def dispatch_events_def dispatch_event_def fire_def
        call_handler_def handle_accept_def set_non_block_def exact_run armed_def boot_def status_ok_def sample_free_slot
        phase_of_def EPOLLIN_def EPOLLOUT_def del: replicate.simps)
qed

lemma srv_turn_safe_witness:
  "\<exists>t. dispatch_events sample_listening = (Ret True, t) \<and> table_ok (sv_slots t) \<and> listening (sv_slots t) \<and>
     batch (next_events sample_listening) (phases (sv_slots sample_listening)) (phases (sv_slots t)) \<and>
     phase_of (sv_slots t ! 0) = Reading"
proof -
  obtain t where t: "dispatch_events sample_listening = (Ret True, t)" "phase_of (sv_slots t ! 0) = Reading"
    using sample_turn by (cases "dispatch_events sample_listening") auto
  have "fst (watch_listener 4 sample_srv) = Ret ()"
    by (simp add: watch_listener_def sample_srv_def srv_init_def exact_run status_ok_def boot_def slot_init_def
        nth_append del: replicate.simps)
  then have "srv_reach sample_listening"
    unfolding sample_listening_def
    by (intro srv_reach.started [of sample_srv 4]) (auto simp: sample_srv_def srv_init_def prod_eq_iff simp del: replicate.simps)
  moreover have "honest_wait sample_listening"
    by (simp add: sample_listening_eq sample_srv_def srv_init_def boot_def honest_wait_def honest_batch_def armed_def
        del: replicate.simps)
  ultimately have "table_ok (sv_slots t) \<and> listening (sv_slots t) \<and>
      batch (next_events sample_listening) (phases (sv_slots sample_listening)) (phases (sv_slots t))"
    using srv_turn_safe [OF _ _ t(1)] by simp
  then show ?thesis using t by blast
qed

text \<open>A signal interrupts the second wait.\<close>

definition sample_interrupted :: srv where
  "sample_interrupted = srv_init (boot [\<lparr>rp_rc = 0, rp_err = 0, rp_data = Events []\<rparr>, \<lparr>rp_rc = -1, rp_err = EINTR, rp_data = No_data\<rparr>,
     \<lparr>rp_rc = 0, rp_err = 0, rp_data = Events []\<rparr>])"

lemma srv_run_ends_witness:
  "\<exists>t calls. srv_run sample_interrupted = (Ret (), t) \<and> w_trace (sv_world t) = calls \<and> length calls = 2 \<and>
     failed_wait (last calls) \<and> \<not> failed_wait (hd calls)"
proof -
  obtain t where run: "srv_run sample_interrupted = (Ret (), t)" and n: "length (w_trace (sv_world t)) = 2"
    by (simp add: sample_interrupted_def srv_init_def srv_run.simps dispatch_events_def exact_run boot_def)
  from srv_run_ends [OF run] obtain calls where c: "w_trace (sv_world t) = w_trace (sv_world sample_interrupted) @ calls"
    "failed_wait (last calls)" "\<forall>c\<in>set (butlast calls). \<not> failed_wait c" by auto
  then have "calls = w_trace (sv_world t)" by (simp add: sample_interrupted_def srv_init_def)
  moreover have "length calls = 2" using n calculation by simp
  then have "hd calls \<in> set (butlast calls)" by (cases calls; cases "tl calls") auto
  ultimately show ?thesis using run c n by blast
qed

end
