(* ===== verification/Echo_Stream.thy ===== *)
theory Echo_Stream
  imports Simple_Epoll "HOL-Library.Sublist"
begin

section \<open>The plain epoll server as an echo\<close>

text \<open>
  What the plain server (\<open>Simple_Epoll\<close>) does to the byte streams of its connections. The trace of
  the system calls is read as a picture of the network: which descriptors are open, which slots the kernel
  watches, what was received, offered to \<^verbatim>\<open>send\<close> and taken by it on each descriptor since it was
  accepted, and whether every send took all that it was offered. The invariant relates this picture to the table of slots.
\<close>

subsection \<open>The picture of the network\<close>

record net =
  nt_honest :: bool
  nt_open :: "int set"
  nt_watched :: "nat set"
  nt_in :: "int \<Rightarrow> string"
  nt_offered :: "int \<Rightarrow> string"
  nt_out :: "int \<Rightarrow> string"
  nt_full :: "int \<Rightarrow> bool"

definition net_init :: net where
  "net_init = \<lparr>nt_honest = True, nt_open = {}, nt_watched = {}, nt_in = (\<lambda>_. []), nt_offered = (\<lambda>_. []),
     nt_out = (\<lambda>_. []), nt_full = (\<lambda>_. True)\<rparr>"

definition opened :: "int \<Rightarrow> net \<Rightarrow> net" where
  "opened fd v = v\<lparr>nt_open := insert fd (nt_open v)\<rparr>"

definition connected :: "int \<Rightarrow> net \<Rightarrow> net" where
  "connected fd v = v\<lparr>nt_honest := (nt_honest v \<and> fd \<notin> nt_open v), nt_open := insert fd (nt_open v),
     nt_in := (nt_in v)(fd := []), nt_offered := (nt_offered v)(fd := []), nt_out := (nt_out v)(fd := []), nt_full := (nt_full v)(fd := True)\<rparr>"

definition got :: "int \<Rightarrow> string \<Rightarrow> net \<Rightarrow> net" where
  "got fd bs v = v\<lparr>nt_in := (nt_in v)(fd := nt_in v fd @ bs)\<rparr>"

definition put :: "int \<Rightarrow> string \<Rightarrow> int \<Rightarrow> net \<Rightarrow> net" where
  "put fd bs rc v = v\<lparr>nt_offered := (nt_offered v)(fd := nt_offered v fd @ bs), nt_out := (nt_out v)(fd := nt_out v fd @ take (nat rc) bs),
     nt_full := (nt_full v)(fd := (nt_full v fd \<and> rc = int (length bs)))\<rparr>"

definition gone :: "int \<Rightarrow> net \<Rightarrow> net" where
  "gone fd v = v\<lparr>nt_open := nt_open v - {fd}\<rparr>"

definition watch :: "nat \<Rightarrow> net \<Rightarrow> net" where
  "watch i v = v\<lparr>nt_watched := insert i (nt_watched v)\<rparr>"

definition unwatch :: "nat \<Rightarrow> net \<Rightarrow> net" where
  "unwatch i v = v\<lparr>nt_watched := nt_watched v - {i}\<rparr>"

text \<open>The kernel reports watched slots, each at most once in a batch.\<close>

definition batch_ok :: "nat set \<Rightarrow> reply \<Rightarrow> bool" where
  "batch_ok ws r \<longleftrightarrow> (let ds = map (nat \<circ> snd) (take (nat (rp_rc r)) (events_of (rp_data r)))
     in distinct ds \<and> set ds \<subseteq> ws)"

definition waited :: "reply \<Rightarrow> net \<Rightarrow> net" where
  "waited r v = v\<lparr>nt_honest := (nt_honest v \<and> batch_ok (nt_watched v) r)\<rparr>"

fun net_step :: "syscall \<times> reply \<Rightarrow> net \<Rightarrow> net" where
  "net_step (Socket af ty pr, r) v = (if rp_rc r < 0 then v else opened (rp_rc r) v)"
| "net_step (Epoll_create n, r) v = (if rp_rc r < 0 then v else opened (rp_rc r) v)"
| "net_step (Accept l, r) v = (if rp_rc r < 0 then v else connected (rp_rc r) v)"
| "net_step (Recv fd n fl, r) v = got fd (bytes_of (rp_data r)) v"
| "net_step (Send fd bs fl, r) v = put fd bs (rp_rc r) v"
| "net_step (Close fd, r) v = gone fd v"
| "net_step (Epoll_ctl ep EPOLL_CTL_ADD fd ev i, r) v = watch (nat i) v"
| "net_step (Epoll_ctl ep EPOLL_CTL_DEL fd ev i, r) v = unwatch (nat i) v"
| "net_step (Epoll_wait ep n t, r) v = waited r v"
| "net_step (c, r) v = v"

definition net_of :: "(syscall \<times> reply) list \<Rightarrow> net" where
  "net_of tr = fold net_step tr net_init"

abbreviation net :: "srv \<Rightarrow> net" where
  "net s \<equiv> net_of (w_trace (sv_world s))"

lemma net_of_Nil [simp]: "net_of [] = net_init"
  by (simp add: net_of_def)

lemma net_of_snoc [simp]: "net_of (tr @ [x]) = net_step x (net_of tr)"
  by (simp add: net_of_def)

lemmas net_defs = opened_def connected_def got_def put_def gone_def watch_def unwatch_def waited_def

subsection \<open>The invariant\<close>

text \<open>What was offered is a beginning of what was received, what was taken a part of it, and all sends complete means
  nothing is missing.\<close>

definition faithful :: "net \<Rightarrow> bool" where
  "faithful v \<longleftrightarrow> (\<forall>fd. prefix (nt_offered v fd) (nt_in v fd) \<and> subseq (nt_out v fd) (nt_offered v fd) \<and>
     (nt_full v fd \<longrightarrow> nt_out v fd = nt_offered v fd))"

lemma faithful_streams:
  assumes "faithful v"
  shows "subseq (nt_out v fd) (nt_in v fd)" "nt_full v fd \<Longrightarrow> prefix (nt_out v fd) (nt_in v fd)"
  using assms subseq_order.trans prefix_imp_subseq unfolding faithful_def by metis+

text \<open>The bytes that a slot still has to send.\<close>

definition pending :: "slot \<Rightarrow> string" where
  "pending ev = (if phase_of ev = Writing then take (nat (sl_len ev)) (sl_buf ev) else [])"

definition slot_echo :: "net \<Rightarrow> slot \<Rightarrow> bool" where
  "slot_echo v ev \<longleftrightarrow> sl_fd ev \<in> nt_open v \<and>
     nt_in v (sl_fd ev) = nt_offered v (sl_fd ev) @ pending ev"

definition conns_ok :: "slot list \<Rightarrow> net \<Rightarrow> bool" where
  "conns_ok evs v \<longleftrightarrow> (\<forall>i < MAX_EVENTS. sl_status (evs ! i) = 1 \<longrightarrow> slot_echo v (evs ! i)) \<and>
     (\<forall>i < MAX_EVENTS. \<forall>j < MAX_EVENTS. sl_status (evs ! i) = 1 \<longrightarrow> sl_status (evs ! j) = 1 \<longrightarrow>
        sl_fd (evs ! i) = sl_fd (evs ! j) \<longrightarrow> i = j)"

definition watches_ok :: "slot list \<Rightarrow> net \<Rightarrow> bool" where
  "watches_ok evs v \<longleftrightarrow> nt_watched v \<subseteq> {..MAX_EVENTS} \<and>
     (\<forall>i \<le> MAX_EVENTS. sl_status (evs ! i) = 1 \<longleftrightarrow> i \<in> nt_watched v)"

definition echo_inv :: "slot list \<Rightarrow> net \<Rightarrow> bool" where
  "echo_inv evs v \<longleftrightarrow> length evs = Suc MAX_EVENTS \<and> conns_ok evs v \<and> watches_ok evs v \<and> faithful v"

text \<open>The invariant of a state holds as long as the kernel is honest, also between two turns; a run that stops
  inside a turn leaves the streams faithful.\<close>

definition echo_kept :: "unit outcome \<Rightarrow> srv \<Rightarrow> bool" where
  "echo_kept out u \<longleftrightarrow> (nt_honest (net u) \<longrightarrow> faithful (net u) \<and>
     (case out of Ret x \<Rightarrow> echo_inv (sv_slots u) (net u) | Fail e \<Rightarrow> True))"

text \<open>Only the streams of one descriptor change.\<close>

definition touches :: "int \<Rightarrow> net \<Rightarrow> net \<Rightarrow> bool" where
  "touches fd v v' \<longleftrightarrow> (\<forall>g. g \<noteq> fd \<longrightarrow> nt_in v' g = nt_in v g \<and> nt_offered v' g = nt_offered v g \<and>
     nt_out v' g = nt_out v g \<and> nt_full v' g = nt_full v g \<and> (g \<in> nt_open v \<longrightarrow> g \<in> nt_open v'))"

lemma touches_simps [simp]:
  "touches fd v v" "touches fd v (got fd bs v)" "touches fd v (put fd bs rc v)" "touches fd v (connected fd v)"
  by (auto simp: touches_def net_defs)

lemma touches_then:
  "touches fd v v' \<Longrightarrow> touches fd v (gone fd v')" "touches fd v v' \<Longrightarrow> touches fd v (watch i v')"
  "touches fd v v' \<Longrightarrow> touches fd v (unwatch i v')"
  by (auto simp: touches_def net_defs)

lemma slot_echo_touches:
  "touches fd v v' \<Longrightarrow> sl_fd ev \<noteq> fd \<Longrightarrow> slot_echo v ev \<Longrightarrow> slot_echo v' ev"
  by (simp add: touches_def slot_echo_def)

lemma conns_ok_update:
  assumes c: "conns_ok evs v" "length evs = Suc MAX_EVENTS" and i: "i < MAX_EVENTS"
    and v: "touches fd v v'"
    and other: "\<And>j. j < MAX_EVENTS \<Longrightarrow> j \<noteq> i \<Longrightarrow> sl_status (evs ! j) = 1 \<Longrightarrow> sl_fd (evs ! j) \<noteq> fd"
    and ev: "sl_status ev = 1 \<Longrightarrow> sl_fd ev = fd \<and> slot_echo v' ev"
  shows "conns_ok (evs[i := ev]) v'"
proof -
  let ?es = "evs[i := ev]"
  have nth: "?es ! j = (if j = i then ev else evs ! j)" if "j < MAX_EVENTS" for j
    using that c(2) i by (simp add: nth_list_update)
  have a: "slot_echo v' (?es ! j)" if j: "j < MAX_EVENTS" "sl_status (?es ! j) = 1" for j
  proof (cases "j = i")
    case True
    then show ?thesis using ev j nth by simp
  next
    case False
    then have "slot_echo v (evs ! j)" using c(1) j nth by (simp add: conns_ok_def)
    then show ?thesis using slot_echo_touches [OF v] other [OF j(1) False] j False nth by simp
  qed
  have b: "k = j" if j: "k < MAX_EVENTS" "j < MAX_EVENTS" "sl_status (?es ! k) = 1" "sl_status (?es ! j) = 1"
      "sl_fd (?es ! k) = sl_fd (?es ! j)" for k j
  proof (cases "k = i \<or> j = i")
    case True
    then show ?thesis using j nth ev other by (metis (no_types))
  next
    case False
    then show ?thesis using c(1) j nth by (simp add: conns_ok_def)
  qed
  show ?thesis unfolding conns_ok_def using a b by blast
qed

lemma watches_ok_update:
  assumes "watches_ok evs v" "length evs = Suc MAX_EVENTS" "i \<le> MAX_EVENTS"
    and "nt_watched v' = (if sl_status ev = 1 then insert i (nt_watched v) else nt_watched v - {i})"
  shows "watches_ok (evs[i := ev]) v'"
  using assms by (auto simp: watches_ok_def nth_list_update)

lemma faithful_got: "faithful v \<Longrightarrow> faithful (got fd bs v)"
  by (auto simp: faithful_def got_def)

lemma faithful_quiet [simp]:
  "faithful (opened fd v) = faithful v" "faithful (gone fd v) = faithful v" "faithful (watch i v) = faithful v"
  "faithful (unwatch i v) = faithful v" "faithful (waited r v) = faithful v"
  by (simp_all add: faithful_def net_defs)

lemma faithful_connected: "faithful v \<Longrightarrow> faithful (connected fd v)"
  by (simp add: faithful_def connected_def)

lemma faithful_put:
  assumes "faithful v" "nt_in v fd = nt_offered v fd @ p"
  shows "faithful (put fd p rc v)"
proof -
  have "subseq (nt_out v fd) (nt_offered v fd)" using assms(1) by (simp add: faithful_def)
  then have "subseq (nt_out v fd @ take (nat rc) p) (nt_offered v fd @ p)"
    by (intro list_emb_append_mono prefix_imp_subseq [OF take_is_prefix])
  then show ?thesis using assms by (auto simp: faithful_def put_def)
qed

lemma honest_quiet [simp]:
  "nt_honest (opened fd v) = nt_honest v" "nt_honest (gone fd v) = nt_honest v" "nt_honest (watch i v) = nt_honest v"
  "nt_honest (unwatch i v) = nt_honest v" "nt_honest (got fd bs v) = nt_honest v" "nt_honest (put fd bs rc v) = nt_honest v"
  by (simp_all add: net_defs)

subsection \<open>The calls of the handlers\<close>

lemma wp_thn_Ret: "m s = (Ret x, t) \<Longrightarrow> wp (thn m n) Q s = wp n Q t"
  by (simp add: wp_def)

lemma keeps_wp: "keeps P m \<Longrightarrow> P s \<Longrightarrow> wp m (\<lambda>out t. P t) s"
  using keepsD [of P m s] by (auto simp: wp_def split: prod.split)

lemma wp_srv_sys_net:
  assumes "\<And>r u. reply_ok c r \<Longrightarrow> sv_slots u = sv_slots s \<Longrightarrow> net u = net_step (c, r) (net s) \<Longrightarrow> Q (Ret r) u"
    and "Q (Fail Pending) s"
  shows "wp (srv_sys c) Q s"
  by (rule sys_cases [of "sv_world s" c]) (use assms in \<open>auto simp: wp_def srv_sys_def zoom_def\<close>)

lemma wp_set_epoll_net:
  assumes "\<And>b r u. sv_slots u = sv_slots s \<Longrightarrow> net u = net_step (Epoll_ctl (sv_efd s) op fd events (int i), r) (net s) \<Longrightarrow> Q (Ret b) u"
    and "Q (Fail Pending) s"
  shows "wp (set_epoll fd i events op) Q s"
  unfolding set_epoll_def wp_bnd wp_gets outcome.case
  by (rule wp_srv_sys_net) (simp_all add: wp_ret assms)

lemma wp_event_add_net:
  assumes "sv_slots s = evs[i := x]" "i < length evs" "sl_status x = 0"
    and "\<And>u. sv_slots u = evs[i := x\<lparr>sl_status := 1, sl_events := events\<rparr>] \<Longrightarrow> net u = watch i (net s) \<Longrightarrow> Q (Ret ()) u"
    and "\<And>u. net u = net s \<Longrightarrow> Q (Fail Pending) u"
  shows "wp (event_add events i) Q s"
  using assms(1-3)
  by (simp add: event_add_def wp_rules wp_get_slot wp_change_slot)
    (rule wp_set_epoll_net; use assms(4,5) in \<open>simp add: wp_ret\<close>)

lemma wp_arm_net:
  assumes "sv_slots s = evs[i := x]" "i < length evs"
    and "\<And>u. sv_slots u = evs[i := armed i fd h events x] \<Longrightarrow> net u = watch i (net s) \<Longrightarrow> Q (Ret ()) u"
    and "\<And>u. net u = net s \<Longrightarrow> Q (Fail Pending) u"
  shows "wp (thn (set_event i fd h i) (event_add events i)) Q s"
  using assms(1,2)
  by (simp add: wp_thn wp_set_event)
    (rule wp_event_add_net [where evs = evs and x = "x\<lparr>sl_fd := fd, sl_call := h, sl_events := 0, sl_arg := Some i, sl_status := 0\<rparr>"];
     use assms in \<open>cases x; simp add: armed_def\<close>)

lemma wp_event_del_net:
  assumes "sv_slots s = evs[i := x]" "i < length evs" "sl_status x = 1"
    and "\<And>u. sv_slots u = evs[i := x\<lparr>sl_status := 0\<rparr>] \<Longrightarrow> net u = unwatch i (net s) \<Longrightarrow> Q (Ret ()) u"
    and "\<And>u. net u = net s \<Longrightarrow> Q (Fail Pending) u"
  shows "wp (event_del i) Q s"
  using assms(1-3)
  by (simp add: event_del_def wp_rules wp_get_slot wp_change_slot)
    (rule wp_set_epoll_net; use assms(4,5) in \<open>simp add: wp_ret\<close>)

lemma wp_close_slot_net:
  assumes "sv_slots s = evs[i := x]" "i < length evs"
    and "\<And>u. sv_slots u = evs[i := x] \<Longrightarrow> net u = gone (sl_fd x) (net s) \<Longrightarrow> Q (Ret ()) u"
    and "Q (Fail Pending) s"
  shows "wp (close_slot i) Q s"
  using assms(1,2)
  by (simp add: close_slot_def wp_bnd wp_get_slot)
    (rule wp_srv_sys_net; use assms in \<open>simp add: wp_ret\<close>)

subsection \<open>The handlers\<close>

lemma echo_kept_Fail: "net u = v \<Longrightarrow> faithful v \<Longrightarrow> echo_kept (Fail e) u"
  by (simp add: echo_kept_def)

lemma echo_kept_Ret: "net u = v \<Longrightarrow> sv_slots u = evs \<Longrightarrow> echo_inv evs v \<Longrightarrow> echo_kept (Ret x) u"
  by (simp add: echo_kept_def echo_inv_def)

lemma echo_invD:
  assumes "echo_inv evs v"
  shows "length evs = Suc MAX_EVENTS" "conns_ok evs v" "watches_ok evs v" "faithful v"
  using assms by (simp_all add: echo_inv_def)

lemma other_fd:
  "echo_inv evs v \<Longrightarrow> i < MAX_EVENTS \<Longrightarrow> sl_status (evs ! i) = 1 \<Longrightarrow> sl_fd (evs ! i) = fd \<Longrightarrow>
     j < MAX_EVENTS \<Longrightarrow> j \<noteq> i \<Longrightarrow> sl_status (evs ! j) = 1 \<Longrightarrow> sl_fd (evs ! j) \<noteq> fd"
  unfolding echo_inv_def conns_ok_def by metis

text \<open>The slot of one connection changes together with the streams of its descriptor.\<close>

lemma echo_inv_update:
  assumes inv: "echo_inv evs v" and i: "i < MAX_EVENTS" "sl_status (evs ! i) = 1" "sl_fd (evs ! i) = fd"
    and v: "touches fd v v'" "faithful v'"
    and w: "nt_watched v' = (if sl_status ev = 1 then insert i (nt_watched v) else nt_watched v - {i})"
    and ev: "sl_status ev = 1 \<Longrightarrow> sl_fd ev = fd \<and> slot_echo v' ev"
  shows "echo_inv (evs[i := ev]) v'"
proof -
  have "conns_ok (evs[i := ev]) v'"
    by (rule conns_ok_update [OF echo_invD(2,1) [OF inv] i(1) v(1)]) (use other_fd [OF inv i] ev in auto)
  moreover have "watches_ok (evs[i := ev]) v'"
    by (rule watches_ok_update [OF echo_invD(3,1) [OF inv]]) (use i(1) w in auto)
  ultimately show ?thesis using v(2) echo_invD(1) [OF inv] by (simp add: echo_inv_def)
qed

lemma watched_simps [simp]:
  "nt_watched (got fd bs v) = nt_watched v" "nt_watched (put fd bs rc v) = nt_watched v"
  "nt_watched (gone fd v) = nt_watched v" "nt_watched (connected fd v) = nt_watched v"
  "nt_watched (watch i v) = insert i (nt_watched v)" "nt_watched (unwatch i v) = nt_watched v - {i}"
  by (simp_all add: net_defs)

lemma got_simps [simp]:
  "nt_in (got fd bs v) fd = nt_in v fd @ bs" "nt_out (got fd bs v) = nt_out v" "nt_offered (got fd bs v) = nt_offered v" "nt_full (got fd bs v) = nt_full v"
  "nt_open (got fd bs v) = nt_open v"
  by (simp_all add: got_def)

lemma put_simps [simp]:
  "nt_in (put fd bs rc v) = nt_in v" "nt_offered (put fd bs rc v) fd = nt_offered v fd @ bs" "nt_out (put fd bs rc v) fd = nt_out v fd @ take (nat rc) bs"
  "nt_full (put fd bs rc v) fd = (nt_full v fd \<and> rc = int (length bs))" "nt_open (put fd bs rc v) = nt_open v"
  by (simp_all add: put_def)

lemma connected_simps [simp]:
  "nt_in (connected fd v) fd = []" "nt_offered (connected fd v) fd = []" "nt_out (connected fd v) fd = []" "nt_full (connected fd v) fd"
  "nt_open (connected fd v) = insert fd (nt_open v)" "nt_honest (connected fd v) \<longleftrightarrow> nt_honest v \<and> fd \<notin> nt_open v"
  by (simp_all add: connected_def)

lemma slot_echo_watch [simp]:
  "slot_echo (watch i v) ev = slot_echo v ev" "slot_echo (unwatch i v) ev = slot_echo v ev"
  by (simp_all add: slot_echo_def net_defs)

lemma slot_echoD:
  "echo_inv evs v \<Longrightarrow> i < MAX_EVENTS \<Longrightarrow> sl_status (evs ! i) = 1 \<Longrightarrow> slot_echo v (evs ! i)"
  by (simp add: echo_inv_def conns_ok_def)

text \<open>A slot that is given up.\<close>

lemma echo_inv_drop:
  assumes "echo_inv evs v" "i < MAX_EVENTS" "sl_status (evs ! i) = 1" "sl_fd (evs ! i) = fd"
    and "touches fd v v'" "faithful v'" "sl_status ev = 0" "nt_watched v' = nt_watched v"
  shows "echo_inv (evs[i := ev]) (gone fd (unwatch i v'))"
  by (rule echo_inv_update [OF assms(1-4)]) (use assms(5-8) in \<open>simp_all add: touches_then\<close>)

text \<open>A slot that is registered again.\<close>

lemma echo_inv_arm:
  assumes "echo_inv evs v" "i < MAX_EVENTS" "sl_status (evs ! i) = 1" "sl_fd (evs ! i) = fd"
    and "touches fd v v'" "faithful v'" "nt_watched v' = nt_watched v" "fd \<in> nt_open v'"
    and "nt_in v' fd = nt_offered v' fd @ pending (armed i fd h events x)"
  shows "echo_inv (evs[i := armed i fd h events x]) (watch i (unwatch i v'))"
proof -
  have "slot_echo v' (armed i fd h events x)" using assms(8,9) by (simp add: slot_echo_def armed_def)
  then show ?thesis
    by (intro echo_inv_update [OF assms(1-4)]) (use assms(5-8) in \<open>simp_all add: touches_then armed_def\<close>)
qed

lemma pending_armed:
  "pending (armed i fd Handle_Recv events x) = []"
  "pending (armed i fd Handle_Send events x) = take (nat (sl_len x)) (sl_buf x)"
  by (simp_all add: pending_def phase_of_armed) (simp_all add: armed_def)

text \<open>A slot that reads.\<close>

lemma reading_slot:
  assumes "echo_inv evs v" "table_ok evs" "i < MAX_EVENTS" "sl_status (evs ! i) = 1" "sl_call (evs ! i) = Handle_Recv"
    "sl_fd (evs ! i) = fd"
  shows "i < length evs" "length (sl_buf (evs ! i)) = BUFF_LEN" "fd \<in> nt_open v" "faithful v"
    "nt_in v fd = nt_offered v fd"
  using slot_echoD [OF assms(1,3,4)] echo_invD(4) [OF assms(1)] assms(2-)
  by (auto simp: slot_echo_def pending_def phase_of_def table_ok_def slot_ok_def)

lemma echo_kept_stop:
  assumes "faithful v"
  shows "net z = v \<Longrightarrow> echo_kept (Fail e) z" "net z = unwatch i v \<Longrightarrow> echo_kept (Fail e) z"
  using assms by (auto intro: echo_kept_Fail)

lemma recv_tail_stream:
  assumes inv: "echo_inv evs v" and t: "table_ok evs" and i: "i < MAX_EVENTS"
    and x: "sl_status (evs ! i) = 1" "sl_call (evs ! i) = Handle_Recv" "sl_fd (evs ! i) = fd"
    and bs: "length bs \<le> BUFF_LEN" "bs \<noteq> []"
    and y: "y = (evs ! i)\<lparr>sl_buf := bs @ drop (length bs) (sl_buf (evs ! i)), sl_status := 0\<rparr>"
    and z: "sv_slots z = evs[i := y]" "net z = unwatch i (got fd bs v)"
  shows "wp (recv_tail fd i (int (length bs))) echo_kept z"
proof -
  note r = reading_slot [OF inv t i x]
  have fw: "faithful (got fd bs v)" by (rule faithful_got [OF r(4)])
  let ?y = "y\<lparr>sl_len := int (length bs)\<rparr>"
  have len: "change_slot i (\<lambda>ev. ev\<lparr>sl_len := int (length bs)\<rparr>) z = (Ret (), z\<lparr>sv_slots := evs[i := ?y]\<rparr>)"
    using z r(1) by (simp add: change_slot_apply)
  show ?thesis
  proof (cases "length bs < BUFF_LEN")
    case True
    let ?buf = "bs @ CHR 0x00 # drop (Suc (length bs)) (sl_buf (evs ! i))"
    let ?y' = "?y\<lparr>sl_buf := ?buf\<rparr>"
    have m: "mem_write (length bs) [CHR 0x00] (sl_buf y) = Some ?buf" using True r(2) y by simp
    have "echo_inv (evs[i := armed i fd Handle_Send EPOLLOUT ?y']) (watch i (unwatch i (got fd bs v)))"
      by (rule echo_inv_arm [OF inv i x(1,3)])
        (use fw r(3,5) y in \<open>simp_all add: pending_armed\<close>)
    then have "wp (thn (set_event i fd Handle_Send i) (event_add EPOLLOUT i)) echo_kept (z\<lparr>sv_slots := evs[i := ?y']\<rparr>)"
      by (intro wp_arm_net [where evs = evs and x = ?y']) (use r(1) z(2) echo_kept_stop [OF fw] echo_kept_Ret in auto)
    moreover have "terminate_buf i (length bs) (z\<lparr>sv_slots := evs[i := ?y]\<rparr>) = (Ret (), z\<lparr>sv_slots := evs[i := ?y']\<rparr>)"
      using r(1) m by (simp add: terminate_buf_def bnd_apply get_slot_apply change_slot_apply del: mem_write_Some)
    ultimately show ?thesis using len by (simp add: wp_def)
  next
    case False
    then have "mem_write (length bs) [CHR 0x00] (sl_buf y) = None" using bs(1) r(2) y by (simp add: mem_write_def)
    then show ?thesis
      using len r(1) z(2)
      by (simp add: wp_thn wp_def terminate_buf_def bnd_apply get_slot_apply) (rule echo_kept_stop(2) [OF fw], simp)
  qed
qed

lemma handle_recv_stream:
  assumes inv: "echo_inv (sv_slots s) (net s)" and t: "table_ok (sv_slots s)" and i: "i < MAX_EVENTS"
    and x: "sl_status (sv_slots s ! i) = 1" "sl_call (sv_slots s ! i) = Handle_Recv" "sl_fd (sv_slots s ! i) = fd"
  shows "wp (handle_recv fd i) echo_kept s"
proof -
  let ?evs = "sv_slots s" and ?x = "sv_slots s ! i" and ?v = "net s"
  note slot = reading_slot [OF inv t i x]
  have recv: "wp (thn (store_bytes i (bytes_of (rp_data r))) (thn (event_del i)
       (if rp_rc r > 0 then recv_tail fd i (rp_rc r) else close_slot i))) echo_kept u"
    if r: "reply_ok (Recv fd BUFF_LEN 0) r" and u: "sv_slots u = ?evs" "net u = got fd (bytes_of (rp_data r)) ?v" for r u
  proof -
    let ?bs = "bytes_of (rp_data r)"
    let ?w = "got fd ?bs ?v" and ?buf = "?bs @ drop (length ?bs) (sl_buf ?x)"
    let ?y = "?x\<lparr>sl_buf := ?buf, sl_status := 0\<rparr>"
    have le: "length ?bs \<le> BUFF_LEN" "rp_rc r > 0 \<Longrightarrow> rp_rc r = int (length ?bs)" using r by (auto simp: transfer_ok_def)
    have fw: "faithful ?w" by (rule faithful_got [OF slot(4)])
    have more: "wp (recv_tail fd i (rp_rc r)) echo_kept z"
      if "sv_slots z = ?evs[i := ?y]" "net z = unwatch i ?w" "rp_rc r > 0" for z
      using recv_tail_stream [OF inv t i x le(1) _ refl that(1,2)] le(2) [OF that(3)] that(3) by auto
    have close: "wp (close_slot i) echo_kept z" if z: "sv_slots z = ?evs[i := ?y]" "net z = unwatch i ?w" for z
    proof (rule wp_close_slot_net [OF z(1) slot(1)])
      have "echo_inv (?evs[i := ?y]) (gone fd (unwatch i ?w))"
        by (rule echo_inv_drop [OF inv i x(1,3)]) (use fw in simp_all)
      then show "echo_kept (Ret ()) z'" if "sv_slots z' = ?evs[i := ?y]" "net z' = gone (sl_fd ?y) (net z)" for z'
        using that z x(3) by (intro echo_kept_Ret) simp_all
    qed (rule echo_kept_stop(2) [OF fw], use z in simp)
    have del: "wp (event_del i) (\<lambda>out z. case out of
        Ret _ \<Rightarrow> wp (if rp_rc r > 0 then recv_tail fd i (rp_rc r) else close_slot i) echo_kept z
      | Fail e \<Rightarrow> echo_kept (Fail e) z) (u\<lparr>sv_slots := ?evs[i := ?x\<lparr>sl_buf := ?buf\<rparr>]\<rparr>)"
      by (rule wp_event_del_net [where evs = ?evs and x = "?x\<lparr>sl_buf := ?buf\<rparr>"])
        (use slot x u more close echo_kept_stop [OF fw] in simp_all)
    have "mem_write 0 ?bs (sl_buf ?x) = Some ?buf" using le(1) slot(2) by simp
    then have "store_bytes i ?bs u = (Ret (), u\<lparr>sv_slots := ?evs[i := ?x\<lparr>sl_buf := ?buf\<rparr>]\<rparr>)"
      using u slot(1) by (simp add: store_bytes_def bnd_apply get_slot_apply change_slot_apply del: mem_write_Some)
    then show ?thesis using del by (simp only: wp_thn_Ret wp_thn [of "event_del i"])
  qed
  show ?thesis
    unfolding handle_recv_def wp_bnd [of "srv_sys c" for c]
    by (rule wp_srv_sys_net, simp only: outcome.case, rule recv)
      (use slot(4) in \<open>auto intro: echo_kept_Fail simp del: reply_ok.simps\<close>)
qed

lemma handle_send_stream:
  assumes inv: "echo_inv (sv_slots s) (net s)" and t: "table_ok (sv_slots s)" and i: "i < MAX_EVENTS"
    and x: "sl_status (sv_slots s ! i) = 1" "sl_call (sv_slots s ! i) = Handle_Send" "sl_fd (sv_slots s ! i) = fd"
  shows "wp (handle_send fd i) echo_kept s"
proof -
  let ?evs = "sv_slots s" and ?x = "sv_slots s ! i" and ?v = "net s"
  let ?p = "take (nat (sl_len ?x)) (sl_buf ?x)" and ?y = "?x\<lparr>sl_status := 0\<rparr>"
  have len: "i < length ?evs" "length (sl_buf ?x) = BUFF_LEN" "0 < sl_len ?x" "sl_len ?x < int BUFF_LEN"
    using t i x by (auto simp: table_ok_def slot_ok_def dest!: spec [of _ i])
  have same: "?evs = ?evs[i := ?x]" by simp
  have "slot_echo ?v ?x" by (rule slot_echoD [OF inv i x(1)])
  then have open_fd: "fd \<in> nt_open ?v" and echo: "nt_in ?v fd = nt_offered ?v fd @ ?p"
    using x by (simp_all add: slot_echo_def pending_def phase_of_def)
  have f: "faithful ?v" by (rule echo_invD(4) [OF inv])
  have read: "mem_read 0 (size_of_int (sl_len ?x)) (sl_buf ?x) = Some ?p"
    using len by (simp add: size_of_buf_len)
  have sent: "wp (thn (event_del i) (if rp_rc r > 0
        then thn (set_event i fd Handle_Recv i) (event_add EPOLLIN i) else close_slot i)) echo_kept u"
    if u: "sv_slots u = ?evs" "net u = put fd ?p (rp_rc r) ?v" for r u
  proof -
    let ?w = "put fd ?p (rp_rc r) ?v"
    have fw: "faithful ?w" by (rule faithful_put [OF f echo])
    have stop: "net z = ?w \<Longrightarrow> echo_kept (Fail e) z" "net z = unwatch i ?w \<Longrightarrow> echo_kept (Fail e) z" for e z
      using fw by (auto intro: echo_kept_Fail)
    have "echo_inv (?evs[i := armed i fd Handle_Recv EPOLLIN ?y]) (watch i (unwatch i ?w))"
      by (rule echo_inv_arm [OF inv i x(1,3)]) (use fw open_fd echo in \<open>simp_all add: pending_armed\<close>)
    then have again: "wp (thn (set_event i fd Handle_Recv i) (event_add EPOLLIN i)) echo_kept z"
      if "sv_slots z = ?evs[i := ?y]" "net z = unwatch i ?w" for z
      using that len stop by (intro wp_arm_net [where evs = ?evs and x = ?y]) (auto intro: echo_kept_Ret)
    have close: "wp (close_slot i) echo_kept z" if z: "sv_slots z = ?evs[i := ?y]" "net z = unwatch i ?w" for z
    proof (rule wp_close_slot_net [OF z(1) len(1)])
      have "echo_inv (?evs[i := ?y]) (gone fd (unwatch i ?w))"
        by (rule echo_inv_drop [OF inv i x(1,3)]) (use fw in simp_all)
      then show "echo_kept (Ret ()) z'" if "sv_slots z' = ?evs[i := ?y]" "net z' = gone (sl_fd ?y) (net z)" for z'
        using that z x(3) by (intro echo_kept_Ret) simp_all
    qed (rule stop(2), use z in simp)
    show ?thesis
      unfolding wp_thn [of "event_del i"]
      by (rule wp_event_del_net [where evs = ?evs and x = ?x])
        (use u len x again close stop in simp_all)
  qed
  have "wp (bnd (srv_sys (Send fd ?p 0)) (\<lambda>r. thn (event_del i) (if rp_rc r > 0
        then thn (set_event i fd Handle_Recv i) (event_add EPOLLIN i) else close_slot i))) echo_kept s"
    unfolding wp_bnd [of "srv_sys c" for c]
    by (rule wp_srv_sys_net, simp only: outcome.case, rule sent)
      (use f in \<open>auto intro: echo_kept_Fail simp del: reply_ok.simps\<close>)
  then show ?thesis
    using len read by (simp add: handle_send_def wp_bnd [of "get_slot i"] wp_get_slot wp_bnd [of "defined u x" for u x] wp_defined)
qed

lemma wp_set_non_block_net:
  assumes "\<And>b u. sv_slots u = sv_slots s \<Longrightarrow> net u = net s \<Longrightarrow> Q (Ret b) u"
    and "\<And>u. net u = net s \<Longrightarrow> Q (Fail Pending) u"
  shows "wp (set_non_block fd) Q s"
  unfolding set_non_block_def wp_bnd [of "srv_sys (Fcntl fd F_GETFL)"]
proof (rule wp_srv_sys_net, goal_cases)
  case (1 r u)
  have "wp (bnd (srv_sys (Fcntl fd (F_SETFL (or (rp_rc r) O_NONBLOCK)))) (\<lambda>r2. ret (\<not> rp_rc r2 < 0))) Q u"
    unfolding wp_bnd by (rule wp_srv_sys_net) (use 1 assms in \<open>simp_all add: wp_ret\<close>)
  then show ?case using 1 assms(1) by (simp add: wp_ret)
qed (use assms(2) in simp)

text \<open>A new connection: no live slot has its descriptor.\<close>

lemma fresh_fd:
  "echo_inv evs v \<Longrightarrow> fd \<notin> nt_open v \<Longrightarrow> j < MAX_EVENTS \<Longrightarrow> sl_status (evs ! j) = 1 \<Longrightarrow> sl_fd (evs ! j) \<noteq> fd"
  by (auto dest: slot_echoD simp: slot_echo_def)

lemma echo_inv_connected:
  assumes inv: "echo_inv evs v" and fd: "fd \<notin> nt_open v"
  shows "echo_inv evs (connected fd v)"
proof -
  have "slot_echo (connected fd v) (evs ! j)" if "j < MAX_EVENTS" "sl_status (evs ! j) = 1" for j
    using slot_echo_touches [OF touches_simps(4) fresh_fd [OF inv fd that] slot_echoD [OF inv that]] .
  then show ?thesis
    using inv faithful_connected by (simp add: echo_inv_def conns_ok_def watches_ok_def)
qed

lemma echo_inv_accept:
  assumes inv: "echo_inv evs v" and fd: "fd \<notin> nt_open v" and k: "k < MAX_EVENTS"
  shows "echo_inv (evs[k := armed k fd Handle_Recv EPOLLIN x]) (watch k (connected fd v))"
proof -
  let ?ev = "armed k fd Handle_Recv EPOLLIN x"
  have "conns_ok (evs[k := ?ev]) (watch k (connected fd v))"
  proof (rule conns_ok_update [OF echo_invD(2,1) [OF inv] k])
    have "slot_echo (connected fd v) ?ev"
      by (simp add: slot_echo_def pending_armed) (simp add: armed_def)
    then show "sl_fd ?ev = fd \<and> slot_echo (watch k (connected fd v)) ?ev" by (simp add: armed_def)
  qed (use fresh_fd [OF inv fd] touches_then in auto)
  moreover have "watches_ok (evs[k := ?ev]) (watch k (connected fd v))"
    by (rule watches_ok_update [OF echo_invD(3,1) [OF inv]]) (use k in \<open>auto simp: armed_def\<close>)
  ultimately show ?thesis
    using echo_invD [OF inv] faithful_connected by (simp add: echo_inv_def)
qed

lemma echo_kept_dishonest: "net u = v \<Longrightarrow> \<not> nt_honest v \<Longrightarrow> echo_kept out u"
  by (simp add: echo_kept_def)

lemma handle_accept_stream:
  assumes inv: "echo_inv (sv_slots s) (net s)"
  shows "wp (handle_accept fd) echo_kept s"
proof -
  let ?evs = "sv_slots s" and ?v = "net s"
  let ?k = "free_slot 0 (take MAX_EVENTS ?evs)"
  have len: "length ?evs = Suc MAX_EVENTS" by (rule echo_invD(1) [OF inv])
  have k: "?k \<le> MAX_EVENTS" using free_slot_range [of 0 "take MAX_EVENTS ?evs"] len by simp
  have f: "faithful ?v" by (rule echo_invD(4) [OF inv])
  have new: "wp (if ?k = MAX_EVENTS then ret () else bnd (set_non_block c) (\<lambda>ok. if \<not> ok then ret ()
       else thn (set_event ?k c Handle_Recv ?k) (event_add EPOLLIN ?k))) echo_kept u"
    if u: "sv_slots u = ?evs" "net u = connected c ?v" for c u
  proof -
    have stop: "net z = connected c ?v \<Longrightarrow> echo_kept (Fail e) z" for e z
      using faithful_connected [OF f] by (auto intro: echo_kept_Fail)
    have stay: "echo_kept (Ret ()) z" if "sv_slots z = ?evs" "net z = connected c ?v" for z
      by (cases "c \<in> nt_open ?v")
        (use that in \<open>auto intro: echo_kept_dishonest echo_kept_Ret echo_inv_connected [OF inv]\<close>)
    have arm: "wp (thn (set_event ?k c Handle_Recv ?k) (event_add EPOLLIN ?k)) echo_kept z"
      if z: "sv_slots z = ?evs" "net z = connected c ?v" and m: "?k < MAX_EVENTS" for z
    proof (rule wp_arm_net [where evs = ?evs and x = "?evs ! ?k"])
      show "echo_kept (Ret ()) z'" if "sv_slots z' = ?evs[?k := armed ?k c Handle_Recv EPOLLIN (?evs ! ?k)]"
          "net z' = watch ?k (net z)" for z'
        by (cases "c \<in> nt_open ?v")
          (use that z in \<open>auto intro: echo_kept_dishonest echo_kept_Ret echo_inv_accept [OF inv _ m]\<close>)
    qed (use z m len stop in simp_all)
    have "wp (bnd (set_non_block c) (\<lambda>ok. if \<not> ok then ret ()
       else thn (set_event ?k c Handle_Recv ?k) (event_add EPOLLIN ?k))) echo_kept u" if m: "?k < MAX_EVENTS"
      unfolding wp_bnd
    proof (rule wp_set_non_block_net, goal_cases)
      case (1 b z)
      then show ?case using stay [of z] arm [OF _ _ m, of z] u by (cases b) (simp_all add: wp_ret)
    qed (use u stop in simp)
    then show ?thesis using stay u k by (auto simp: wp_ret)
  qed
  show ?thesis
    unfolding handle_accept_def wp_bnd [of "srv_sys c" for c]
  proof (rule wp_srv_sys_net, goal_cases)
    case (1 r u)
    have "echo_kept (Ret ()) u" if "rp_rc r = -1"
      using 1 that inv by (intro echo_kept_Ret) simp_all
    then show ?case using 1 new [of u "rp_rc r"] by (simp add: wp_ret wp_bnd [of "gets f" for f] wp_gets del: wp_if)
  qed (use f in \<open>auto intro: echo_kept_Fail\<close>)
qed

subsection \<open>A kernel that was dishonest once\<close>

abbreviation dishonest :: "srv \<Rightarrow> bool" where
  "dishonest s \<equiv> \<not> nt_honest (net s)"

lemma net_step_honest: "nt_honest (net_step x v) \<Longrightarrow> nt_honest v"
  by (cases "(x, v)" rule: net_step.cases) (auto simp: net_defs split: if_splits)

lemma srv_sys_dishonest: "keeps dishonest (srv_sys c)"
proof (rule keepsI)
  fix s assume "dishonest s"
  then show "dishonest (snd (srv_sys c s))"
    by (cases rule: sys_cases [of "sv_world s" c]) (auto simp: srv_sys_def zoom_def dest: net_step_honest)
qed

lemma slot_dishonest: "keeps dishonest (get_slot i)" "keeps dishonest (change_slot i f)"
  by (auto simp: get_slot_def change_slot_def intro!: keeps_rules)

lemmas dishonest_rules = keeps_rules srv_sys_dishonest slot_dishonest

lemma event_dishonest:
  "keeps dishonest (event_add events i)" "keeps dishonest (event_del i)" "keeps dishonest (set_event i fd h a)"
  by (auto simp: event_add_def event_del_def set_event_def set_epoll_def intro!: dishonest_rules)

lemma call_handler_dishonest: "keeps dishonest (call_handler h fd arg)"
  by (cases h)
    (auto simp: call_handler_def handle_accept_def handle_recv_def handle_send_def set_non_block_def
      store_bytes_def terminate_buf_def close_slot_def intro!: dishonest_rules event_dishonest)

lemma dispatch_list_dishonest: "keeps dishonest (dispatch_list es)"
proof (induction es)
  case (Cons e es)
  then show ?case by (auto simp: dispatch_event_def fire_def intro!: dishonest_rules call_handler_dishonest)
qed (simp add: keeps_def)

lemma keeps_dishonest_kept: "keeps dishonest m \<Longrightarrow> dishonest s \<Longrightarrow> wp m echo_kept s"
  by (rule wp_mono [OF keeps_wp [of dishonest m s]]) (auto intro: echo_kept_dishonest)

subsection \<open>A turn\<close>

text \<open>The invariant of a state between two calls of a handler.\<close>

definition echo_state :: "srv \<Rightarrow> bool" where
  "echo_state s \<longleftrightarrow> table_ok (sv_slots s) \<and> (nt_honest (net s) \<longrightarrow> echo_inv (sv_slots s) (net s))"

lemma wp_conj: "wp m P s \<Longrightarrow> wp m Q s \<Longrightarrow> wp m (\<lambda>out t. P out t \<and> Q out t) s"
  by (simp add: wp_def split: prod.splits)

lemma echo_kept_state: "echo_kept (Ret x) u \<Longrightarrow> table_ok (sv_slots u) \<Longrightarrow> echo_state u"
  by (simp add: echo_kept_def echo_state_def)

lemma echo_state_kept: "echo_state s \<Longrightarrow> echo_kept out s"
  by (auto simp: echo_kept_def echo_state_def echo_inv_def split: outcome.split)

lemma call_handler_stream:
  assumes s: "echo_state s" and i: "i \<le> MAX_EVENTS" and st: "sl_status (sv_slots s ! i) = 1"
  shows "wp (call_handler (sl_call (sv_slots s ! i)) (sl_fd (sv_slots s ! i)) (sl_arg (sv_slots s ! i))) echo_kept s"
proof (cases "nt_honest (net s)")
  case True
  let ?x = "sv_slots s ! i"
  have t: "table_ok (sv_slots s)" and inv: "echo_inv (sv_slots s) (net s)" using s True by (simp_all add: echo_state_def)
  have ok: "slot_ok i ?x" by (rule slot_okD [OF t i])
  show ?thesis
  proof (cases "i = MAX_EVENTS")
    case True
    then have "sl_call ?x = Handle_Accept" using ok st by (simp add: slot_ok_def)
    then show ?thesis using handle_accept_stream [OF inv] by (simp add: call_handler_def)
  next
    case False
    then have lt: "i < MAX_EVENTS" using i by simp
    have "sl_arg ?x = Some i" "sl_call ?x = Handle_Recv \<or> sl_call ?x = Handle_Send"
      using ok st False by (auto simp: slot_ok_def)
    then show ?thesis
      using handle_recv_stream [OF inv t lt st _ refl] handle_send_stream [OF inv t lt st _ refl]
      by (auto simp: call_handler_def wp_bnd wp_defined)
  qed
next
  case False
  then show ?thesis by (intro keeps_dishonest_kept call_handler_dishonest)
qed

lemma fire_stream:
  assumes s: "echo_state s" and i: "i \<le> MAX_EVENTS"
    and flag: "flag = EPOLLIN \<or> flag = EPOLLOUT"
    and st: "and (sl_events (sv_slots s ! i)) flag \<noteq> 0 \<Longrightarrow> sl_status (sv_slots s ! i) = 1"
  shows "wp (fire flag events i) (\<lambda>out u. fired i (sv_slots s) out u \<and> echo_kept out u) s"
proof (rule wp_conj)
  have t: "table_ok (sv_slots s)" using s by (simp add: echo_state_def)
  show "wp (fire flag events i) (fired i (sv_slots s)) s" by (rule fire_fired [OF t i flag st])
  have "i < length (sv_slots s)" using t i by (simp add: table_ok_def)
  then show "wp (fire flag events i) echo_kept s"
    using call_handler_stream [OF s i st] echo_state_kept [OF s, of "Ret ()"]
    by (simp add: fire_def wp_bnd wp_get_slot wp_ret)
qed

lemma dispatch_event_stream:
  assumes s: "echo_state s" and i: "i \<le> MAX_EVENTS" and st: "sl_status (sv_slots s ! i) = 1" and e: "nat (snd e) = i"
  shows "wp (dispatch_event e) echo_kept s"
proof -
  have t: "table_ok (sv_slots s)" using s by (simp add: echo_state_def)
  have mask: "sl_events (sv_slots s ! i) = EPOLLIN \<or> sl_events (sv_slots s ! i) = EPOLLOUT"
    using slot_okD [OF t i] st by (auto simp: slot_ok_def split: if_splits)
  have second: "wp (fire EPOLLOUT (fst e) i) echo_kept u"
    if u: "echo_state u" and on: "sl_status (sv_slots u ! i) = 0 \<Longrightarrow> and (sl_events (sv_slots u ! i)) EPOLLOUT = 0" for u
  proof (rule wp_mono [OF fire_stream [OF u i]])
    have "slot_ok i (sv_slots u ! i)" by (rule slot_okD [OF _ i]) (use u in \<open>simp add: echo_state_def\<close>)
    then have "sl_status (sv_slots u ! i) \<in> {0, 1}" by (auto simp: slot_ok_def)
    then show "and (sl_events (sv_slots u ! i)) EPOLLOUT \<noteq> 0 \<Longrightarrow> sl_status (sv_slots u ! i) = 1" using on by auto
  qed simp_all
  show ?thesis
    unfolding dispatch_event_def wp_thn e
  proof (cases "sl_events (sv_slots s ! i) = EPOLLIN")
    case True
    show "wp (fire EPOLLIN (fst e) i) (\<lambda>out u. case out of Ret x \<Rightarrow> wp (fire EPOLLOUT (fst e) i) echo_kept u
        | Fail f \<Rightarrow> echo_kept (Fail f) u) s"
    proof (rule wp_mono [OF fire_stream [OF s i _ st]], simp, elim conjE)
      fix out and u :: srv assume u: "fired i (sv_slots s) out u" "echo_kept out u"
      then have "table_ok (sv_slots u)" "sl_status (sv_slots u ! i) = 0 \<Longrightarrow> and (sl_events (sv_slots u ! i)) EPOLLOUT = 0"
        using True masks_disjoint by (auto simp: fired_def handled_def)
      then show "case out of Ret x \<Rightarrow> wp (fire EPOLLOUT (fst e) i) echo_kept u | Fail f \<Rightarrow> echo_kept (Fail f) u"
        using u(2) second [OF echo_kept_state] by (cases out) auto
    qed
  next
    case False
    then have "and (sl_events (sv_slots s ! i)) EPOLLIN = 0" using mask masks_disjoint by auto
    moreover have "i < length (sv_slots s)" using t i by (simp add: table_ok_def)
    ultimately show "wp (fire EPOLLIN (fst e) i) (\<lambda>out u. case out of Ret x \<Rightarrow> wp (fire EPOLLOUT (fst e) i) echo_kept u
        | Fail f \<Rightarrow> echo_kept (Fail f) u) s"
      using second [OF s] st by (simp add: fire_def wp_bnd wp_get_slot wp_ret)
  qed
qed

lemma dispatch_list_stream:
  "echo_state s \<Longrightarrow> honest_batch (sv_slots s) es \<Longrightarrow> wp (dispatch_list es) echo_kept s"
proof (induction es arbitrary: s)
  case Nil
  then show ?case by (simp add: wp_def echo_state_kept)
next
  case (Cons e es)
  have t: "table_ok (sv_slots s)" using Cons.prems(1) by (simp add: echo_state_def)
  have e: "nat (snd e) \<le> MAX_EVENTS" "sl_status (sv_slots s ! nat (snd e)) = 1"
    using Cons.prems(2) by (auto simp: honest_batch_def)
  show ?case
    unfolding dispatch_list.simps wp_thn
  proof (rule wp_mono [OF wp_conj [OF dispatch_event_handled [OF t e refl] dispatch_event_stream [OF Cons.prems(1) e refl]]],
      elim conjE)
    fix out and u :: srv
    assume u: "echo_kept out u" "handled (nat (snd e)) (sv_slots s) (sv_slots u)"
    have "honest_batch (sv_slots u) es" using Cons.prems(2) u(2) by (rule honest_batch_handled)
    moreover have "table_ok (sv_slots u)" using u(2) by (simp add: handled_def)
    ultimately show "case out of Ret x \<Rightarrow> wp (dispatch_list es) echo_kept u | Fail f \<Rightarrow> echo_kept (Fail f) u"
      using u(1) Cons.IH [OF echo_kept_state] by (cases out) auto
  qed
qed

lemma echo_inv_waited: "echo_inv evs (waited r v) = echo_inv evs v"
  by (simp add: echo_inv_def) (simp add: conns_ok_def watches_ok_def slot_echo_def waited_def)

lemma honest_batchI:
  assumes "echo_inv evs v" "batch_ok (nt_watched v) r"
  shows "honest_batch evs (take (nat (rp_rc r)) (events_of (rp_data r)))"
  using assms unfolding batch_ok_def Let_def honest_batch_def echo_inv_def watches_ok_def
  by (simp add: image_subset_iff subset_iff)

text \<open>Between two turns.\<close>

definition turn_ok :: "srv \<Rightarrow> bool" where
  "turn_ok s \<longleftrightarrow> (nt_honest (net s) \<longrightarrow> table_ok (sv_slots s) \<and> echo_inv (sv_slots s) (net s))"

definition turn_kept :: "'a outcome \<Rightarrow> srv \<Rightarrow> bool" where
  "turn_kept out t \<longleftrightarrow> (nt_honest (net t) \<longrightarrow> faithful (net t)) \<and> (case out of Ret x \<Rightarrow> turn_ok t | Fail e \<Rightarrow> True)"

lemma turn_kept_dishonest: "dishonest t \<Longrightarrow> turn_kept out t"
  by (simp add: turn_kept_def turn_ok_def split: outcome.split)

lemma turn_okD: "turn_ok s \<Longrightarrow> nt_honest (net s) \<longrightarrow> faithful (net s)"
  by (simp add: turn_ok_def echo_inv_def)

lemma turn_kept_cases:
  "(nt_honest (net t) \<longrightarrow> faithful (net t)) \<Longrightarrow> turn_kept (Fail e) t"
  "turn_ok t \<Longrightarrow> turn_kept (Ret x) t"
  using turn_okD by (auto simp: turn_kept_def)

lemma dispatch_events_dishonest: "keeps dishonest dispatch_events"
  by (auto simp: dispatch_events_def intro!: dishonest_rules dispatch_list_dishonest)

lemma dispatch_events_stream:
  assumes "turn_ok s"
  shows "wp dispatch_events turn_kept s"
proof (cases "nt_honest (net s)")
  case False
  then show ?thesis
    by (intro wp_mono [OF keeps_wp [OF dispatch_events_dishonest]] turn_kept_dishonest) auto
next
  case True
  then have t: "table_ok (sv_slots s)" and inv: "echo_inv (sv_slots s) (net s)" using assms by (simp_all add: turn_ok_def)
  have turn: "wp (thn (dispatch_list (take (nat (rp_rc r)) (events_of (rp_data r)))) (ret True)) turn_kept u"
    if u: "sv_slots u = sv_slots s" "net u = waited r (net s)" for r u
  proof (cases "nt_honest (net u)")
    case False
    then have "wp (dispatch_list (take (nat (rp_rc r)) (events_of (rp_data r)))) (\<lambda>out z. dishonest z) u"
      by (rule keeps_wp [OF dispatch_list_dishonest])
    then show ?thesis
      unfolding wp_thn by (rule wp_mono) (auto simp: wp_ret turn_kept_dishonest split: outcome.split)
  next
    case h: True
    have batch: "honest_batch (sv_slots u) (take (nat (rp_rc r)) (events_of (rp_data r)))"
      using honest_batchI [OF inv] h u by (simp add: waited_def)
    have eu: "echo_state u" using t inv u by (simp add: echo_state_def echo_inv_waited)
    have tu: "table_ok (sv_slots u)" using t u by simp
    show ?thesis
      unfolding wp_thn
    proof (rule wp_mono [OF wp_conj [OF dispatch_list_handled [OF tu batch] dispatch_list_stream [OF eu batch]]], elim conjE)
      fix out z assume z: "echo_kept out z" "good_turn (sv_slots u) (sv_slots z)"
      then show "case out of Ret x \<Rightarrow> wp (ret True) turn_kept z | Fail e \<Rightarrow> turn_kept (Fail e) z"
        by (cases out) (auto simp: wp_ret echo_kept_def good_turn_def turn_ok_def intro: turn_kept_cases)
    qed
  qed
  show ?thesis
    unfolding dispatch_events_def wp_bnd wp_gets outcome.case
  proof (rule wp_srv_sys_net, goal_cases)
    case (1 r u)
    have "turn_ok u" using 1 t inv by (simp add: turn_ok_def echo_inv_waited)
    then show ?case using 1 turn [of u r] by (simp add: wp_ret turn_kept_cases del: wp_if)
  qed (use turn_okD [OF assms] turn_kept_cases in auto)
qed

text \<open>The loop.\<close>

lemma srv_run_stream: "turn_ok s \<Longrightarrow> wp srv_run turn_kept s"
proof (induction s rule: srv_run.induct)
  case (1 s)
  obtain out u where d: "dispatch_events s = (out, u)" by (rule prod.exhaust)
  have k: "turn_kept out u" by (rule wpD [OF dispatch_events_stream [OF "1.prems"] d])
  show ?case
  proof (cases out)
    case (Ret b)
    then have u: "turn_ok u" using k by (simp add: turn_kept_def)
    show ?thesis
    proof (cases b)
      case True
      then have "wp srv_run turn_kept u" using "1.IH" [OF d [symmetric] Ret] u by simp
      then show ?thesis using d Ret True by (simp add: wp_def srv_run.simps [of s])
    next
      case False
      then show ?thesis using d Ret turn_kept_cases(2) [OF u] by (simp add: wp_def srv_run.simps [of s])
    qed
  next
    case (Fail e)
    then show ?thesis using d k by (simp add: wp_def srv_run.simps [of s] turn_kept_def)
  qed
qed

subsection \<open>The start\<close>

definition setting_up :: "srv \<Rightarrow> bool" where
  "setting_up s \<longleftrightarrow> sv_slots s = replicate (Suc MAX_EVENTS) slot_init \<and> nt_watched (net s) = {} \<and> faithful (net s)"

fun setup_call :: "syscall \<Rightarrow> bool" where
  "setup_call (Socket af ty pr) \<longleftrightarrow> True"
| "setup_call (Bind fd a) \<longleftrightarrow> True"
| "setup_call (Listen fd n) \<longleftrightarrow> True"
| "setup_call (Fcntl fd c) \<longleftrightarrow> True"
| "setup_call (Epoll_create n) \<longleftrightarrow> True"
| "setup_call _ \<longleftrightarrow> False"

lemma srv_sys_setting_up: "setup_call c \<Longrightarrow> keeps setting_up (srv_sys c)"
proof (rule keepsI)
  fix s assume "setup_call c" "setting_up s"
  then show "setting_up (snd (srv_sys c s))"
    by (cases rule: sys_cases [of "sv_world s" c]; cases c)
      (auto simp: setting_up_def srv_sys_def zoom_def opened_def faithful_def simp del: replicate.simps)
qed

lemma setup_keeps: "keeps setting_up (init_listen_socket port)" "keeps setting_up init_epoll"
  by (auto simp: init_listen_socket_def init_epoll_def set_non_block_def
      intro!: keeps_rules srv_sys_setting_up) (simp add: setting_up_def)

lemma srv_init_setting_up: "setting_up (srv_init (boot script))"
  by (simp add: setting_up_def srv_init_def faithful_def net_init_def del: replicate.simps)

lemma setting_up_inv: "setting_up s \<Longrightarrow> echo_inv (sv_slots s) (net s)"
proof -
  assume s: "setting_up s"
  have free: "sl_status slot_init = 0" by (simp add: slot_init_def)
  show ?thesis
    using s free by (simp add: echo_inv_def conns_ok_def watches_ok_def setting_up_def del: replicate.simps)
qed

lemma watch_listener_stream:
  assumes "setting_up s"
  shows "wp (watch_listener fd) turn_kept s"
proof -
  let ?evs = "sv_slots s" and ?ev = "armed MAX_EVENTS fd Handle_Accept EPOLLIN slot_init"
  have inv: "echo_inv ?evs (net s)" by (rule setting_up_inv [OF assms])
  have slots: "?evs = replicate (Suc MAX_EVENTS) slot_init" using assms by (simp add: setting_up_def)
  have "conns_ok (?evs[MAX_EVENTS := ?ev]) (watch MAX_EVENTS (net s))"
    using echo_invD(2) [OF inv] by (simp add: conns_ok_def)
  moreover have "watches_ok (?evs[MAX_EVENTS := ?ev]) (watch MAX_EVENTS (net s))"
    by (rule watches_ok_update [OF echo_invD(3,1) [OF inv]]) (simp_all add: armed_def)
  ultimately have "echo_inv (?evs[MAX_EVENTS := ?ev]) (watch MAX_EVENTS (net s))"
    using echo_invD [OF inv] by (simp add: echo_inv_def)
  then have "wp (watch_listener fd) (\<lambda>out t. (nt_honest (net t) \<longrightarrow> faithful (net t)) \<and>
      (out = Ret () \<longrightarrow> echo_inv (sv_slots t) (net t))) s"
    unfolding watch_listener_def
    by (intro wp_arm_net [where evs = ?evs and x = slot_init])
      (use echo_invD [OF inv] slots in \<open>auto simp: echo_inv_def simp del: replicate.simps intro!: nth_equalityI simp: nth_list_update\<close>)
  from wp_conj [OF watch_listener_table [OF slots] this] show ?thesis
    by (rule wp_mono) (auto simp: turn_kept_def turn_ok_def split: outcome.split)
qed

lemma start_server_stream: "wp (start_server port) (\<lambda>out t. nt_honest (net t) \<longrightarrow> faithful (net t)) (srv_init (boot script))"
proof -
  have stop: "nt_honest (net s) \<longrightarrow> faithful (net s)" if "setting_up s" for s
    using that by (simp add: setting_up_def)
  have run: "wp (thn (watch_listener fd) (thn srv_run (ret (0::int)))) (\<lambda>out t. nt_honest (net t) \<longrightarrow> faithful (net t)) s"
    if s: "setting_up s" for fd s
  proof -
    have "wp (thn srv_run (ret (0::int))) (\<lambda>out t. nt_honest (net t) \<longrightarrow> faithful (net t)) u" if "turn_ok u" for u
      unfolding wp_thn
      by (rule wp_mono [OF srv_run_stream [OF that]]) (auto simp: turn_kept_def wp_ret split: outcome.split)
    then show ?thesis
      unfolding wp_thn [of "watch_listener fd"]
      by (intro wp_mono [OF watch_listener_stream [OF s]]) (auto simp: turn_kept_def split: outcome.split)
  qed
  show ?thesis
    unfolding start_server_def wp_bnd [of "init_listen_socket port"]
  proof (rule wp_mono)
    show "wp (init_listen_socket port) (\<lambda>out s. setting_up s) (srv_init (boot script))"
      by (rule keeps_wp [OF setup_keeps(1) srv_init_setting_up])
  next
    fix out s assume s: "setting_up s"
    have "wp init_epoll (\<lambda>out s. setting_up s) s" by (rule keeps_wp [OF setup_keeps(2) s])
    then have "wp (bnd init_epoll (\<lambda>ok. if \<not> ok then ret (-1::int)
        else thn (watch_listener fd) (thn srv_run (ret 0)))) (\<lambda>out t. nt_honest (net t) \<longrightarrow> faithful (net t)) s" for fd
      unfolding wp_bnd by (rule wp_mono) (auto simp: wp_ret stop run split: outcome.split)
    then show "case out of Ret fd \<Rightarrow> wp (if fd < 0 then ret (-1::int) else bnd init_epoll (\<lambda>ok. if \<not> ok then ret (-1)
        else thn (watch_listener fd) (thn srv_run (ret 0)))) (\<lambda>out t. nt_honest (net t) \<longrightarrow> faithful (net t)) s
      | Fail e \<Rightarrow> nt_honest (net s) \<longrightarrow> faithful (net s)"
      using stop [OF s] by (auto simp: wp_ret split: outcome.split)
  qed
qed


subsection \<open>Properties\<close>

text \<open>The states of a server that is started with a script: after the start, and after each turn.\<close>

inductive serving :: "16 word \<Rightarrow> reply list \<Rightarrow> srv \<Rightarrow> bool" for port script where
  started: "init_listen_socket port (srv_init (boot script)) = (Ret fd, s) \<Longrightarrow> 0 \<le> fd \<Longrightarrow>
     init_epoll s = (Ret True, t) \<Longrightarrow> watch_listener fd t = (Ret (), u) \<Longrightarrow> serving port script u"
| turned: "serving port script s \<Longrightarrow> dispatch_events s = (Ret True, t) \<Longrightarrow> serving port script t"

lemma serving_turn_ok: "serving port script s \<Longrightarrow> turn_ok s"
proof (induction rule: serving.induct)
  case (started fd s t u)
  have "setting_up s" using keepsD [OF setup_keeps(1) srv_init_setting_up, of port script] started(1) by simp
  then have "setting_up t" using keepsD [OF setup_keeps(2)] started(3) by fastforce
  then show ?case using wpD [OF watch_listener_stream started(4)] by (simp add: turn_kept_def)
next
  case (turned s t)
  then show ?case using wpD [OF dispatch_events_stream] by (fastforce simp: turn_kept_def)
qed

text \<open>C1. The streams of the plain epoll server, from its start to its end: for every script, however the run of
  \<open>start_server\<close> ends, what was sent on a descriptor since it was accepted is a part (in order) of what was
  received on it, and a prefix of it as long as every send took all it was offered. The hypothesis is the honesty
  of the kernel: it hands out descriptors that are not in use, and it reports watched slots, each once.\<close>

theorem srv_echo_stream:
  assumes "start_server port (srv_init (boot script)) = (out, t)" "nt_honest (net_of (w_trace (sv_world t)))"
  shows "let v = net_of (w_trace (sv_world t))
    in subseq (nt_out v fd) (nt_in v fd) \<and> (nt_full v fd \<longrightarrow> prefix (nt_out v fd) (nt_in v fd))"
  using wpD [OF start_server_stream assms(1)] assms(2) faithful_streams by (simp add: Let_def)

text \<open>C21. The balance of a connection: between two turns, with an honest kernel, the descriptors of the taken slots are open and
  different, and a connection has received exactly what has been offered to \<^verbatim>\<open>send\<close> for it, in order, followed by the
  bytes its slot still holds; a slot that reads holds none. What \<^verbatim>\<open>send\<close> has taken is a part of what it was offered,
  and all of it as long as every send was complete. So a byte that is received is offered to the peer it came from, once, and
  what is lost is what a send did not take.\<close>

theorem srv_echo_balance:
  assumes "serving port script s" "nt_honest (net_of (w_trace (sv_world s)))"
    and "i < MAX_EVENTS" "sl_status (sv_slots s ! i) = 1"
  shows "let v = net_of (w_trace (sv_world s)); fd = sl_fd (sv_slots s ! i)
    in fd \<in> nt_open v \<and> nt_in v fd = nt_offered v fd @ pending (sv_slots s ! i) \<and>
    subseq (nt_out v fd) (nt_offered v fd) \<and> (nt_full v fd \<longrightarrow> nt_out v fd = nt_offered v fd) \<and>
    (phase_of (sv_slots s ! i) = Reading \<longrightarrow> pending (sv_slots s ! i) = []) \<and>
    (\<forall>j < MAX_EVENTS. sl_status (sv_slots s ! j) = 1 \<longrightarrow> sl_fd (sv_slots s ! j) = fd \<longrightarrow> j = i)"
proof -
  have inv: "echo_inv (sv_slots s) (net s)" using serving_turn_ok [OF assms(1)] assms(2) by (simp add: turn_ok_def)
  have "slot_echo (net s) (sv_slots s ! i)" by (rule slot_echoD [OF inv assms(3,4)])
  moreover have "j = i" if "j < MAX_EVENTS" "sl_status (sv_slots s ! j) = 1" "sl_fd (sv_slots s ! j) = sl_fd (sv_slots s ! i)" for j
    using other_fd [OF inv assms(3,4) refl] that by blast
  moreover have "phase_of (sv_slots s ! i) = Reading \<Longrightarrow> pending (sv_slots s ! i) = []" by (simp add: pending_def)
  moreover have "faithful (net s)" by (rule echo_invD(4) [OF inv])
  ultimately show ?thesis by (simp add: Let_def slot_echo_def faithful_def)
qed

subsection \<open>Witnesses\<close>

text \<open>A session: the server starts, accepts descriptor 7, receives two bytes and sends them; then it is interrupted.\<close>

definition echo_session :: "reply list" where
  "echo_session = map (\<lambda>(rc, d). \<lparr>rp_rc = rc, rp_err = 0, rp_data = d\<rparr>)
     [(4, No_data), (2, No_data), (0, No_data), (0, No_data), (0, No_data), (3, No_data), (0, No_data),
      (1, Events [(EPOLLIN, int MAX_EVENTS)]), (7, No_data), (2, No_data), (0, No_data), (0, No_data),
      (1, Events [(EPOLLIN, 0)]), (2, Bytes ''He''), (0, No_data), (0, No_data),
      (1, Events [(EPOLLOUT, 0)]), (2, No_data), (0, No_data), (0, No_data), (-1, No_data)]"

definition echo_calls :: "syscall list" where
  "echo_calls =
     [Socket AF_INET SOCK_STREAM IPPROTO_TCP, Fcntl 4 F_GETFL, Fcntl 4 (F_SETFL (or 2 O_NONBLOCK)),
      Bind 4 (listen_addr 9000), Listen 4 20, Epoll_create 1, Epoll_ctl 3 EPOLL_CTL_ADD 4 EPOLLIN (int MAX_EVENTS),
      Epoll_wait 3 (Suc MAX_EVENTS) 1000, Accept 4, Fcntl 7 F_GETFL, Fcntl 7 (F_SETFL (or 2 O_NONBLOCK)),
      Epoll_ctl 3 EPOLL_CTL_ADD 7 EPOLLIN 0,
      Epoll_wait 3 (Suc MAX_EVENTS) 1000, Recv 7 BUFF_LEN 0, Epoll_ctl 3 EPOLL_CTL_DEL 7 0 0, Epoll_ctl 3 EPOLL_CTL_ADD 7 EPOLLOUT 0,
      Epoll_wait 3 (Suc MAX_EVENTS) 1000, Send 7 ''He'' 0, Epoll_ctl 3 EPOLL_CTL_DEL 7 0 0, Epoll_ctl 3 EPOLL_CTL_ADD 7 EPOLLIN 0,
      Epoll_wait 3 (Suc MAX_EVENTS) 1000]"

text \<open>The session after \<open>n\<close> calls, with the first connection slot \<open>x\<close>.\<close>

definition echo_at :: "nat \<Rightarrow> slot \<Rightarrow> srv" where
  "echo_at n x = \<lparr>sv_slots = (replicate (Suc MAX_EVENTS) slot_init)[MAX_EVENTS := armed MAX_EVENTS 4 Handle_Accept EPOLLIN slot_init, 0 := x],
     sv_efd = 3, sv_world = \<lparr>w_script = drop n echo_session, w_trace = zip (take n echo_calls) echo_session, w_errno = 0\<rparr>\<rparr>"

definition echo_read :: slot where
  "echo_read = armed 0 7 Handle_Recv EPOLLIN slot_init"

lemma echo_table: "(replicate (Suc MAX_EVENTS) slot_init)[MAX_EVENTS := x, 0 := slot_init] = (replicate (Suc MAX_EVENTS) slot_init)[MAX_EVENTS := x]"
  by (rule nth_equalityI) (auto simp: nth_list_update MAX_EVENTS_def simp del: replicate.simps)

lemma MAX_EVENTS_pos: "0 < MAX_EVENTS" "MAX_EVENTS \<noteq> 0"
  by (simp_all add: MAX_EVENTS_def)

lemmas echo_run = exact_run armed_def status_ok_def transfer_ok_def echo_session_def echo_calls_def slot_init_def answered_def

lemma echo_up:
  "\<exists>s t. init_listen_socket 9000 (srv_init (boot echo_session)) = (Ret 4, s) \<and> init_epoll s = (Ret True, t) \<and>
     watch_listener 4 t = (Ret (), echo_at 7 slot_init)"
  unfolding echo_at_def echo_table
  by (simp add: init_listen_socket_def set_non_block_def init_epoll_def watch_listener_def srv_init_def nth_append echo_run
      del: replicate.simps)

lemma echo_turn1: "dispatch_events (echo_at 7 slot_init) = (Ret True, echo_at 12 echo_read)"
  unfolding echo_at_def echo_table
  using MAX_EVENTS_pos sample_free_slot
  by (simp add: echo_read_def dispatch_events_def dispatch_event_def fire_def call_handler_def handle_accept_def
      set_non_block_def echo_run EPOLLIN_def EPOLLOUT_def del: replicate.simps)

lemma echo_turn2: "dispatch_events (echo_at 12 echo_read) = (Ret True, echo_at 16 (echoing 0 7 ''He'' echo_read))"
  using MAX_EVENTS_pos
  by (simp add: echo_at_def echo_read_def echoing_def dispatch_events_def dispatch_event_def fire_def call_handler_def
      handle_recv_def store_bytes_def terminate_buf_def BUFF_LEN_def zero_bytes_def echo_run EPOLLIN_def EPOLLOUT_def del: replicate.simps)

lemma echo_turn3: "dispatch_events (echo_at 16 (echoing 0 7 ''He'' echo_read)) =
    (Ret True, echo_at 20 ((echoing 0 7 ''He'' echo_read)\<lparr>sl_call := Handle_Recv, sl_events := EPOLLIN\<rparr>))"
  using MAX_EVENTS_pos
  by (simp add: echo_at_def echo_read_def echoing_def dispatch_events_def dispatch_event_def fire_def call_handler_def
      handle_send_def BUFF_LEN_def zero_bytes_def echo_run EPOLLIN_def EPOLLOUT_def size_of_int_def size_max_def
      del: replicate.simps)

lemma echo_turn4: "dispatch_events (echo_at 20 x) = (Ret False, echo_at 21 x)"
  by (simp add: echo_at_def dispatch_events_def echo_run del: replicate.simps)

lemma srv_run_turn: "dispatch_events s = (Ret True, t) \<Longrightarrow> srv_run s = srv_run t"
  by (simp add: srv_run.simps [of s])

lemma echo_session_run: "\<exists>x. start_server 9000 (srv_init (boot echo_session)) = (Ret 0, echo_at 21 x)"
proof -
  obtain s t where "init_listen_socket 9000 (srv_init (boot echo_session)) = (Ret 4, s)" "init_epoll s = (Ret True, t)"
      "watch_listener 4 t = (Ret (), echo_at 7 slot_init)"
    using echo_up by blast
  then have "start_server 9000 (srv_init (boot echo_session)) = thn srv_run (ret 0) (echo_at 7 slot_init)"
    by (simp add: start_server_def)
  moreover have "srv_run (echo_at 7 slot_init) = srv_run (echo_at 20 ((echoing 0 7 ''He'' echo_read)\<lparr>sl_call := Handle_Recv, sl_events := EPOLLIN\<rparr>))"
    by (simp only: srv_run_turn [OF echo_turn1] srv_run_turn [OF echo_turn2] srv_run_turn [OF echo_turn3])
  ultimately show ?thesis by (auto simp: thn_apply srv_run.simps [of "echo_at 20 x" for x] echo_turn4)
qed

lemma echo_net:
  "net (echo_at 21 x) = \<lparr>nt_honest = True, nt_open = {3, 4, 7}, nt_watched = {0, MAX_EVENTS},
     nt_in = (\<lambda>_. [])(7 := ''He''), nt_offered = (\<lambda>_. [])(7 := ''He''), nt_out = (\<lambda>_. [])(7 := ''He''), nt_full = (\<lambda>_. True)\<rparr>"
  by (simp add: echo_at_def echo_calls_def echo_session_def net_of_def net_init_def net_defs batch_ok_def fun_eq_iff insert_commute)

lemma srv_echo_stream_witness:
  "\<exists>t. start_server 9000 (srv_init (boot echo_session)) = (Ret 0, t) \<and> nt_in (net t) 7 = ''He'' \<and>
     nt_out (net t) 7 = ''He'' \<and> prefix (nt_out (net t) 7) (nt_in (net t) 7)"
proof -
  obtain x where x: "start_server 9000 (srv_init (boot echo_session)) = (Ret 0, echo_at 21 x)"
    using echo_session_run by blast
  have "prefix (nt_out (net (echo_at 21 x)) 7) (nt_in (net (echo_at 21 x)) 7)"
    using srv_echo_stream [OF x, of 7] unfolding echo_net by (simp add: Let_def)
  then show ?thesis using x unfolding echo_net by (intro exI [of _ "echo_at 21 x"]) (simp add: echo_net)
qed

lemma echo_serving: "serving 9000 echo_session (echo_at 16 (echoing 0 7 ''He'' echo_read))"
proof -
  obtain s t where "init_listen_socket 9000 (srv_init (boot echo_session)) = (Ret 4, s)" "init_epoll s = (Ret True, t)"
      "watch_listener 4 t = (Ret (), echo_at 7 slot_init)"
    using echo_up by blast
  then have "serving 9000 echo_session (echo_at 7 slot_init)" by (intro serving.started [of _ _ 4]) simp_all
  then show ?thesis using echo_turn1 echo_turn2 serving.turned by blast
qed

lemma srv_echo_balance_witness:
  "\<exists>s. serving 9000 echo_session s \<and> phase_of (sv_slots s ! 0) = Writing \<and> nt_in (net s) 7 = ''He'' \<and>
     nt_in (net s) 7 = nt_offered (net s) 7 @ pending (sv_slots s ! 0)"
proof -
  let ?s = "echo_at 16 (echoing 0 7 ''He'' echo_read)"
  have n: "nt_honest (net ?s)" "nt_full (net ?s) 7" "nt_in (net ?s) 7 = ''He''"
    by (simp_all add: echo_at_def echo_calls_def echo_session_def net_of_def net_init_def net_defs batch_ok_def)
  have x: "sv_slots ?s ! 0 = echoing 0 7 ''He'' echo_read" by (simp add: echo_at_def del: replicate.simps)
  then have "nt_in (net ?s) 7 = nt_offered (net ?s) 7 @ pending (sv_slots ?s ! 0)"
    using srv_echo_balance [OF echo_serving n(1) MAX_EVENTS_pos(1)] n(2) by (simp add: Let_def echoing_def)
  moreover have "phase_of (sv_slots ?s ! 0) = Writing" unfolding x by (simp add: phase_of_def echoing_def)
  ultimately show ?thesis using echo_serving n(3) by blast
qed

end
