(* ===== verification/Raw_Client.thy ===== *)
theory Raw_Client
  imports Server_Socket
begin

section \<open>The raw echo client\<close>

text \<open>
  Models \<^verbatim>\<open>src/raw_echo_client/main.cpp\<close>. The state is the buffer of the loop and the world.
  \<open>main\<close> copies the (empty) address over the string literal with the server's address, which is
  undefined; what follows is modelled as \<open>client_session\<close> all the same. The constructor
  \<^verbatim>\<open>std::string(buf, 0, n)\<close> first makes a string of the whole buffer up to its zero.

  \<^verbatim>\<open>send\<close> is called with no flags, and nothing sets a disposition for \<^verbatim>\<open>SIGPIPE\<close>: a send to a peer that has reset
  the connection and is sent to again kills the process (see \<open>Kernel\<close>). Such a run is one whose script ends at that call.
\<close>

record client =
  cl_buf :: string
  cl_world :: world

type_synonym 'a client_prog = "(client, 'a) prog"

definition MESSAGE :: string where "MESSAGE = ''Hello Server!''"
definition CLIENT_BUF :: nat where "CLIENT_BUF = 4096"
definition client_port :: "16 word" where "client_port = 8080"

definition client_sys :: "syscall \<Rightarrow> reply client_prog" where
  "client_sys c = zoom cl_world (\<lambda>w s. s\<lparr>cl_world := w\<rparr>) (sys c)"

definition client_init :: "world \<Rightarrow> client" where
  "client_init w = \<lparr>cl_buf = ''test!'' @ zero_bytes (CLIENT_BUF - 5), cl_world = w\<rparr>"

definition buf_write :: "string \<Rightarrow> unit client_prog" where
  "buf_write xs = bnd (gets (\<lambda>s. mem_write 0 xs (cl_buf s))) (\<lambda>m.
     bnd (defined Out_of_bounds m) (\<lambda>buf. modify (\<lambda>s. s\<lparr>cl_buf := buf\<rparr>)))"

text \<open>The string that starts in the buffer.\<close>

definition buf_string :: "string client_prog" where
  "buf_string = bnd (gets cl_buf) (\<lambda>buf.
     if CHR 0x00 \<in> set buf then ret (takeWhile (\<lambda>c. c \<noteq> CHR 0x00) buf) else fail (Undef Out_of_bounds))"

text \<open>One turn of the loop; the value says whether it goes on.\<close>

definition client_turn :: "int \<Rightarrow> bool client_prog" where
  "client_turn fd =
     thn (buf_write (MESSAGE @ [CHR 0x00]))
    (bnd buf_string (\<lambda>msg.
     bnd (client_sys (Send fd msg 0)) (\<lambda>r.
       if rp_rc r < 0 then ret False
       else bnd (client_sys (Recv fd CLIENT_BUF 0)) (\<lambda>r.
            thn (buf_write (bytes_of (rp_data r)))
                (if rp_rc r > 0 then thn buf_string (ret True) else ret True)))))"

lemma client_sys_cases:
  obtains (reply) r rs where "w_script (cl_world s) = r # rs" "reply_ok c r"
      "client_sys c s = (Ret r, s\<lparr>cl_world := answered c r (cl_world s)\<rparr>)"
  | (stuck) "client_sys c s = (Fail Pending, s)"
  by (cases rule: sys_cases [of "cl_world s" c]) (auto simp: client_sys_def zoom_def)

text \<open>The buffer keeps its length, and its last byte stays zero as long as no message fills it.\<close>

definition buf_ok :: "client \<Rightarrow> bool" where
  "buf_ok s \<longleftrightarrow> length (cl_buf s) = CLIENT_BUF"

definition short_reply :: "reply \<Rightarrow> bool" where
  "short_reply r \<longleftrightarrow> rp_rc r < int CLIENT_BUF"

definition buf_zero :: "client \<Rightarrow> bool" where
  "buf_zero s \<longleftrightarrow> buf_ok s \<and> cl_buf s ! (CLIENT_BUF - 1) = CHR 0x00"

lemma buf_zero_string: "buf_zero s \<Longrightarrow> CHR 0x00 \<in> set (cl_buf s)"
  unfolding buf_zero_def buf_ok_def CLIENT_BUF_def by (metis nth_mem diff_less zero_less_numeral zero_less_one)

lemma buf_write_ok:
  assumes "buf_ok s" "length xs \<le> CLIENT_BUF"
  shows "buf_write xs s = (Ret (), s\<lparr>cl_buf := xs @ drop (length xs) (cl_buf s)\<rparr>)"
  using assms by (simp add: buf_write_def buf_ok_def bnd_apply)

lemma buf_write_keeps:
  "buf_ok s \<Longrightarrow> length xs \<le> CLIENT_BUF \<Longrightarrow> buf_ok (s\<lparr>cl_buf := xs @ drop (length xs) (cl_buf s)\<rparr>)"
  "buf_zero s \<Longrightarrow> length xs < CLIENT_BUF \<Longrightarrow> buf_zero (s\<lparr>cl_buf := xs @ drop (length xs) (cl_buf s)\<rparr>)"
  by (auto simp: buf_ok_def buf_zero_def nth_append CLIENT_BUF_def)

lemma message_string: "takeWhile (\<lambda>c. c \<noteq> CHR 0x00) (MESSAGE @ CHR 0x00 # xs) = MESSAGE"
  by (simp add: MESSAGE_def)

text \<open>The buffer after the message was put into it, and after \<open>recv\<close> has stored its bytes there.\<close>

definition greeted :: "client \<Rightarrow> client" where
  "greeted s = s\<lparr>cl_buf := (MESSAGE @ [CHR 0x00]) @ drop 14 (cl_buf s)\<rparr>"

lemma greeted_simps:
  assumes "buf_ok s"
  shows "buf_write (MESSAGE @ [CHR 0x00]) s = (Ret (), greeted s)" "buf_string (greeted s) = (Ret MESSAGE, greeted s)"
    "buf_ok (greeted s)" "buf_zero s \<Longrightarrow> buf_zero (greeted s)" "cl_world (greeted s) = cl_world s"
proof -
  have len: "length (MESSAGE @ [CHR 0x00]) = 14" "(14::nat) \<le> CLIENT_BUF" "(14::nat) < CLIENT_BUF"
    by (simp_all add: MESSAGE_def CLIENT_BUF_def)
  show "buf_write (MESSAGE @ [CHR 0x00]) s = (Ret (), greeted s)"
    using buf_write_ok [OF assms, of "MESSAGE @ [CHR 0x00]"] len by (simp add: greeted_def)
  show "buf_string (greeted s) = (Ret MESSAGE, greeted s)"
    using message_string by (simp add: buf_string_def greeted_def bnd_apply)
  show "buf_ok (greeted s)" "buf_zero s \<Longrightarrow> buf_zero (greeted s)"
    using buf_write_keeps [of s "MESSAGE @ [CHR 0x00]"] assms len by (simp_all add: greeted_def)
qed (simp add: greeted_def)

lemma client_sys_shrinks:
  "client_sys c s = (Ret r, t) \<Longrightarrow> length (w_script (cl_world t)) < length (w_script (cl_world s))"
  by (cases rule: client_sys_cases [of s c]) auto

lemma buf_world:
  "buf_write xs s = (out, t) \<Longrightarrow> cl_world t = cl_world s" "buf_string s = (out', t) \<Longrightarrow> cl_world t = cl_world s"
  by (auto simp: buf_write_def buf_string_def bnd_apply defined_def fail_def split: option.splits if_splits outcome.splits)

lemma client_turn_shrinks:
  assumes "client_turn fd s = (Ret b, t)"
  shows "length (w_script (cl_world t)) < length (w_script (cl_world s))"
proof -
  obtain o1 s1 where s1: "buf_write (MESSAGE @ [CHR 0x00]) s = (o1, s1)" by (rule prod.exhaust)
  obtain o2 s2 where s2: "buf_string s1 = (o2, s2)" by (rule prod.exhaust)
  note w12 = buf_world(1) [OF s1] buf_world(2) [OF s2]
  obtain msg where msg: "o2 = Ret msg" "o1 = Ret ()"
    using assms s1 s2 by (auto simp: client_turn_def thn_apply bnd_apply split: outcome.splits)
  show ?thesis
  proof (cases rule: client_sys_cases [of s2 "Send fd msg 0", case_names reply stuck])
    case (reply r rs)
    let ?s3 = "s2\<lparr>cl_world := answered (Send fd msg 0) r (cl_world s2)\<rparr>"
    show ?thesis
    proof (cases "rp_rc r < 0")
      case True
      then show ?thesis using assms s1 s2 msg reply w12 by (auto simp: client_turn_def thn_apply bnd_apply)
    next
      case False
      show ?thesis
      proof (cases rule: client_sys_cases [of ?s3 "Recv fd CLIENT_BUF 0", case_names reply stuck])
        case (reply q qs)
        let ?s4 = "?s3\<lparr>cl_world := answered (Recv fd CLIENT_BUF 0) q (cl_world ?s3)\<rparr>"
        obtain o5 s5 where s5: "buf_write (bytes_of (rp_data q)) ?s4 = (o5, s5)" by (rule prod.exhaust)
        obtain o6 s6 where s6: "buf_string s5 = (o6, s6)" by (rule prod.exhaust)
        have "cl_world t = cl_world ?s4"
          using assms s1 s2 msg \<open>client_sys (Send fd msg 0) s2 = _\<close> reply s5 s6 False buf_world(1) [OF s5] buf_world(2) [OF s6]
          by (auto simp: client_turn_def thn_apply bnd_apply split: outcome.splits if_splits)
        then show ?thesis using w12 \<open>w_script (cl_world s2) = r # rs\<close> by simp
      next
        case stuck
        then show ?thesis using assms s1 s2 msg reply False by (auto simp: client_turn_def thn_apply bnd_apply)
      qed
    qed
  next
    case stuck
    then show ?thesis using assms s1 s2 msg by (auto simp: client_turn_def thn_apply bnd_apply)
  qed
qed

text \<open>The loop, which takes replies from the script in every turn.\<close>

function client_loop :: "int \<Rightarrow> client \<Rightarrow> unit outcome \<times> client" where
  "client_loop fd s = (case client_turn fd s of
       (Ret True, t) \<Rightarrow> client_loop fd t
     | (Ret False, t) \<Rightarrow> (Ret (), t)
     | (Fail e, t) \<Rightarrow> (Fail e, t))"
  by pat_completeness auto

termination client_loop
  by (relation "measure (\<lambda>(fd, s). length (w_script (cl_world s)))") (auto dest!: client_turn_shrinks [OF sym])

declare client_loop.simps [simp del]

definition client_session :: "int \<Rightarrow> int client_prog" where
  "client_session fd = bnd (client_sys (Connect fd (make_addr client_port))) (\<lambda>r.
     if rp_rc r < 0 then ret (-6)
     else thn (client_loop fd) (bnd (client_sys (Close fd)) (\<lambda>_. ret 0)))"

definition client_main :: "int client_prog" where
  "client_main = bnd (client_sys (Socket AF_INET SOCK_STREAM IPPROTO_TCP)) (\<lambda>r.
     if rp_rc r < 0 then ret (-2)
     else thn (fail (Undef Const_write) :: unit client_prog) (client_session (rp_rc r)))"

subsection \<open>What a session does\<close>

text \<open>The result of a turn: the calls with their replies, and how it ends.\<close>

definition turn_result :: "int \<Rightarrow> client \<Rightarrow> bool outcome \<Rightarrow> client \<Rightarrow> (syscall \<times> reply) list \<Rightarrow> bool" where
  "turn_result fd s out t cs \<longleftrightarrow>
     (case out of
        Ret True \<Rightarrow> (\<exists>a b. cs = [(Send fd MESSAGE 0, a), (Recv fd CLIENT_BUF 0, b)] \<and> 0 \<le> rp_rc a)
      | Ret False \<Rightarrow> (\<exists>a. cs = [(Send fd MESSAGE 0, a)] \<and> rp_rc a < 0)
      | Fail Pending \<Rightarrow> cs = [] \<or> (\<exists>a. cs = [(Send fd MESSAGE 0, a)] \<and> 0 \<le> rp_rc a)
      | Fail (Undef Out_of_bounds) \<Rightarrow>
          (\<exists>a b. cs = [(Send fd MESSAGE 0, a), (Recv fd CLIENT_BUF 0, b)] \<and> 0 \<le> rp_rc a) \<and>
          \<not> (buf_zero s \<and> (\<forall>r \<in> set (map snd cs). short_reply r))
      | _ \<Rightarrow> False)"

lemma received_fits: "reply_ok (Recv fd n fl) b \<Longrightarrow> length (bytes_of (rp_data b)) \<le> n"
  by (auto simp: transfer_ok_def)

lemma buf_string_eq:
  "buf_string s = (if CHR 0x00 \<in> set (cl_buf s) then (Ret (takeWhile (\<lambda>c. c \<noteq> CHR 0x00) (cl_buf s)), s)
     else (Fail (Undef Out_of_bounds), s))"
  by (simp add: buf_string_def bnd_apply)

lemma client_turn_result:
  assumes "buf_ok s" "client_turn fd s = (out, t)"
  shows "\<exists>cs. w_trace (cl_world t) = w_trace (cl_world s) @ cs \<and> w_script (cl_world s) = map snd cs @ w_script (cl_world t) \<and>
    turn_result fd s out t cs \<and> buf_ok t \<and> (buf_zero s \<and> (\<forall>r \<in> set (map snd cs). short_reply r) \<longrightarrow> buf_zero t)"
proof -
  note g = greeted_simps [OF assms(1)]
  let ?g = "greeted s" and ?send = "Send fd MESSAGE 0" and ?recv = "Recv fd CLIENT_BUF 0"
  show ?thesis
  proof (cases rule: client_sys_cases [of ?g ?send, case_names reply stuck])
    case (reply a rs)
    let ?s1 = "?g\<lparr>cl_world := answered ?send a (cl_world ?g)\<rparr>"
    have ok1: "buf_ok ?s1" "buf_zero s \<Longrightarrow> buf_zero ?s1" using g(3,4) by (simp_all add: buf_ok_def buf_zero_def)
    show ?thesis
    proof (cases "rp_rc a < 0")
      case True
      then have "out = Ret False" "t = ?s1" using assms(2) g reply(3) by (auto simp: client_turn_def thn_apply bnd_apply)
      then show ?thesis
        using reply ok1 g(5) True by (intro exI [of _ "[(?send, a)]"]) (simp add: turn_result_def)
    next
      case False
      note send = False reply
      show ?thesis
      proof (cases rule: client_sys_cases [of ?s1 ?recv, case_names reply stuck])
        case (reply b qs)
        let ?s2 = "?s1\<lparr>cl_world := answered ?recv b (cl_world ?s1)\<rparr>" and ?xs = "bytes_of (rp_data b)"
        let ?s3 = "?s2\<lparr>cl_buf := ?xs @ drop (length ?xs) (cl_buf ?s2)\<rparr>"
        have ok2: "buf_ok ?s2" "buf_zero s \<Longrightarrow> buf_zero ?s2" using ok1 by (simp_all add: buf_ok_def buf_zero_def)
        have xs: "length ?xs \<le> CLIENT_BUF" by (rule received_fits [OF reply(2)])
        have short: "short_reply b \<Longrightarrow> length ?xs < CLIENT_BUF"
          using reply(2) by (auto simp: short_reply_def transfer_ok_def CLIENT_BUF_def)
        have ok3: "buf_ok ?s3" "buf_zero s \<Longrightarrow> short_reply b \<Longrightarrow> buf_zero ?s3"
          using buf_write_keeps(1) [OF ok2(1) xs] buf_write_keeps(2) [OF ok2(2) short] by simp_all
        have run: "client_turn fd s = (if rp_rc b > 0 then thn buf_string (ret True) else ret True) ?s3"
          using g(1,2) send(1,4) reply(3) buf_write_ok [OF ok2(1) xs] by (simp add: client_turn_def thn_apply bnd_apply)
        then have t: "t = ?s3" "out = Ret True \<or> out = Fail (Undef Out_of_bounds) \<and> CHR 0x00 \<notin> set (cl_buf ?s3)"
          using assms(2) by (auto simp: thn_apply bnd_apply buf_string_eq split: if_splits)
        let ?cs = "[(?send, a), (?recv, b)]"
        have "turn_result fd s out t ?cs"
          using t(2) send(1) ok3(2) buf_zero_string [of ?s3] by (auto simp: turn_result_def)
        then show ?thesis
          using send reply ok3 g(5) t(1) by (intro exI [of _ ?cs]) (simp add: t(1))
      next
        case stuck
        then have "out = Fail Pending" "t = ?s1" using assms(2) g send by (auto simp: client_turn_def thn_apply bnd_apply)
        then show ?thesis
          using send ok1 g(5) by (intro exI [of _ "[(?send, a)]"]) (simp add: turn_result_def)
      qed
    qed
  next
    case stuck
    then have "out = Fail Pending" "t = ?g" using assms(2) g by (auto simp: client_turn_def thn_apply bnd_apply)
    then show ?thesis using g(3-5) by (intro exI [of _ "[]"]) (simp add: turn_result_def)
  qed
qed

text \<open>The calls of the loop: all but the last one are sends that succeed and receives.\<close>

definition loop_call :: "int \<Rightarrow> syscall \<times> reply \<Rightarrow> bool" where
  "loop_call fd x \<longleftrightarrow> fst x = Recv fd CLIENT_BUF 0 \<or> fst x = Send fd MESSAGE 0 \<and> 0 \<le> rp_rc (snd x)"

definition loop_result :: "int \<Rightarrow> client \<Rightarrow> unit outcome \<Rightarrow> (syscall \<times> reply) list \<Rightarrow> bool" where
  "loop_result fd s out cs \<longleftrightarrow>
     (case out of
        Ret _ \<Rightarrow> \<exists>cs' a. cs = cs' @ [(Send fd MESSAGE 0, a)] \<and> list_all (loop_call fd) cs' \<and> rp_rc a < 0
      | Fail Pending \<Rightarrow> list_all (loop_call fd) cs
      | Fail (Undef Out_of_bounds) \<Rightarrow>
          list_all (loop_call fd) cs \<and> \<not> (buf_zero s \<and> (\<forall>r \<in> set (map snd cs). short_reply r))
      | _ \<Rightarrow> False)"

lemma client_loop_result:
  assumes "buf_ok s" "client_loop fd s = (out, t)"
  shows "\<exists>cs. w_trace (cl_world t) = w_trace (cl_world s) @ cs \<and> loop_result fd s out cs"
  using assms
proof (induction fd s rule: client_loop.induct)
  case (1 fd s)
  obtain b u where u: "client_turn fd s = (b, u)" by (rule prod.exhaust)
  obtain cs where cs: "w_trace (cl_world u) = w_trace (cl_world s) @ cs" "turn_result fd s b u cs" "buf_ok u"
      "buf_zero s \<and> (\<forall>r \<in> set (map snd cs). short_reply r) \<longrightarrow> buf_zero u"
    using client_turn_result [OF "1.prems"(1) u] by blast
  show ?case
  proof (cases b)
    case (Ret more)
    show ?thesis
    proof (cases more)
      case True
      have "client_loop fd u = (out, t)" using "1.prems"(2) u Ret True by (simp add: client_loop.simps [of fd s])
      then obtain ds where ds: "w_trace (cl_world t) = w_trace (cl_world u) @ ds" "loop_result fd u out ds"
        using "1.IH" [OF u [symmetric] Ret _ cs(3)] True by blast
      have "list_all (loop_call fd) cs" using cs(2) Ret True by (auto simp: turn_result_def loop_call_def)
      moreover have "\<And>p q. p = cs @ q \<Longrightarrow> \<not> (buf_zero u \<and> (\<forall>r \<in> set (map snd q). short_reply r)) \<Longrightarrow>
          \<not> (buf_zero s \<and> (\<forall>r \<in> set (map snd p). short_reply r))"
        using cs(4) by auto
      ultimately have "loop_result fd s out (cs @ ds)"
        using ds(2) by (auto simp: loop_result_def split: outcome.splits failure.splits ub.splits)
      then show ?thesis using cs(1) ds(1) by (intro exI [of _ "cs @ ds"]) simp
    next
      case False
      then show ?thesis
        using "1.prems"(2) u Ret cs(1,2) by (intro exI [of _ cs]) (auto simp: client_loop.simps [of fd s] turn_result_def loop_result_def)
    qed
  next
    case (Fail e)
    then have "out = Fail e" "t = u" using "1.prems"(2) u by (simp_all add: client_loop.simps [of fd s])
    then show ?thesis
      using cs(1,2) Fail by (intro exI [of _ cs])
        (auto simp: turn_result_def loop_result_def loop_call_def split: failure.splits ub.splits)
  qed
qed

lemma client_init_zero: "buf_ok (client_init w)" "buf_zero (client_init w)"
  by (simp_all add: client_init_def buf_zero_def buf_ok_def CLIENT_BUF_def zero_bytes_def nth_append)

text \<open>C34. A session of the client sends the same message again and again whatever it receives. It ends with \<open>-6\<close> when
  it cannot connect, and with \<open>0\<close> when a send fails, and then it closes the socket; neither the end of the stream nor
  an error of \<open>recv\<close> ends it. As long as no message fills the buffer, it stays inside of it.\<close>

theorem client_session_result:
  assumes "client_session fd (client_init w) = (out, t)"
  shows "\<exists>cs. w_trace (cl_world t) = w_trace w @ cs \<and>
    (\<forall>c \<in> set (map fst cs). c \<in> {Connect fd (make_addr client_port), Send fd MESSAGE 0, Recv fd CLIENT_BUF 0, Close fd}) \<and>
    (case out of
       Ret rc \<Rightarrow> rc = -6 \<and> (\<exists>r. cs = [(Connect fd (make_addr client_port), r)] \<and> rp_rc r < 0) \<or>
                 rc = 0 \<and> (\<exists>cs' a c. cs = cs' @ [(Send fd MESSAGE 0, a), (Close fd, c)] \<and> rp_rc a < 0 \<and>
                    (\<forall>x \<in> set cs'. fst x = Send fd MESSAGE 0 \<longrightarrow> 0 \<le> rp_rc (snd x)))
     | Fail Pending \<Rightarrow> True
     | Fail (Undef Out_of_bounds) \<Rightarrow> \<exists>r \<in> set (map snd cs). \<not> short_reply r
     | _ \<Rightarrow> False)"
proof -
  let ?s = "client_init w" and ?c = "Connect fd (make_addr client_port)"
  have w: "cl_world ?s = w" by (simp add: client_init_def)
  show ?thesis
  proof (cases rule: client_sys_cases [of ?s ?c, case_names reply stuck])
    case (reply r rs)
    let ?u = "?s\<lparr>cl_world := answered ?c r w\<rparr>"
    show ?thesis
    proof (cases "rp_rc r < 0")
      case True
      then have "out = Ret (-6)" "t = ?u" using assms reply(3) w by (auto simp: client_session_def bnd_apply)
      then show ?thesis using True by (intro exI [of _ "[(?c, r)]"]) simp
    next
      case False
      have zero: "buf_ok ?u" "buf_zero ?u" using client_init_zero by (simp_all add: buf_ok_def buf_zero_def)
      obtain b v where v: "client_loop fd ?u = (b, v)" by (rule prod.exhaust)
      obtain ds where ds: "w_trace (cl_world v) = w_trace w @ (?c, r) # ds" "loop_result fd ?u b ds"
        using client_loop_result [OF zero(1) v] by auto
      show ?thesis
      proof (cases b)
        case (Ret x)
        obtain ds' a where d: "ds = ds' @ [(Send fd MESSAGE 0, a)]" "list_all (loop_call fd) ds'" "rp_rc a < 0"
          using ds(2) Ret by (auto simp: loop_result_def)
        have calls: "\<forall>x \<in> set ds'. fst x \<in> {Send fd MESSAGE 0, Recv fd CLIENT_BUF 0} \<and>
            (fst x = Send fd MESSAGE 0 \<longrightarrow> 0 \<le> rp_rc (snd x))"
          using d(2) by (auto simp: loop_call_def list_all_iff)
        show ?thesis
        proof (cases rule: client_sys_cases [of v "Close fd", case_names reply stuck])
          case (reply c qs)
          then have o: "out = Ret 0" "t = v\<lparr>cl_world := answered (Close fd) c (cl_world v)\<rparr>"
            using assms \<open>client_sys ?c ?s = _\<close> w False v Ret by (auto simp: client_session_def bnd_apply thn_apply)
          let ?cs' = "(?c, r) # ds'"
          have "w_trace (cl_world t) = w_trace w @ ?cs' @ [(Send fd MESSAGE 0, a), (Close fd, c)]" using o(2) ds(1) d(1) by simp
          then show ?thesis
            using o(1) d(3) calls by (intro exI [of _ "?cs' @ [(Send fd MESSAGE 0, a), (Close fd, c)]"]) auto
        next
          case stuck
          then have "out = Fail Pending" "t = v"
            using assms reply(3) w False v Ret by (auto simp: client_session_def bnd_apply thn_apply)
          then show ?thesis using ds(1) d(1) calls by (intro exI [of _ "(?c, r) # ds"]) auto
        qed
      next
        case (Fail e)
        then have o: "out = Fail e" "t = v" using assms reply(3) w False v by (auto simp: client_session_def bnd_apply thn_apply)
        have calls: "\<forall>x \<in> set ds. fst x \<in> {Send fd MESSAGE 0, Recv fd CLIENT_BUF 0}"
          using ds(2) Fail by (auto simp: loop_result_def loop_call_def list_all_iff split: failure.splits ub.splits)
        show ?thesis
          using o ds Fail calls zero(2)
          by (intro exI [of _ "(?c, r) # ds"]) (auto simp: loop_result_def split: failure.splits ub.splits)
      qed
    qed
  next
    case stuck
    then have "out = Fail Pending" "t = ?s" using assms by (auto simp: client_session_def bnd_apply)
    then show ?thesis using w by (intro exI [of _ "[]"]) simp
  qed
qed

text \<open>The program never gets that far.\<close>

lemma client_main_undefined:
  assumes "w_script w = r # rs" "rp_rc r \<ge> 0"
  shows "\<exists>t. client_main (client_init w) = (Fail (Undef Const_write), t) \<and>
    w_trace (cl_world t) = w_trace w @ [(Socket AF_INET SOCK_STREAM IPPROTO_TCP, r)]"
proof -
  have "client_sys (Socket AF_INET SOCK_STREAM IPPROTO_TCP) (client_init w) =
      (Ret r, (client_init w)\<lparr>cl_world := answered (Socket AF_INET SOCK_STREAM IPPROTO_TCP) r w\<rparr>)"
    using assms by (simp add: client_sys_def zoom_def client_init_def sys_reply)
  then show ?thesis using assms by (simp add: client_main_def bnd_apply thn_apply)
qed

text \<open>A turn in which the server has disconnected, and one in which the message cannot be sent.\<close>

lemma client_sys_reply:
  "w_script (cl_world s) = r # rs \<Longrightarrow> reply_ok c r \<Longrightarrow>
     client_sys c s = (Ret r, s\<lparr>cl_world := answered c r (cl_world s)\<rparr>)"
  by (simp add: client_sys_def zoom_def sys_reply)

lemma client_turn_disconnected:
  assumes "buf_ok s" "w_script (cl_world s) = a # b # rs" "reply_ok (Send fd MESSAGE 0) a" "0 \<le> rp_rc a"
    "rp_rc b = 0" "rp_data b = No_data"
  shows "\<exists>t. client_turn fd s = (Ret True, t) \<and> buf_ok t \<and> w_script (cl_world t) = rs"
proof -
  note g = greeted_simps [OF assms(1)]
  let ?s1 = "(greeted s)\<lparr>cl_world := answered (Send fd MESSAGE 0) a (cl_world s)\<rparr>"
  let ?s2 = "?s1\<lparr>cl_world := answered (Recv fd CLIENT_BUF 0) b (cl_world ?s1)\<rparr>"
  have ok: "buf_ok ?s2" using g(3) by (simp add: buf_ok_def)
  have "client_sys (Send fd MESSAGE 0) (greeted s) = (Ret a, ?s1)"
    using client_sys_reply [of "greeted s" a "b # rs"] assms(2,3) g(5) by simp
  moreover have "client_sys (Recv fd CLIENT_BUF 0) ?s1 = (Ret b, ?s2)"
    using client_sys_reply [of ?s1 b rs] assms(2,5,6) by (simp add: transfer_ok_def)
  moreover have "buf_write [] ?s2 = (Ret (), ?s2)" using buf_write_ok [OF ok, of "[]"] by simp
  ultimately have "client_turn fd s = (Ret True, ?s2)"
    using g(1,2) assms(4-6) by (simp add: client_turn_def thn_apply bnd_apply)
  then show ?thesis using ok assms(2) by simp
qed

lemma client_turn_unsent:
  assumes "buf_ok s" "w_script (cl_world s) = a # rs" "reply_ok (Send fd MESSAGE 0) a" "rp_rc a < 0"
  shows "\<exists>t. client_turn fd s = (Ret False, t) \<and> w_script (cl_world t) = rs"
proof -
  note g = greeted_simps [OF assms(1)]
  have "client_sys (Send fd MESSAGE 0) (greeted s) =
      (Ret a, (greeted s)\<lparr>cl_world := answered (Send fd MESSAGE 0) a (cl_world s)\<rparr>)"
    using client_sys_reply [of "greeted s" a rs] assms(2,3) g(5) by simp
  then show ?thesis using g(1,2) assms(2,4) by (simp add: client_turn_def thn_apply bnd_apply)
qed

text \<open>The server disconnects in the first turn, and the second send fails.\<close>

definition sample_session :: "reply list" where
  "sample_session = map (\<lambda>rc. \<lparr>rp_rc = rc, rp_err = 104, rp_data = No_data\<rparr>) [0, 13, 0, -1, 0]"

lemma sample_session_run: "\<exists>t. client_session 3 (client_init (boot sample_session)) = (Ret 0, t)"
proof -
  let ?r = "\<lambda>rc. \<lparr>rp_rc = rc, rp_err = 104, rp_data = No_data\<rparr>" and ?s = "client_init (boot sample_session)"
  let ?c = "Connect 3 (make_addr client_port)"
  let ?u = "?s\<lparr>cl_world := answered ?c (?r 0) (cl_world ?s)\<rparr>"
  have s: "w_script (cl_world ?s) = [?r 0, ?r 13, ?r 0, ?r (-1), ?r 0]" by (simp add: client_init_def sample_session_def)
  have c: "client_sys ?c ?s = (Ret (?r 0), ?u)" using client_sys_reply [OF s, of ?c] by (simp add: status_ok_def)
  have ok: "buf_ok ?u" using client_init_zero by (simp add: buf_ok_def)
  have msg: "length MESSAGE = 13" by (simp add: MESSAGE_def)
  obtain v where v: "client_turn 3 ?u = (Ret True, v)" "buf_ok v" "w_script (cl_world v) = [?r (-1), ?r 0]"
    using client_turn_disconnected [OF ok, of "?r 13" "?r 0" "[?r (-1), ?r 0]" 3] s msg by (auto simp: transfer_ok_def)
  obtain x where x: "client_turn 3 v = (Ret False, x)" "w_script (cl_world x) = [?r 0]"
    using client_turn_unsent [OF v(2,3), of 3] by (auto simp: transfer_ok_def)
  have "client_loop 3 ?u = (Ret (), x)"
    using v(1) x(1) by (simp add: client_loop.simps [of 3 ?u] client_loop.simps [of 3 v])
  moreover have "\<exists>t. client_sys (Close 3) x = (Ret (?r 0), t)" using client_sys_reply [OF x(2), of "Close 3"] by (simp add: status_ok_def)
  ultimately show ?thesis using c by (auto simp: client_session_def bnd_apply thn_apply)
qed

theorem client_session_result_witness:
  "\<exists>t cs a c. client_session 3 (client_init (boot sample_session)) = (Ret 0, t) \<and>
     w_trace (cl_world t) = cs @ [(Send 3 MESSAGE 0, a), (Close 3, c)] \<and> rp_rc a < 0 \<and>
     (\<forall>x \<in> set cs. fst x = Send 3 MESSAGE 0 \<longrightarrow> 0 \<le> rp_rc (snd x))"
proof -
  obtain t where run: "client_session 3 (client_init (boot sample_session)) = (Ret 0, t)" using sample_session_run by blast
  from client_session_result [OF run] run show ?thesis by auto
qed

end
