(* ===== verification/Echo_System.thy ===== *)
theory Echo_System
  imports Echo_Stream Raw_Client
begin

section \<open>The client and the server together\<close>

text \<open>
  The session of the raw client (\<open>Raw_Client\<close>) with the plain epoll server (\<open>Echo_Stream\<close>). Each program
  runs over its own script; what ties the two runs together is the connection: the server has
  received a part, from the start, of what the client has sent, and the client a part of what the server has sent.
  \<open>net_of\<close> reads the streams of both from their traces.
\<close>

subsection \<open>What the client sends\<close>

definition session_calls :: "int \<Rightarrow> syscall set" where
  "session_calls fd = {Connect fd (make_addr client_port), Send fd MESSAGE 0, Recv fd CLIENT_BUF 0, Close fd}"

definition calls_in :: "syscall set \<Rightarrow> client \<Rightarrow> bool" where
  "calls_in cs s \<longleftrightarrow> fst ` set (w_trace (cl_world s)) \<subseteq> cs"

lemma client_sys_calls: "c \<in> cs \<Longrightarrow> keeps (calls_in cs) (client_sys c)"
proof (rule keepsI)
  fix s assume "c \<in> cs" "calls_in cs s"
  then show "calls_in cs (snd (client_sys c s))" by (cases rule: client_sys_cases [of s c]) (auto simp: calls_in_def)
qed

lemma loop_result_calls: "loop_result fd s out cs \<Longrightarrow> fst ` set cs \<subseteq> {Send fd MESSAGE 0, Recv fd CLIENT_BUF 0}"
  by (auto simp: loop_result_def loop_call_def list_all_iff split: outcome.splits failure.splits ub.splits)

lemma client_loop_calls: "buf_ok s \<Longrightarrow> calls_in (session_calls fd) s \<Longrightarrow> calls_in (session_calls fd) (snd (client_loop fd s))"
proof -
  assume s: "buf_ok s" "calls_in (session_calls fd) s"
  obtain out t where t: "client_loop fd s = (out, t)" by (rule prod.exhaust)
  obtain cs where "w_trace (cl_world t) = w_trace (cl_world s) @ cs" "loop_result fd s out cs"
    using client_loop_result [OF s(1) t] by blast
  then show ?thesis using s(2) loop_result_calls t by (fastforce simp: calls_in_def session_calls_def image_Un)
qed

lemma client_session_calls: "calls_in (session_calls fd) (snd (client_session fd (client_init (boot rs))))"
proof -
  let ?cs = "session_calls fd" and ?s = "client_init (boot rs)"
  have init: "calls_in ?cs ?s" "buf_ok ?s" using client_init_zero by (simp_all add: calls_in_def client_init_def)
  have rest: "calls_in ?cs (snd (thn (client_loop fd) (bnd (client_sys (Close fd)) (\<lambda>_. ret (0::int))) u))"
    if u: "calls_in ?cs u" "buf_ok u" for u
  proof -
    obtain out v where v: "client_loop fd u = (out, v)" by (rule prod.exhaust)
    then have "calls_in ?cs v" using client_loop_calls [OF u(2,1)] by simp
    moreover have "keeps (calls_in ?cs) (bnd (client_sys (Close fd)) (\<lambda>_. ret (0::int)))"
      by (intro keeps_bnd client_sys_calls keeps_ret) (simp add: session_calls_def)
    ultimately show ?thesis using v by (auto simp: thn_apply dest: keepsD split: outcome.split)
  qed
  show ?thesis
  proof (cases rule: client_sys_cases [of ?s "Connect fd (make_addr client_port)", case_names reply stuck])
    case (reply r qs)
    let ?u = "?s\<lparr>cl_world := answered (Connect fd (make_addr client_port)) r (cl_world ?s)\<rparr>"
    have u: "calls_in ?cs ?u" "buf_ok ?u" using init by (simp_all add: calls_in_def buf_ok_def session_calls_def)
    then show ?thesis using reply(3) rest [OF u] by (simp add: client_session_def bnd_apply)
  next
    case stuck
    then show ?thesis using init by (simp add: client_session_def bnd_apply)
  qed
qed

lemma concat_replicate_snoc: "concat (replicate k xs) @ xs = xs @ concat (replicate k xs)"
  by (induction k) simp_all

text \<open>The stream of a trace that holds these calls only.\<close>

lemma session_stream:
  "fst ` set tr \<subseteq> session_calls fd \<Longrightarrow>
     (\<exists>ns. nt_out (net_of tr) fd = concat (map (\<lambda>n. take n MESSAGE) ns)) \<and>
     (nt_full (net_of tr) fd \<longrightarrow> (\<exists>k. nt_out (net_of tr) fd = concat (replicate k MESSAGE)))"
proof (induction tr rule: rev_induct)
  case Nil
  have "[] = concat (map (\<lambda>n. take n MESSAGE) [])" "[] = concat (replicate 0 MESSAGE)" by simp_all
  then show ?case by (simp only: net_of_Nil net_init_def net.simps) blast
next
  case (snoc x tr)
  obtain c r where x: "x = (c, r)" by (rule prod.exhaust)
  obtain ns where ns: "nt_out (net_of tr) fd = concat (map (\<lambda>n. take n MESSAGE) ns)" using snoc by auto
  have k: "nt_full (net_of tr) fd \<Longrightarrow> \<exists>k. nt_out (net_of tr) fd = concat (replicate k MESSAGE)" using snoc by auto
  have "c \<in> session_calls fd" using snoc.prems x by simp
  then consider "c = Send fd MESSAGE 0" | "c = Connect fd (make_addr client_port) \<or> c = Recv fd CLIENT_BUF 0 \<or> c = Close fd"
    by (auto simp: session_calls_def)
  then show ?case
  proof cases
    case 1
    have "\<exists>ms. nt_out (net_of (tr @ [x])) fd = concat (map (\<lambda>n. take n MESSAGE) ms)"
      using ns 1 x by (intro exI [of _ "ns @ [nat (rp_rc r)]"]) simp
    moreover have "\<exists>k. nt_out (net_of (tr @ [x])) fd = concat (replicate k MESSAGE)" if f: "nt_full (net_of (tr @ [x])) fd"
    proof -
      have f: "nt_full (net_of tr) fd" "rp_rc r = int (length MESSAGE)" using f 1 x by simp_all
      obtain k where "nt_out (net_of tr) fd = concat (replicate k MESSAGE)" using k f(1) by blast
      then have "nt_out (net_of (tr @ [x])) fd = concat (replicate (Suc k) MESSAGE)"
        using 1 x f(2) concat_replicate_snoc [of k MESSAGE] by simp
      then show ?thesis by blast
    qed
    ultimately show ?thesis by blast
  next
    case 2
    then have "nt_out (net_of (tr @ [x])) = nt_out (net_of tr)" "nt_full (net_of (tr @ [x])) = nt_full (net_of tr)"
      using x by (auto simp: gone_def)
    then show ?thesis using ns k by auto
  qed
qed

subsection \<open>End to end\<close>

text \<open>The connection between descriptor \<open>fd\<close> of the client and descriptor \<open>c\<close> of the server.\<close>

definition connected_to :: "net \<Rightarrow> int \<Rightarrow> net \<Rightarrow> int \<Rightarrow> bool" where
  "connected_to u fd v c \<longleftrightarrow> prefix (nt_in v c) (nt_out u fd) \<and> prefix (nt_in u fd) (nt_out v c)"

text \<open>C2. The echo from end to end: a session of the raw client with the plain epoll server, each over any replies
  of its system, an honest kernel at the server and a connection that delivers in order. What the client receives
  is a part, in order, of what it has sent, which is a sequence of beginnings of \<open>MESSAGE\<close>. As long as all sends of the
  server were complete, it receives exactly the beginning of what it sent; if its own sends were complete as well,
  that is the beginning of a repetition of \<open>MESSAGE\<close>.\<close>

theorem echo_end_to_end:
  assumes "start_server port (srv_init (boot script)) = (out, t)" "nt_honest (net_of (w_trace (sv_world t)))"
    and "client_session fd (client_init (boot replies)) = (res, s)"
    and "connected_to (net_of (w_trace (cl_world s))) fd (net_of (w_trace (sv_world t))) c"
  shows "let u = net_of (w_trace (cl_world s)); v = net_of (w_trace (sv_world t))
    in subseq (nt_in u fd) (nt_out u fd) \<and> (\<exists>ns. nt_out u fd = concat (map (\<lambda>n. take n MESSAGE) ns)) \<and>
       (nt_full v c \<longrightarrow> prefix (nt_in u fd) (nt_out u fd)) \<and>
       (nt_full v c \<and> nt_full u fd \<longrightarrow> (\<exists>k. prefix (nt_in u fd) (concat (replicate k MESSAGE))))"
proof -
  let ?u = "net_of (w_trace (cl_world s))" and ?v = "net_of (w_trace (sv_world t))"
  have "faithful ?v" using wpD [OF start_server_stream assms(1)] assms(2) by simp
  note v = faithful_streams [OF this, of c]
  have p: "prefix (nt_in ?v c) (nt_out ?u fd)" "prefix (nt_in ?u fd) (nt_out ?v c)"
    using assms(4) by (simp_all add: connected_to_def)
  have sub: "subseq (nt_in ?u fd) (nt_out ?u fd)"
    using prefix_imp_subseq [OF p(2)] v(1) prefix_imp_subseq [OF p(1)] by (meson subseq_order.trans)
  have pre: "prefix (nt_in ?u fd) (nt_out ?u fd)" if "nt_full ?v c"
    using p(2) v(2) [OF that] p(1) by (meson prefix_order.trans)
  have "fst ` set (w_trace (cl_world s)) \<subseteq> session_calls fd"
    using client_session_calls [of fd replies] assms(3) by (simp add: calls_in_def)
  then have n: "\<exists>ns. nt_out ?u fd = concat (map (\<lambda>n. take n MESSAGE) ns)"
      and k: "nt_full ?u fd \<Longrightarrow> \<exists>k. nt_out ?u fd = concat (replicate k MESSAGE)"
    using session_stream by blast+
  have "\<exists>k. prefix (nt_in ?u fd) (concat (replicate k MESSAGE))" if "nt_full ?v c" "nt_full ?u fd"
    using pre [OF that(1)] k [OF that(2)] by metis
  then show ?thesis using sub n pre unfolding Let_def by blast
qed

subsection \<open>A witness\<close>

lemma client_turn_echoed:
  assumes "buf_zero s" "w_script (cl_world s) = a # b # rs" "reply_ok (Send fd MESSAGE 0) a" "0 \<le> rp_rc a"
    "reply_ok (Recv fd CLIENT_BUF 0) b" "0 < rp_rc b" "rp_rc b < int CLIENT_BUF"
  shows "\<exists>t. client_turn fd s = (Ret True, t) \<and> buf_zero t \<and> w_script (cl_world t) = rs \<and>
    w_trace (cl_world t) = w_trace (cl_world s) @ [(Send fd MESSAGE 0, a), (Recv fd CLIENT_BUF 0, b)]"
proof -
  have ok: "buf_ok s" using assms(1) by (simp add: buf_zero_def)
  note g = greeted_simps [OF ok]
  let ?xs = "bytes_of (rp_data b)"
  let ?s1 = "(greeted s)\<lparr>cl_world := answered (Send fd MESSAGE 0) a (cl_world s)\<rparr>"
  let ?s2 = "?s1\<lparr>cl_world := answered (Recv fd CLIENT_BUF 0) b (cl_world ?s1)\<rparr>"
  let ?s3 = "?s2\<lparr>cl_buf := ?xs @ drop (length ?xs) (cl_buf ?s2)\<rparr>"
  have xs: "length ?xs < CLIENT_BUF" using assms(5-7) by (auto simp: transfer_ok_def)
  have z: "buf_zero ?s2" using g(4) assms(1) by (simp add: buf_zero_def buf_ok_def)
  have z3: "buf_zero ?s3" using buf_write_keeps(2) [OF z xs] .
  have ok2: "buf_ok ?s2" using z by (simp add: buf_zero_def)
  have "client_sys (Send fd MESSAGE 0) (greeted s) = (Ret a, ?s1)"
    using client_sys_reply [of "greeted s" a "b # rs"] assms(2,3) g(5) by simp
  moreover have "client_sys (Recv fd CLIENT_BUF 0) ?s1 = (Ret b, ?s2)"
    using client_sys_reply [of ?s1 b rs] assms(2,5) by (simp del: reply_ok.simps)
  moreover have "buf_write ?xs ?s2 = (Ret (), ?s3)" using buf_write_ok [OF ok2] xs by simp
  moreover have "\<exists>m. buf_string ?s3 = (Ret m, ?s3)" using buf_zero_string [OF z3] by (simp only: buf_string_eq if_True) blast
  ultimately have "client_turn fd s = (Ret True, ?s3)"
    using g(1,2) assms(4,6) by (auto simp: client_turn_def thn_apply bnd_apply)
  then show ?thesis using z3 assms(2) by simp
qed

text \<open>The client receives two bytes, and its second send fails.\<close>

definition client_replies :: "reply list" where
  "client_replies = map (\<lambda>(rc, d). \<lparr>rp_rc = rc, rp_err = 104, rp_data = d\<rparr>)
     [(0, No_data), (13, No_data), (2, Bytes ''He''), (-1, No_data), (0, No_data)]"

lemma client_replies_run:
  "\<exists>t. client_session 5 (client_init (boot client_replies)) = (Ret 0, t) \<and>
     nt_in (net_of (w_trace (cl_world t))) 5 = ''He'' \<and> nt_out (net_of (w_trace (cl_world t))) 5 = MESSAGE"
proof -
  let ?r = "\<lambda>rc. \<lparr>rp_rc = rc, rp_err = 104, rp_data = No_data\<rparr>" and ?s = "client_init (boot client_replies)"
  let ?b = "\<lparr>rp_rc = 2, rp_err = 104, rp_data = Bytes ''He''\<rparr>"
  let ?c = "Connect 5 (make_addr client_port)" and ?send = "Send 5 MESSAGE 0"
  let ?u = "?s\<lparr>cl_world := answered ?c (?r 0) (cl_world ?s)\<rparr>"
  have s: "w_script (cl_world ?s) = [?r 0, ?r 13, ?b, ?r (-1), ?r 0]" "w_trace (cl_world ?s) = []"
    by (simp_all add: client_init_def client_replies_def)
  have c: "client_sys ?c ?s = (Ret (?r 0), ?u)" using client_sys_reply [OF s(1), of ?c] by (simp add: status_ok_def)
  have z: "buf_zero ?u" using client_init_zero by (simp add: buf_zero_def buf_ok_def)
  have msg: "length MESSAGE = 13" by (simp add: MESSAGE_def)
  obtain v where v: "client_turn 5 ?u = (Ret True, v)" "buf_zero v" "w_script (cl_world v) = [?r (-1), ?r 0]"
      "w_trace (cl_world v) = w_trace (cl_world ?u) @ [(?send, ?r 13), (Recv 5 CLIENT_BUF 0, ?b)]"
    using client_turn_echoed [OF z, of "?r 13" ?b "[?r (-1), ?r 0]" 5] s(1) msg by (auto simp: transfer_ok_def CLIENT_BUF_def)
  have ok: "buf_ok v" using v(2) by (simp add: buf_zero_def)
  note g = greeted_simps [OF ok]
  let ?w = "(greeted v)\<lparr>cl_world := answered ?send (?r (-1)) (cl_world v)\<rparr>"
  have "client_sys ?send (greeted v) = (Ret (?r (-1)), ?w)"
    using client_sys_reply [of "greeted v" "?r (-1)" "[?r 0]"] v(3) g(5) by (simp add: transfer_ok_def)
  then have "client_turn 5 v = (Ret False, ?w)" using g(1,2) by (simp add: client_turn_def thn_apply bnd_apply)
  then have loop: "client_loop 5 ?u = (Ret (), ?w)"
    using v(1) by (simp add: client_loop.simps [of 5 ?u] client_loop.simps [of 5 v])
  let ?t = "?w\<lparr>cl_world := answered (Close 5) (?r 0) (cl_world ?w)\<rparr>"
  have "client_sys (Close 5) ?w = (Ret (?r 0), ?t)"
    using client_sys_reply [of ?w "?r 0" "[]"] v(3) by (simp add: status_ok_def)
  then have "client_session 5 ?s = (Ret 0, ?t)" using c loop by (simp add: client_session_def bnd_apply thn_apply)
  moreover have "nt_in (net_of (w_trace (cl_world ?t))) 5 = ''He''" "nt_out (net_of (w_trace (cl_world ?t))) 5 = MESSAGE"
    using v(4) s(2) msg by (simp_all add: net_of_def net_init_def net_defs)
  ultimately show ?thesis by blast
qed

lemma echo_end_to_end_witness:
  "\<exists>t s. start_server 9000 (srv_init (boot echo_session)) = (Ret 0, t) \<and>
     client_session 5 (client_init (boot client_replies)) = (Ret 0, s) \<and>
     nt_in (net_of (w_trace (cl_world s))) 5 = ''He'' \<and>
     prefix (nt_in (net_of (w_trace (cl_world s))) 5) (nt_out (net_of (w_trace (cl_world s))) 5)"
proof -
  obtain x where x: "start_server 9000 (srv_init (boot echo_session)) = (Ret 0, echo_at 21 x)"
    using echo_session_run by blast
  obtain s where s: "client_session 5 (client_init (boot client_replies)) = (Ret 0, s)"
      "nt_in (net_of (w_trace (cl_world s))) 5 = ''He''" "nt_out (net_of (w_trace (cl_world s))) 5 = MESSAGE"
    using client_replies_run by blast
  have "connected_to (net_of (w_trace (cl_world s))) 5 (net (echo_at 21 x)) 7"
    unfolding connected_to_def echo_net using s(2,3) by (simp add: MESSAGE_def)
  moreover have h: "nt_honest (net (echo_at 21 x))" "nt_full (net (echo_at 21 x)) 7" by (simp_all add: echo_net)
  ultimately have "prefix (nt_in (net_of (w_trace (cl_world s))) 5) (nt_out (net_of (w_trace (cl_world s))) 5)"
    using echo_end_to_end [OF x h(1) s(1)] by (simp add: Let_def)
  then show ?thesis using x s(1,2) by blast
qed

end
