(* ===== verification/Libevent_Server.thy ===== *)
theory Libevent_Server
  imports Server_Socket
begin

section \<open>The libevent server\<close>

text \<open>
  Models \<^verbatim>\<open>src/simple_libevent/main.cpp\<close>, a server that greets every client and answers
  every message with the greeting. The library is not part of the repository. Its calls are recorded,
  and their results come from a script, as those of the kernel do: a theorem about all scripts is about every
  behaviour of the library. Three things that its documentation says are built in: a new
  \<^verbatim>\<open>bufferevent\<close> is none of the live ones and a call on one that was freed is undefined; a
  call-back is called for a live \<^verbatim>\<open>bufferevent\<close> only; \<^verbatim>\<open>event_base_loopbreak\<close> ends the
  loop after the current call-back. What the loop reports is a list of events.
  \<^verbatim>\<open>src/libevent_server/main.cpp\<close> is the frame of a second server, whose \<open>main\<close> is empty.
\<close>

definition libevent_server_main :: int where
  "libevent_server_main = 0"

subsection \<open>The library\<close>

datatype lev_call =
    Event_base_new
  | Listener_new_bind nat sockaddr
  | Evsignal_new nat int
  | Event_add nat
  | Event_base_dispatch nat
  | Event_base_loopbreak nat
  | Event_base_loopexit nat int
  | Listener_free nat
  | Event_free nat
  | Event_base_free nat
  | Bev_socket_new nat int
  | Bev_setcb nat bool bool bool
  | Bev_enable nat
  | Bev_write nat string
  | Bev_read nat nat
  | Bev_output_length nat
  | Bev_free nat

datatype lev_reply = Void | Pointer "nat option" | Status int | Data string

text \<open>What the loop reports, and one step of a run: a call of the program or a report that reaches it.\<close>

datatype lev_event = On_accept int | On_read nat | On_write nat | On_event nat int | On_signal

datatype lev_item = Called lev_call lev_reply | Reported lev_event

fun bev_of :: "lev_call \<Rightarrow> nat option" where
  "bev_of (Bev_setcb b r w e) = Some b"
| "bev_of (Bev_enable b) = Some b"
| "bev_of (Bev_write b xs) = Some b"
| "bev_of (Bev_read b n) = Some b"
| "bev_of (Bev_output_length b) = Some b"
| "bev_of (Bev_free b) = Some b"
| "bev_of _ = None"

fun lev_ok :: "nat set \<Rightarrow> lev_call \<Rightarrow> lev_reply \<Rightarrow> bool" where
  "lev_ok live (Bev_socket_new base fd) (Pointer p) \<longleftrightarrow> (case p of None \<Rightarrow> True | Some b \<Rightarrow> b \<notin> live)"
| "lev_ok live (Bev_read b n) (Data xs) \<longleftrightarrow> length xs \<le> n"
| "lev_ok live (Bev_output_length b) (Status n) \<longleftrightarrow> n \<ge> 0"
| "lev_ok live (Event_add e) (Status n) \<longleftrightarrow> n = 0 \<or> n = -1"
| "lev_ok live Event_base_new (Pointer p) \<longleftrightarrow> True"
| "lev_ok live (Listener_new_bind base a) (Pointer p) \<longleftrightarrow> True"
| "lev_ok live (Evsignal_new base n) (Pointer p) \<longleftrightarrow> True"
| "lev_ok live _ r \<longleftrightarrow> False"

record lev =
  lv_script :: "lev_reply list"
  lv_trace :: "lev_item list"
  lv_live :: "nat set"
  lv_broken :: bool

type_synonym 'a lev_prog = "(lev, 'a) prog"

text \<open>The library's own state after a call.\<close>

fun lev_effect :: "lev_call \<Rightarrow> lev_reply \<Rightarrow> lev \<Rightarrow> lev" where
  "lev_effect (Bev_socket_new base fd) (Pointer (Some b)) s = s\<lparr>lv_live := insert b (lv_live s)\<rparr>"
| "lev_effect (Bev_free b) r s = s\<lparr>lv_live := lv_live s - {b}\<rparr>"
| "lev_effect (Event_base_loopbreak base) r s = s\<lparr>lv_broken := True\<rparr>"
| "lev_effect c r s = s"

definition lev_record :: "lev_call \<Rightarrow> lev_reply \<Rightarrow> lev \<Rightarrow> lev" where
  "lev_record c r s = lev_effect c r (s\<lparr>lv_trace := lv_trace s @ [Called c r]\<rparr>)"

definition bev_usable :: "lev_call \<Rightarrow> lev \<Rightarrow> bool" where
  "bev_usable c s \<longleftrightarrow> (case bev_of c of None \<Rightarrow> True | Some b \<Rightarrow> b \<in> lv_live s)"

text \<open>A call without a result that the code uses, and one with a result.\<close>

definition lev_tell :: "lev_call \<Rightarrow> unit lev_prog" where
  "lev_tell c = (\<lambda>s. if bev_usable c s then (Ret (), lev_record c Void s) else (Fail (Undef Use_after_free), s))"

definition lev_ask :: "lev_call \<Rightarrow> lev_reply lev_prog" where
  "lev_ask c = (\<lambda>s. if \<not> bev_usable c s then (Fail (Undef Use_after_free), s)
     else case lv_script s of
       r # rs \<Rightarrow> if lev_ok (lv_live s) c r then (Ret r, lev_record c r (s\<lparr>lv_script := rs\<rparr>)) else (Fail Pending, s)
     | [] \<Rightarrow> (Fail Pending, s))"

fun pointer_of :: "lev_reply \<Rightarrow> nat option" where
  "pointer_of (Pointer p) = p"
| "pointer_of _ = None"

fun status_of :: "lev_reply \<Rightarrow> int" where
  "status_of (Status n) = n"
| "status_of _ = 0"

fun data_of :: "lev_reply \<Rightarrow> string" where
  "data_of (Data xs) = xs"
| "data_of _ = []"

subsection \<open>The call-backs\<close>

definition GREETING :: string where "GREETING = ''Hello Client!''"
definition LISTEN_PORT :: "16 word" where "LISTEN_PORT = 8080"
definition RECV_BUF :: nat where "RECV_BUF = 1024"

definition lev_handle_accept :: "nat \<Rightarrow> int \<Rightarrow> unit lev_prog" where
  "lev_handle_accept base fd = bnd (lev_ask (Bev_socket_new base fd)) (\<lambda>r. case pointer_of r of
       None \<Rightarrow> lev_tell (Event_base_loopbreak base)
     | Some b \<Rightarrow> thn (lev_tell (Bev_setcb b True False True))
                (thn (lev_tell (Bev_enable b)) (lev_tell (Bev_write b GREETING))))"

definition lev_handle_send :: "nat \<Rightarrow> unit lev_prog" where
  "lev_handle_send b = bnd (lev_ask (Bev_output_length b)) (\<lambda>r.
     if status_of r = 0 then lev_tell (Bev_free b) else ret ())"

text \<open>Printing the buffer with \<^verbatim>\<open>%s\<close> needs a zero in it.\<close>

definition lev_handle_recv :: "nat \<Rightarrow> unit lev_prog" where
  "lev_handle_recv b = bnd (lev_ask (Bev_read b RECV_BUF)) (\<lambda>r.
     bnd (defined Out_of_bounds (mem_write 0 (data_of r) (zero_bytes RECV_BUF))) (\<lambda>buf.
       if CHR 0x00 \<in> set buf then lev_tell (Bev_write b GREETING) else fail (Undef Out_of_bounds)))"

definition lev_handle_event :: "nat \<Rightarrow> int \<Rightarrow> unit lev_prog" where
  "lev_handle_event b events = lev_tell (Bev_free b)"

definition lev_handle_signal :: "nat \<Rightarrow> unit lev_prog" where
  "lev_handle_signal base = lev_tell (Event_base_loopexit base 2)"

subsection \<open>main\<close>

definition lev_make_addr :: "16 word \<Rightarrow> sockaddr" where
  "lev_make_addr port = \<lparr>sin_family = AF_INET, sin_addr = zero_bytes 4, sin_port = htons port\<rparr>"

text \<open>No call-back was given for writing. The library calls no call-back of a \<^verbatim>\<open>bufferevent\<close>
  that was freed.\<close>

fun event_bev :: "lev_event \<Rightarrow> nat set" where
  "event_bev (On_read b) = {b}"
| "event_bev (On_write b) = {b}"
| "event_bev (On_event b e) = {b}"
| "event_bev _ = {}"

fun lev_callback :: "nat \<Rightarrow> lev_event \<Rightarrow> unit lev_prog" where
  "lev_callback base (On_accept fd) = lev_handle_accept base fd"
| "lev_callback base (On_read b) = lev_handle_recv b"
| "lev_callback base (On_write b) = ret ()"
| "lev_callback base (On_event b e) = lev_handle_event b e"
| "lev_callback base On_signal = lev_handle_signal base"

definition lev_report :: "lev_event \<Rightarrow> unit lev_prog" where
  "lev_report e = modify (\<lambda>s. s\<lparr>lv_trace := lv_trace s @ [Reported e]\<rparr>)"

primrec lev_loop :: "nat \<Rightarrow> lev_event list \<Rightarrow> unit lev_prog" where
  "lev_loop base [] = ret ()"
| "lev_loop base (e # es) = cond lv_broken (ret ()) (thn
     (cond (\<lambda>s. \<forall>b \<in> event_bev e. b \<in> lv_live s) (thn (lev_report e) (lev_callback base e)) (ret ()))
     (lev_loop base es))"

definition lev_main :: "lev_event list \<Rightarrow> int lev_prog" where
  "lev_main es =
     bnd (lev_ask Event_base_new) (\<lambda>r. case pointer_of r of None \<Rightarrow> ret 1 | Some base \<Rightarrow>
     bnd (lev_ask (Listener_new_bind base (lev_make_addr LISTEN_PORT))) (\<lambda>r. case pointer_of r of None \<Rightarrow> ret 1 | Some listener \<Rightarrow>
     bnd (lev_ask (Evsignal_new base 2)) (\<lambda>r. case pointer_of r of None \<Rightarrow> ret 1 | Some sig \<Rightarrow>
     bnd (lev_ask (Event_add sig)) (\<lambda>r. if status_of r < 0 then ret 1 else
       thn (lev_tell (Event_base_dispatch base))
      (thn (lev_loop base es)
      (thn (lev_tell (Listener_free listener))
      (thn (lev_tell (Event_free sig))
      (thn (lev_tell (Event_base_free base))
           (ret 0)))))))))"

subsection \<open>What every run does\<close>

text \<open>
  The life of one \<^verbatim>\<open>bufferevent\<close>, read from the trace of a run. It is made, gets its call-backs, is
  enabled and greeted, and is then open. An open one is read from when a message is reported and greeted
  after that, and freed when the loop reports an event for it. No other call is made for it, and none
  before it is made or after it is freed.
\<close>

datatype bev_phase = Absent | Fresh | Wired | Enabled | Open | Readable | Answering | Ended

definition moves :: "bev_phase set \<Rightarrow> bev_phase \<Rightarrow> bev_phase \<Rightarrow> bev_phase option" where
  "moves P q p = (if p \<in> P then Some q else None)"

fun call_moves :: "lev_call \<Rightarrow> bev_phase \<Rightarrow> bev_phase option" where
  "call_moves (Bev_socket_new base fd) = moves {Absent} Fresh"
| "call_moves (Bev_setcb b r w e) = (if r \<and> \<not> w \<and> e then moves {Fresh} Wired else Map.empty)"
| "call_moves (Bev_enable b) = moves {Wired} Enabled"
| "call_moves (Bev_write b xs) = (if xs = GREETING then moves {Enabled, Answering} Open else Map.empty)"
| "call_moves (Bev_read b n) = (if n = RECV_BUF then moves {Readable} Answering else Map.empty)"
| "call_moves (Bev_free b) = moves {Ended} Absent"
| "call_moves c = Map.empty"

fun event_moves :: "lev_event \<Rightarrow> bev_phase \<Rightarrow> bev_phase option" where
  "event_moves (On_read b) = moves {Open} Readable"
| "event_moves (On_write b) = moves {Open} Open"
| "event_moves (On_event b e) = moves {Open} Ended"
| "event_moves e = Map.empty"

fun bev_next :: "bev_phase \<Rightarrow> lev_item \<Rightarrow> bev_phase option" where
  "bev_next p (Called c r) = call_moves c p"
| "bev_next p (Reported e) = event_moves e p"

fun item_about :: "nat \<Rightarrow> lev_item \<Rightarrow> bool" where
  "item_about b (Called (Bev_socket_new base fd) r) \<longleftrightarrow> r = Pointer (Some b)"
| "item_about b (Called c r) \<longleftrightarrow> bev_of c = Some b"
| "item_about b (Reported e) \<longleftrightarrow> b \<in> event_bev e"

fun bev_life :: "nat \<Rightarrow> bev_phase \<Rightarrow> lev_item list \<Rightarrow> bev_phase option" where
  "bev_life b p [] = Some p"
| "bev_life b p (x # xs) = (if item_about b x then case bev_next p x of None \<Rightarrow> None | Some q \<Rightarrow> bev_life b q xs
     else bev_life b p xs)"

text \<open>The descriptors that the loop reports, and those a \<^verbatim>\<open>bufferevent\<close> was asked for.\<close>

fun accepted_fd :: "lev_item \<Rightarrow> int list" where
  "accepted_fd (Reported (On_accept fd)) = [fd]"
| "accepted_fd _ = []"

fun wrapped_fd :: "lev_item \<Rightarrow> int list" where
  "wrapped_fd (Called (Bev_socket_new base fd) r) = [fd]"
| "wrapped_fd _ = []"

definition lev_settled :: "lev \<Rightarrow> bool" where
  "lev_settled s \<longleftrightarrow> (\<forall>b. bev_life b Absent (lv_trace s) = Some (if b \<in> lv_live s then Open else Absent)) \<and>
     concat (map wrapped_fd (lv_trace s)) = concat (map accepted_fd (lv_trace s))"

definition lev_good :: "'a outcome \<Rightarrow> lev \<Rightarrow> bool" where
  "lev_good out t \<longleftrightarrow> (case out of
       Ret x \<Rightarrow> lev_settled t
     | Fail e \<Rightarrow> (\<forall>b. bev_life b Absent (lv_trace t) \<noteq> None) \<and> (e = Pending \<or> e = Undef Out_of_bounds \<and>
         (\<exists>b xs. last (lv_trace t) = Called (Bev_read b RECV_BUF) (Data xs) \<and> length xs = RECV_BUF \<and> CHR 0x00 \<notin> set xs)))"

lemma lev_good_simps [simp]:
  "lev_good (Ret x) t = lev_settled t"
  "lev_good (Fail Pending) t = (\<forall>b. bev_life b Absent (lv_trace t) \<noteq> None)"
  by (simp_all add: lev_good_def)

lemma bev_life_append:
  "bev_life b p (xs @ ys) = (case bev_life b p xs of None \<Rightarrow> None | Some q \<Rightarrow> bev_life b q ys)"
  by (induction xs arbitrary: p) (auto split: option.split)

lemma effect_keeps [simp]: "lv_trace (lev_effect c r s) = lv_trace s" "lv_script (lev_effect c r s) = lv_script s"
  by (induction c r s rule: lev_effect.induct) simp_all

lemma record_trace [simp]: "lv_trace (lev_record c r s) = lv_trace s @ [Called c r]"
  by (simp add: lev_record_def)

lemma lev_settled_life: "lev_settled s \<Longrightarrow> bev_life b Absent (lv_trace s) = Some (if b \<in> lv_live s then Open else Absent)"
  by (simp add: lev_settled_def)

lemma lev_settled_alive: "lev_settled s \<Longrightarrow> \<forall>b. bev_life b Absent (lv_trace s) \<noteq> None"
  by (simp add: lev_settled_def)

lemma wp_lev_tell [wp_rules]:
  "wp (lev_tell c) Q s \<longleftrightarrow>
     (if bev_usable c s then Q (Ret ()) (lev_record c Void s) else Q (Fail (Undef Use_after_free)) s)"
  by (simp add: wp_def lev_tell_def)

lemma wp_lev_report [wp_rules]: "wp (lev_report e) Q s \<longleftrightarrow> Q (Ret ()) (s\<lparr>lv_trace := lv_trace s @ [Reported e]\<rparr>)"
  by (simp add: lev_report_def wp_rules)

lemma wp_lev_ask:
  assumes "bev_usable c s" "Q (Fail Pending) s"
    and "\<And>r rs. lv_script s = r # rs \<Longrightarrow> lev_ok (lv_live s) c r \<Longrightarrow> Q (Ret r) (lev_record c r (s\<lparr>lv_script := rs\<rparr>))"
  shows "wp (lev_ask c) Q s"
  using assms by (cases "lv_script s") (auto simp: wp_def lev_ask_def)

lemma live_record [simp]:
  "lv_live (lev_record c r s) = (case c of
       Bev_socket_new base fd \<Rightarrow> (case pointer_of r of None \<Rightarrow> lv_live s | Some b \<Rightarrow> insert b (lv_live s))
     | Bev_free b \<Rightarrow> lv_live s - {b}
     | _ \<Rightarrow> lv_live s)"
  by (cases c; cases r) (auto simp: lev_record_def split: option.splits)

lemmas life_simps = lev_settled_def bev_life_append bev_usable_def moves_def

text \<open>What a call-back does after it was reported.\<close>

abbreviation after_report :: "lev_event \<Rightarrow> lev \<Rightarrow> lev" where
  "after_report e s \<equiv> s\<lparr>lv_trace := lv_trace s @ [Reported e]\<rparr>"

lemma handle_accept_good:
  assumes "lev_settled s"
  shows "wp (lev_handle_accept base fd) lev_good (after_report (On_accept fd) s)"
  unfolding lev_handle_accept_def wp_bnd
proof (rule wp_lev_ask, goal_cases)
  case (3 r rs)
  obtain p where p: "r = Pointer p" using 3(2) by (cases r) auto
  show ?case using assms p 3(2) by (cases p) (simp_all add: wp_rules life_simps)
qed (use assms in \<open>simp_all add: life_simps\<close>)

lemma handle_recv_good:
  assumes "lev_settled s" "b \<in> lv_live s"
  shows "wp (lev_handle_recv b) lev_good (after_report (On_read b) s)"
  unfolding lev_handle_recv_def wp_bnd
proof (rule wp_lev_ask, goal_cases)
  case (3 r rs)
  obtain xs where xs: "r = Data xs" "length xs \<le> RECV_BUF" using 3(2) by (cases r) auto
  let ?buf = "xs @ drop (length xs) (zero_bytes RECV_BUF)"
  have long: "CHR 0x00 \<notin> set ?buf \<Longrightarrow> length xs = RECV_BUF \<and> CHR 0x00 \<notin> set xs"
    using xs(2) by (cases "length xs = RECV_BUF") (auto simp: zero_bytes_def)
  show ?case
    using assms xs long by (simp add: wp_rules zero_bytes_def) (auto simp: lev_good_def life_simps)
qed (use assms in \<open>simp_all add: life_simps\<close>)

lemma handle_event_good:
  assumes "lev_settled s" "b \<in> lv_live s"
  shows "wp (lev_handle_event b e) lev_good (after_report (On_event b e) s)"
  using assms by (simp add: lev_handle_event_def wp_rules life_simps)

lemma callback_good:
  assumes "lev_settled s" "\<forall>b \<in> event_bev e. b \<in> lv_live s"
  shows "wp (lev_callback base e) lev_good (after_report e s)"
proof (cases e)
  case On_signal
  then show ?thesis using assms by (simp add: lev_handle_signal_def wp_rules life_simps)
next
  case (On_write b)
  then show ?thesis using assms by (simp add: wp_rules life_simps)
qed (use assms handle_accept_good handle_recv_good handle_event_good in simp_all)

lemma good_then:
  assumes "wp m lev_good s" "\<And>t. lev_settled t \<Longrightarrow> wp n lev_good t"
  shows "wp (thn m n) lev_good s"
  unfolding wp_thn
proof (rule wp_mono [OF assms(1)])
  fix out t
  assume "lev_good out t"
  then show "case out of Ret x \<Rightarrow> wp n lev_good t | Fail e \<Rightarrow> lev_good (Fail e) t"
    using assms(2) by (cases out) (simp_all add: lev_good_def)
qed

lemma loop_good: "lev_settled s \<Longrightarrow> wp (lev_loop base es) lev_good s"
  by (induction es arbitrary: s) (simp_all add: wp_ret wp_cond good_then wp_thn [of "lev_report e" for e] wp_lev_report callback_good)

definition lev_boot :: "lev_reply list \<Rightarrow> lev" where
  "lev_boot rs = \<lparr>lv_script = rs, lv_trace = [], lv_live = {}, lv_broken = False\<rparr>"

text \<open>A call that is not about a \<open>bufferevent\<close>.\<close>

definition neutral :: "lev_call \<Rightarrow> bool" where
  "neutral c \<longleftrightarrow> bev_of c = None \<and> (\<forall>base fd. c \<noteq> Bev_socket_new base fd)"

lemma neutral_calls [simp]:
  "neutral Event_base_new" "neutral (Listener_new_bind base a)" "neutral (Evsignal_new base n)" "neutral (Event_add e)"
  "neutral (Event_base_dispatch base)" "neutral (Listener_free l)" "neutral (Event_free e)" "neutral (Event_base_free base)"
  by (simp_all add: neutral_def)

lemma neutral_settled: "neutral c \<Longrightarrow> lev_settled (lev_record c r s) = lev_settled s"
  by (cases c) (auto simp: neutral_def lev_settled_def bev_life_append split: option.split)

lemma lev_settled_script [simp]: "lev_settled (s\<lparr>lv_script := rs\<rparr>) = lev_settled s"
  by (simp add: lev_settled_def)

lemma neutral_usable: "neutral c \<Longrightarrow> bev_usable c s"
  by (simp add: neutral_def bev_usable_def)

lemma good_ask:
  assumes "neutral c" "lev_settled s" "\<And>r t. lev_settled t \<Longrightarrow> wp (f r) lev_good t"
  shows "wp (bnd (lev_ask c) f) lev_good s"
  unfolding wp_bnd using assms by (intro wp_lev_ask) (simp_all add: neutral_settled neutral_usable lev_settled_alive)

lemma good_tell: "neutral c \<Longrightarrow> lev_settled s \<Longrightarrow> wp (lev_tell c) lev_good s"
  by (simp add: wp_lev_tell neutral_settled neutral_usable)

lemma main_good: "lev_settled s \<Longrightarrow> wp (lev_main es) lev_good s"
  unfolding lev_main_def
  by (auto intro!: good_ask good_then good_tell loop_good simp: wp_ret split: option.split)

text \<open>C35. Whatever the library answers and reports, every \<open>bufferevent\<close> of the server keeps to its life: no
  call is made for it before it is made or after it is freed, it is greeted once when it is made and once for each
  message that is reported, and it is freed once, when an event is reported for it. When the server returns, each one
  is open or was freed, and one was asked for each accepted client, in order. The only undefined step is
  to print a message of \<open>RECV_BUF\<close> bytes without a zero; a run that goes on keeps to the lives so far.\<close>

theorem lev_main_safe:
  assumes "lev_main es (lev_boot rs) = (out, t)"
  shows "case out of
      Ret rc \<Rightarrow> (\<forall>b. bev_life b Absent (lv_trace t) = Some Absent \<or> bev_life b Absent (lv_trace t) = Some Open) \<and>
        concat (map wrapped_fd (lv_trace t)) = concat (map accepted_fd (lv_trace t))
    | Fail e \<Rightarrow> (\<forall>b. bev_life b Absent (lv_trace t) \<noteq> None) \<and> (e = Pending \<or> e = Undef Out_of_bounds \<and>
        (\<exists>b xs. last (lv_trace t) = Called (Bev_read b RECV_BUF) (Data xs) \<and> length xs = RECV_BUF \<and> CHR 0x00 \<notin> set xs))"
proof -
  have "lev_settled (lev_boot rs)" by (simp add: lev_settled_def lev_boot_def)
  then have "lev_good out t" using wpD [OF main_good assms] by simp
  then show ?thesis unfolding lev_good_def lev_settled_def by (cases out) auto
qed

text \<open>A message is answered with the greeting, unless it fills the buffer and has no zero: then printing it
  reads past the end of the buffer.\<close>

theorem lev_recv_overflow:
  assumes "b \<in> lv_live s" "lv_script s = Data xs # rs" "length xs \<le> RECV_BUF"
  shows "lev_handle_recv b s =
    (let u = lev_record (Bev_read b RECV_BUF) (Data xs) (s\<lparr>lv_script := rs\<rparr>)
     in if length xs = RECV_BUF \<and> CHR 0x00 \<notin> set xs then (Fail (Undef Out_of_bounds), u)
        else (Ret (), lev_record (Bev_write b GREETING) Void u))"
proof -
  let ?u = "lev_record (Bev_read b RECV_BUF) (Data xs) (s\<lparr>lv_script := rs\<rparr>)"
  have ask: "lev_ask (Bev_read b RECV_BUF) s = (Ret (Data xs), ?u)"
    using assms by (simp add: lev_ask_def bev_usable_def)
  have "CHR 0x00 \<in> set (xs @ drop (length xs) (zero_bytes RECV_BUF)) \<longleftrightarrow> \<not> (length xs = RECV_BUF \<and> CHR 0x00 \<notin> set xs)"
    using assms(3) by (auto simp: zero_bytes_def)
  then show ?thesis
    using ask assms(1,3) by (simp add: lev_handle_recv_def bnd_apply lev_tell_def bev_usable_def Let_def zero_bytes_def)
qed

text \<open>A client is accepted, sends a message and goes away; a late message is not reported any more; then
  another client is accepted.\<close>

theorem lev_main_safe_witness:
  "\<exists>t. lev_main [On_accept 5, On_read 7, On_event 7 16, On_read 7, On_accept 6]
      (lev_boot [Pointer (Some 1), Pointer (Some 2), Pointer (Some 3), Status 0, Pointer (Some 7), Data ''hi'', Pointer (Some 8)]) = (Ret 0, t) \<and>
    Called (Bev_free 7) Void \<in> set (lv_trace t) \<and> lv_live t = {8} \<and> concat (map wrapped_fd (lv_trace t)) = [5, 6]"
proof -
  let ?es = "[On_accept 5, On_read 7, On_event 7 16, On_read 7, On_accept 6]" and
    ?rs = "[Pointer (Some 1), Pointer (Some 2), Pointer (Some 3), Status 0, Pointer (Some 7), Data ''hi'', Pointer (Some 8)]"
  let ?t = "snd (lev_main ?es (lev_boot ?rs))"
  have run: "fst (lev_main ?es (lev_boot ?rs)) = Ret 0 \<and> lv_live ?t = {8} \<and> Called (Bev_free 7) Void \<in> set (lv_trace ?t) \<and>
      concat (map accepted_fd (lv_trace ?t)) = [5, 6]"
    by (simp add: lev_main_def lev_boot_def bnd_apply thn_apply lev_ask_def lev_tell_def bev_usable_def lev_record_def
        lev_report_def lev_handle_accept_def lev_handle_recv_def lev_handle_event_def RECV_BUF_def zero_bytes_def)
  then obtain t where t: "lev_main ?es (lev_boot ?rs) = (Ret 0, t)" "lv_live t = {8}"
      "Called (Bev_free 7) Void \<in> set (lv_trace t)" "concat (map accepted_fd (lv_trace t)) = [5, 6]"
    by (metis prod.collapse)
  have "concat (map wrapped_fd (lv_trace t)) = concat (map accepted_fd (lv_trace t))"
    using lev_main_safe [OF t(1)] by simp
  then show ?thesis using t by (intro exI [of _ t]) simp
qed

theorem lev_recv_overflow_witness:
  "fst (lev_handle_recv 7 ((lev_boot [Data (replicate 1024 (CHR ''a''))])\<lparr>lv_live := {7}\<rparr>)) = Fail (Undef Out_of_bounds) \<and>
   fst (lev_handle_recv 7 ((lev_boot [Data (replicate 1023 (CHR ''a''))])\<lparr>lv_live := {7}\<rparr>)) = Ret ()"
  using lev_recv_overflow [of 7 "(lev_boot [Data (replicate 1024 (CHR ''a''))])\<lparr>lv_live := {7}\<rparr>" "replicate 1024 (CHR ''a'')" "[]"]
    lev_recv_overflow [of 7 "(lev_boot [Data (replicate 1023 (CHR ''a''))])\<lparr>lv_live := {7}\<rparr>" "replicate 1023 (CHR ''a'')" "[]"]
  by (simp add: lev_boot_def RECV_BUF_def Let_def)

end
