(* ===== verification/Spec2Isabelle.thy ===== *)
theory Spec2Isabelle
  imports Buffer_List Fifo_Declared Poll_Kernel Sync_Event Stop_Watch Singleton Socket_Options Note_Typing Connector_Life Application_Runs
    Echo_System Libevent_Server
begin

text \<open>
  \<^bold>\<open>A verification of the reactor test bed\<close>

  The repository holds four programs. \<^verbatim>\<open>src/epoll_server\<close> is an echo server on a small
  framework: buffers, sockets, a poll set over \<^verbatim>\<open>epoll\<close>, a notification center, a reactor that
  dispatches the events of sockets to observers, an acceptor, a connector, and a frame for server applications.
  \<^verbatim>\<open>src/simple_epoll\<close> is an echo server without a framework, \<^verbatim>\<open>src/simple_libevent\<close> a
  server on libevent, \<^verbatim>\<open>src/raw_echo_client\<close> a client. \<^verbatim>\<open>src/libevent_server\<close>
  has an empty \<^verbatim>\<open>main\<close>.

  \<^bold>\<open>How the code is modelled\<close>

  Theory \<open>Prelude\<close>: a C++ function is a program \<open>('s, 'a) prog\<close>, a function from a state to an outcome and the
  state it leaves behind. An outcome is a value or a failure: an exception, a failed assertion, a deadlock on a
  mutex, undefined behaviour, the end of the process, or \<open>Pending\<close>, when the operating system has not yet answered.
  \<open>bnd\<close>, \<open>thn\<close>, \<open>cond\<close>, \<open>on_exit\<close>, \<open>finally_run\<close>, \<open>catch_all\<close> and \<open>with_lock\<close> are the sequence, the branch, the
  destructor of a local object, the handler and the lock guard. Two sets of rules carry the proofs: \<open>keeps\<close> (a
  program keeps a property of the state, whatever its outcome) and \<open>wp\<close> (weakest preconditions).

  Theory \<open>Data_Refinement\<close>: one locale, \<open>data_refinement\<close>, for a component that is used through sequences of calls and a
  reference with simpler states. Its law is about a single call, its lemma about all sequences; the array, the queue and the poll
  set are its interpretations.

  Theory \<open>Kernel\<close>: the operating system is not part of the repository. A \<open>world\<close> holds a script, the replies it
  is going to give, and the trace of the calls. \<open>reply_ok\<close> says what the manual promises of a reply. A theorem
  about every script is a theorem about every behaviour of the system, and a loop that asks the system ends with the
  script at the latest, so it needs no fuel. The one bound is that of \<open>reactor_run\<close>, whose flag is set by another thread:
  its argument is the number of turns, and the theorems hold for each number.

  \<^bold>\<open>The theories and the code\<close>

  \<^item> \<open>Buffer\<close> (\<^verbatim>\<open>buffer.h\<close>): the resizable array. Every sequence of operations stays inside
    the array, but for an \<open>append\<close> of the buffer to itself that has to grow, which reads freed memory; \<open>==\<close> is right.
    \<open>Buffer_List\<close>: any sequence of calls is one on a plain list, results and refusals included.
  \<^item> \<open>Fifo_Buffer\<close> (\<^verbatim>\<open>fifo_buffer.h\<close>): the byte queue with its mutex and signals, and when
    exactly it blocks on its own mutex. \<open>Fifo_Queue\<close>: what its calls compute on a mutex that is re-entrant, as operations of a
    bounded queue that has no offset and never moves its data. \<open>Fifo_Declared\<close>: the queue as it is declared, from each of its
    constructors on: a call that does not block does what it does on a re-entrant mutex, so any sequence of calls is one on the bounded
    queue, stays inside the array and leaves current signals; the first call that locks twice ends it; what \<open>resize\<close> breaks.
    The locales \<open>byte_queue\<close> and \<open>drainable_queue\<close> are the interface that the sockets use.
  \<^item> \<open>Server_Socket\<close> (\<^verbatim>\<open>server_socket.cpp, server_socket.h, socket_defs.h\<close>): all member
    functions over any script. The discipline of the descriptor, retries and error reports; that no byte is ever passed
    between a socket and a queue, and what the two functions would do on a re-entrant mutex.
    \<open>Socket_Options\<close>: what the getter of an option answers after its setter, as far as the manual says.
  \<^item> \<open>Std_Map\<close>: \<^verbatim>\<open>std::map\<close> behind the locale \<open>ordered_map\<close>.
  \<^item> \<open>Poll_Set\<close> (\<^verbatim>\<open>poll_set.cpp, poll_set.h\<close>): what \<open>poll\<close> reports, what \<open>has\<close> answers, and
    that \<open>remove\<close> closes. \<open>Poll_Kernel\<close>: the set and the kernel's interest list, read off the trace, through any sequence
    of the set's operations, \<open>poll\<close> included, whose result takes the reported sockets off the kernel's list when it is destroyed.
  \<^item> \<open>Observers\<close> (\<^verbatim>\<open>observer.h, notification_center.cpp, socket_notification.cpp\<close> and their
    headers): objects on a heap and observers with call-backs. The center refines a list of identities (locale \<open>registry\<close>);
    which observers a notification reaches; an observer that removes itself.
  \<^item> \<open>Socket_Reactor\<close> (\<^verbatim>\<open>socket_notifier.cpp, socket_reactor.cpp\<close> and their headers): the
    notifiers and the reactor. A notifier is a registry too; how a dispatch ends; a new reactor never polls. The locale
    \<open>enrolment\<close> is what the users of the reactor rely on when they register.
  \<^item> \<open>Echo_Server\<close> (\<^verbatim>\<open>socket_acceptor.h, socket_connector.h, echo_server.h, main.cpp\<close>): the
    classes on top of the reactor and the whole echo server: its service (that it blocks at its first event, and the relay
    it is written for), its acceptor, and every way in which the program ends.
    \<open>Note_Typing\<close>: every method that declares a notification is called with one of that class. \<open>Connector_Life\<close>: the
    constructor of a connector leaks no descriptor, whatever fails.
  \<^item> \<open>Server_Application\<close> (\<^verbatim>\<open>server_application.cpp, server_application.h\<close>): arguments, exit
    codes for every \<open>initialize\<close> and \<open>main\<close>, signals, and the daemon with each of its failures. \<open>Application_Runs\<close>: its two \<open>run\<close> agree; the start time is never set.
  \<^item> \<open>Sync_Event\<close> (\<^verbatim>\<open>event.cpp, event.h\<close>): the event of several threads as a step
    relation; it refines an atomic flag and loses no wake-up.
  \<^item> \<open>Singleton\<close> (\<^verbatim>\<open>singleton.h\<close>): one object, whenever the constructor stops to throw.
  \<^item> \<open>Stop_Watch\<close> (\<^verbatim>\<open>stopwatch.h\<close>): the ticks add up.
  \<^item> \<open>Simple_Epoll\<close> (\<^verbatim>\<open>src/simple_epoll\<close>): the plain server. The table of slots is a state
    machine: every report moves one slot along one edge; the echo, the overflow of a slot's buffer, the full table, the end of the loop.
    \<open>Echo_Stream\<close>: its trace read as byte streams; what a connection is sent is what it has sent, in order, and
    what is missing is in its slot.
  \<^item> \<open>Raw_Client\<close> (\<^verbatim>\<open>src/raw_echo_client\<close>): the session of the client. \<open>Echo_System\<close>: the
    client and the plain server together, from end to end.
  \<^item> \<open>Libevent_Server\<close> (\<^verbatim>\<open>src/simple_libevent\<close>, \<^verbatim>\<open>src/libevent_server\<close>): the call-backs, for every behaviour of
    the library that its documentation allows; the life of a \<^verbatim>\<open>bufferevent\<close>, read from the trace.

  A definition has the name of the function it models, with a prefix for its class (\<open>buffer_\<close>, \<open>fifo_\<close>, \<open>sock_\<close>, \<open>poll_\<close>,
  \<open>nc_\<close>, \<open>notifier_\<close>, \<open>app_\<close>, \<open>lev_\<close> and so on).

  \<^bold>\<open>Parameters\<close>

  The call-back of an observer is an argument, which \<open>service_callback\<close> instantiates for the echo server. The
  conversion of a socket to a key of the poll set is an argument as well: the repository uses it and does not
  have it. The slots of \<^verbatim>\<open>boost::signals2\<close> are called at once, as the library documents.
  \<open>call_once\<close> is an argument of the singleton, and \<open>once_law\<close> is what it promises. Four hypotheses describe the
  world of a run, and witnesses show that they can hold: \<open>nt_honest\<close> (the kernel hands out unused descriptors and reports
  watched slots, each once), \<open>honest_reads\<close> (a flag of a socket reads as enabled exactly when the value set last enables it), \<open>honest\<close> (an \<^verbatim>\<open>epoll_ctl\<close> that succeeds
  was given valid descriptors, and not its own) and \<open>connected_to\<close> (a connection
  delivers the bytes in order).

  \<^bold>\<open>Not modelled\<close>

  Output. \<^verbatim>\<open>format.h\<close>, which uses names that are declared nowhere and cannot be compiled.
  The names of the notification classes, which depend on the compiler and which nobody compares. The members that only
  return a reference to a part of an object, which the definitions reach as a field; the exit codes and priorities
  that nothing uses; declarations and defaulted members. The data races of the reactor: its
  thread runs between the steps of the main thread. Signals that end the process: a \<^verbatim>\<open>send\<close> without flags on a connection that
  the peer has closed raises \<^verbatim>\<open>SIGPIPE\<close>, which no program here handles; such a run ends at that call, and the model, in which the call
  reports an error, goes on. A timed wait of the event that was notified in time and is late to get the mutex is not taken to time out.
  Allocation never fails, except for an array that is
  too large. The classes that do not compile when they are instantiated (an observer's \<open>clone\<close>, the
  call-backs of the connector) are modelled by what their code means to do, and the theories say so.
\<close>

end
